(* ===== verification/Prelude.thy ===== *)
theory Prelude
  imports Main "HOL-Library.Word" "HOL-Library.Multiset"
begin

unbundle bit_operations_syntax

text \<open>
  Shared vocabulary of the development: the C++ integer types at their width, the ways a C++
  expression can fail to have a value, bounds-checked vector access, little-endian words
  (the layout of every memcpy and file record in the sources, which build for x86-64), and
  decimal and hexadecimal text. The component theories add their lemmas to the collections
  \<open>word_nat\<close> (reading a word expression as a natural number) and \<open>layout\<close> (byte layouts).
\<close>

named_theorems word_nat
named_theorems layout

section \<open>Machine integers and failures\<close>

type_synonym u8 = "8 word"
type_synonym u16 = "16 word"
type_synonym u32 = "32 word"
type_synonym u64 = "64 word"
type_synonym byte = "8 word"
type_synonym bytes = "8 word list"

text \<open>
  What can go wrong in a C++ expression: the first three and \<open>ShiftRange\<close> are undefined behaviour, the next two
  are standard exceptions, \<open>Terminated\<close> is \<open>std::terminate\<close> and \<open>Aborted\<close> is \<open>abort()\<close>.
\<close>

datatype cpp_error =
    OutOfBounds          \<comment> \<open>vector or array index past the end\<close>
  | SignedOverflow       \<comment> \<open>overflow of a signed addition or subtraction\<close>
  | FloatCast            \<comment> \<open>double to unsigned cast out of range\<close>
  | InvalidArgument      \<comment> \<open>std::invalid_argument\<close>
  | OutOfRange           \<comment> \<open>std::out_of_range\<close>
  | ShiftRange           \<comment> \<open>shift by the width of the type or more\<close>
  | Terminated           \<comment> \<open>std::terminate\<close>
  | Thrown               \<comment> \<open>an exception of the program's own classes\<close>
  | Aborted              \<comment> \<open>abort\<close>

type_synonym 'a result = "cpp_error + 'a"

definition bindr :: "'e + 'a \<Rightarrow> ('a \<Rightarrow> 'e + 'b) \<Rightarrow> 'e + 'b" where
  "bindr r f = (case r of Inl e \<Rightarrow> Inl e | Inr x \<Rightarrow> f x)"

lemma bindr_simps [simp]: "bindr (Inl e) f = Inl e" "bindr (Inr x) f = f x"
  by (simp_all add: bindr_def)

lemma bindr_Inr_iff: "bindr r f = Inr y \<longleftrightarrow> (\<exists>x. r = Inr x \<and> f x = Inr y)"
  by (cases r) simp_all

definition nth_r :: "'a list \<Rightarrow> nat \<Rightarrow> 'a result" where
  "nth_r xs i = (if i < length xs then Inr (xs ! i) else Inl OutOfBounds)"

lemma nth_r_in [simp]: "i < length xs \<Longrightarrow> nth_r xs i = Inr (xs ! i)"
  by (simp add: nth_r_def)

lemma nth_r_Inr_iff: "nth_r xs i = Inr y \<longleftrightarrow> i < length xs \<and> xs ! i = y"
  by (simp add: nth_r_def)

section \<open>Reading words as natural numbers\<close>

declare of_nat_unat [simp del]

lemma of_nat_unat_word [simp]: "of_nat (unat w) = (w :: 'a::len word)"
  by (simp add: of_nat_unat)

lemma unat_less_two_power [word_nat]: "unat (w :: 'a::len word) < 2 ^ LENGTH('a)"
  by (rule unsigned_less)

lemma unat_u64_less: "unat (w :: u64) < 18446744073709551616"
  using unsigned_less [of w, where ?'a=nat] by simp

lemma unat_u32_less: "unat (w :: u32) < 4294967296"
  using unsigned_less [of w, where ?'a=nat] by simp

lemma unat_u8_less: "unat (w :: u8) < 256"
  using unsigned_less [of w, where ?'a=nat] by simp

lemma unat_u8_le: "unat (w :: u8) \<le> 255"
  using unat_u8_less [of w] by linarith

lemma unat_add_no_wrap:
  "unat a + unat b < 2 ^ LENGTH('a) \<Longrightarrow> unat (a + b) = unat a + unat (b :: 'a::len word)"
  by (simp add: unat_word_ariths)

lemma unat_mult_no_wrap:
  "unat a * unat b < 2 ^ LENGTH('a) \<Longrightarrow> unat (a * b) = unat a * unat (b :: 'a::len word)"
  by (simp add: unat_word_ariths)

lemma unat_sub_le: "b \<le> a \<Longrightarrow> unat (a - b) = unat a - unat (b :: 'a::len word)"
  by (simp add: unat_sub word_le_nat_alt)

lemma unat_of_nat_small: "n < 2 ^ LENGTH('a) \<Longrightarrow> unat (of_nat n :: 'a::len word) = n"
  by (simp add: unat_of_nat)

lemma unat_ucast_up: "LENGTH('a::len) \<le> LENGTH('b::len) \<Longrightarrow> unat (ucast (x :: 'a word) :: 'b word) = unat x"
  by (simp add: unsigned_ucast_eq take_bit_nat_eq_self order.strict_trans2 [OF unsigned_less])

lemma ucast_up_down: "LENGTH('a::len) \<le> LENGTH('b::len) \<Longrightarrow> ucast (ucast (x :: 'a word) :: 'b word) = x"
  using unsigned_less [of x, where ?'a=nat]
  by (simp add: word_unat_eq_iff unsigned_ucast_eq [of "ucast x"] unat_ucast_up take_bit_nat_eq_self)

section \<open>C++ vectors and strings\<close>

text \<open>
  \<open>std::array<uint8_t, 32>\<close> is a list of bytes of length 32 (\<open>arr32\<close>); \<open>zeros32\<close> is its
  value after \<open>fill(0)\<close>, \<open>memset\<close> or value initialisation.
\<close>

definition arr32 :: "bytes \<Rightarrow> bool" where
  "arr32 h \<longleftrightarrow> length h = 32"

definition zeros32 :: bytes where
  "zeros32 = replicate 32 0"

lemma arr32_zeros32 [simp]: "arr32 zeros32"
  by (simp add: arr32_def zeros32_def)

lemma arr32_length: "arr32 h \<Longrightarrow> length h = 32"
  by (simp add: arr32_def)

lemma sum_list_filter_le: "sum_list (map f (filter P xs)) \<le> (sum_list (map f xs) :: nat)"
  by (induction xs) auto

lemma take_Suc_snoc: "n < length xs \<Longrightarrow> take (Suc n) xs = take n xs @ [xs ! n]"
  by (rule take_Suc_conv_app_nth)

text \<open>The last elements of a list, fewer if it is shorter.\<close>

definition last_n :: "nat \<Rightarrow> 'a list \<Rightarrow> 'a list" where
  "last_n n xs = drop (length xs - n) xs"

lemma last_n_snoc: "0 < n \<Longrightarrow> last_n n (xs @ [x]) = last_n (n - 1) xs @ [x]"
  by (cases n) (auto simp: last_n_def)

lemma last_n_last_n: "m \<le> n \<Longrightarrow> last_n m (last_n n xs) = last_n m xs"
  by (cases "n \<le> length xs") (auto simp: last_n_def)

end
