(* ===== verification/Config.thy ===== *)
theory Config
  imports Prelude
begin

text \<open>
  The constants of src/cryptonote_config.h, under the names of its macros, at the C++ type of the
  expression they expand to (\<open>UINT64_C\<close> constants are \<open>u64\<close>; plain decimal literals are \<open>int\<close>
  and are kept as naturals, converted where the code mixes them with unsigned operands).
\<close>

definition CRYPTONOTE_NAME :: string where "CRYPTONOTE_NAME = ''randomlite''"
definition CRYPTONOTE_BLOCKS_FILENAME :: string where "CRYPTONOTE_BLOCKS_FILENAME = ''blockchain.bin''"
definition CRYPTONOTE_BLOCKS_INDEX_FILENAME :: string where
  "CRYPTONOTE_BLOCKS_INDEX_FILENAME = ''blockindexes.bin''"
definition CRYPTONOTE_POOLDATA_FILENAME :: string where "CRYPTONOTE_POOLDATA_FILENAME = ''mempool.bin''"
definition P2P_NET_DATA_FILENAME :: string where "P2P_NET_DATA_FILENAME = ''p2pstate.bin''"
definition MINER_CONFIG_FILE_NAME :: string where "MINER_CONFIG_FILE_NAME = ''miner_config.json''"

definition COIN_NAME :: string where "COIN_NAME = ''RandomLite''"
definition COIN_TICKER :: string where "COIN_TICKER = ''XRL''"
definition COIN_UNITS :: u64 where "COIN_UNITS = 1000000000000"
definition MONEY_SUPPLY :: u64 where "MONEY_SUPPLY = - 1"
definition EMISSION_SPEED_FACTOR_PER_MINUTE :: nat where "EMISSION_SPEED_FACTOR_PER_MINUTE = 20"
definition FINAL_SUBSIDY_PER_MINUTE :: u64 where "FINAL_SUBSIDY_PER_MINUTE = 600000000000"

definition DIFFICULTY_TARGET_V2 :: nat where "DIFFICULTY_TARGET_V2 = 150"
definition CRYPTONOTE_BLOCK_FUTURE_TIME_LIMIT :: nat where
  "CRYPTONOTE_BLOCK_FUTURE_TIME_LIMIT = 2 * 60 * 60"
definition DIFFICULTY_WINDOW_V2 :: nat where "DIFFICULTY_WINDOW_V2 = 720"
definition DIFFICULTY_LAG_V2 :: nat where "DIFFICULTY_LAG_V2 = 15"
definition DIFFICULTY_CUT_V2 :: nat where "DIFFICULTY_CUT_V2 = 60"
definition SEED_HASH_EPOCH_BLOCKS :: nat where "SEED_HASH_EPOCH_BLOCKS = 1440"
definition SEED_HASH_LAG_BLOCKS :: nat where "SEED_HASH_LAG_BLOCKS = 64"
definition CRYPTONOTE_DEFAULT_TX_SPENDABLE_AGE :: nat where "CRYPTONOTE_DEFAULT_TX_SPENDABLE_AGE = 10"
definition CRYPTONOTE_MINIMUM_MIXIN_V3 :: nat where "CRYPTONOTE_MINIMUM_MIXIN_V3 = 15"

definition CRYPTONOTE_BLOCK_GRANTED_FULL_REWARD_ZONE_V2 :: nat where
  "CRYPTONOTE_BLOCK_GRANTED_FULL_REWARD_ZONE_V2 = 300000"
definition CRYPTONOTE_COINBASE_BLOB_RESERVED_SIZE :: nat where "CRYPTONOTE_COINBASE_BLOB_RESERVED_SIZE = 600"
definition CRYPTONOTE_DISPLAY_DECIMALS :: nat where "CRYPTONOTE_DISPLAY_DECIMALS = 12"

definition P2P_DEFAULT_PORT :: u16 where "P2P_DEFAULT_PORT = 28080"
definition RPC_DEFAULT_PORT :: u16 where "RPC_DEFAULT_PORT = 28081"
definition ZMQ_DEFAULT_PORT :: u16 where "ZMQ_DEFAULT_PORT = 28082"

definition P2P_NETWORK_ID :: bytes where
  "P2P_NETWORK_ID = [0x52, 0x41, 0x4e, 0x44, 0x4f, 0x4d, 0x4c, 0x49,
                     0x54, 0x45, 0x50, 0x52, 0x49, 0x56, 0x30, 0x31]"

definition GENESIS_NONCE :: u32 where "GENESIS_NONCE = 10001"
definition GENESIS_TIMESTAMP :: u64 where "GENESIS_TIMESTAMP = 1788461926"

definition GENESIS_HASH_HEX :: string where
  "GENESIS_HASH_HEX = ''e61140f040d8c5263246e8e21a447db88cadb7de9d04590ab0daaad16d773d16''"
definition GENESIS_COINBASE_TX_HEX :: string where
  "GENESIS_COINBASE_TX_HEX =
     ''010a01ff000180809860029b2e4c0271c0011e761505c8e22c9545465e94b2361665a3d75c50c058728a4c148286''"

definition SEED_NODES :: "string list" where
  "SEED_NODES = [''node1.randomlite.org:28080'', ''node2.randomlite.org:28080'',
                 ''seed.xrl-privacy.net:28080'']"

lemmas config_defs =
  COIN_UNITS_def EMISSION_SPEED_FACTOR_PER_MINUTE_def DIFFICULTY_TARGET_V2_def
  CRYPTONOTE_BLOCK_FUTURE_TIME_LIMIT_def DIFFICULTY_WINDOW_V2_def SEED_HASH_EPOCH_BLOCKS_def
  SEED_HASH_LAG_BLOCKS_def CRYPTONOTE_DEFAULT_TX_SPENDABLE_AGE_def CRYPTONOTE_MINIMUM_MIXIN_V3_def

end
