(* ===== verification/Bytes.thy ===== *)
theory Bytes
  imports Prelude
begin

text \<open>
  Byte layouts and text: little-endian words (memcpy and stream writes of integers on x86-64),
  the hexadecimal functions \<open>hash_to_hex\<close> and \<open>hex_to_hash\<close> of src/crypto/crypto.cpp with the
  \<open>strtoul\<close> they call, and the decimal text that \<open>operator<<\<close> prints for an integer. The lemmas
  give the round trips both ways.
\<close>

section \<open>Little-endian words\<close>

fun word_to_le :: "nat \<Rightarrow> 'a::len word \<Rightarrow> bytes" where
  "word_to_le 0 w = []"
| "word_to_le (Suc n) w = ucast w # word_to_le n (drop_bit 8 w)"

fun le_to_word :: "bytes \<Rightarrow> 'a::len word" where
  "le_to_word [] = 0"
| "le_to_word (b # bs) = ucast b OR push_bit 8 (le_to_word bs)"

fun le_nat :: "bytes \<Rightarrow> nat" where
  "le_nat [] = 0"
| "le_nat (b # bs) = unat b + 256 * le_nat bs"

lemma length_word_to_le [simp]: "length (word_to_le n w) = n"
  by (induction n arbitrary: w) simp_all

lemma word_to_le_Nil [simp]: "word_to_le n w = [] \<longleftrightarrow> n = 0"
  by (cases n) simp_all

lemma bit_le_to_word [layout]:
  "bit (le_to_word bs :: 'a::len word) i \<longleftrightarrow>
     i < LENGTH('a) \<and> i div 8 < length bs \<and> bit (bs ! (i div 8)) (i mod 8)"
proof (induction bs arbitrary: i)
  case Nil
  show ?case by simp
next
  case (Cons b bs)
  show ?case
  proof (cases "i < 8")
    case True
    then have "i div 8 = 0" "i mod 8 = i" by simp_all
    with True show ?thesis by (simp add: bit_or_iff bit_push_bit_iff bit_ucast_iff)
  next
    case False
    then obtain k where k: "i = 8 + k" using le_Suc_ex by (metis not_less)
    then have "i div 8 = Suc (k div 8)" and "i mod 8 = k mod 8" by simp_all
    moreover have "\<not> bit b i" using False bit_imp_le_length [of b i] by auto
    moreover have "i < LENGTH('a) \<Longrightarrow> k < LENGTH('a)" using k by simp
    ultimately show ?thesis
      using k by (simp add: bit_or_iff bit_push_bit_iff bit_ucast_iff Cons.IH) auto
  qed
qed

lemma nth_word_to_le: "i < n \<Longrightarrow> word_to_le n w ! i = ucast (drop_bit (8 * i) w)"
proof (induction n arbitrary: w i)
  case (Suc n)
  then show ?case by (cases i) (simp_all add: ac_simps)
qed simp

lemma le_to_word_to_le [simp]:
  "LENGTH('a::len) \<le> 8 * n \<Longrightarrow> le_to_word (word_to_le n w) = (w :: 'a word)"
  by (rule bit_word_eqI) (auto simp: layout nth_word_to_le bit_simps)

lemma word_to_le_to_word [simp]:
  assumes "length bs = n" "8 * n \<le> LENGTH('a::len)"
  shows "word_to_le n (le_to_word bs :: 'a word) = bs"
proof (rule nth_equalityI)
  fix i assume "i < length (word_to_le n (le_to_word bs :: 'a word))"
  then have i: "i < n" by simp
  show "word_to_le n (le_to_word bs :: 'a word) ! i = bs ! i"
  proof (rule bit_word_eqI)
    fix j assume "j < LENGTH(8)"
    then have j: "j < 8" by simp
    then have "(8 * i + j) div 8 = i" "(8 * i + j) mod 8 = j" by simp_all
    moreover have "8 * i + j < LENGTH('a)" using i j assms by linarith
    ultimately show "bit (word_to_le n (le_to_word bs :: 'a word) ! i) j = bit (bs ! i) j"
      using i j assms by (simp add: nth_word_to_le bit_simps layout add.commute)
  qed
qed (simp add: assms)

lemma unat_ucast_or_push:
  fixes x :: "'a::len word" and b :: byte
  assumes "8 \<le> LENGTH('a)" "unat x * 256 < 2 ^ LENGTH('a)"
  shows "unat (ucast b OR push_bit 8 x) = unat b + 256 * unat x"
proof -
  have "ucast b AND push_bit 8 x = 0"
    by (rule bit_word_eqI) (auto simp: bit_simps dest: bit_imp_le_length)
  then have "ucast b OR push_bit 8 x = ucast b + push_bit 8 x"
    by (simp add: disjunctive_add bit_eq_iff bit_simps)
  moreover have "unat (push_bit 8 x) = 256 * unat x"
    using assms by (simp add: push_bit_eq_mult unat_word_ariths take_bit_eq_mod mod_mult_right_eq mult.commute)
  moreover have "unat (ucast b :: 'a word) = unat b"
  proof -
    have "unat b < 2 ^ 8" using unat_u8_less [of b] by simp
    also have "(2 :: nat) ^ 8 \<le> 2 ^ LENGTH('a)" using assms(1) by (intro power_increasing) auto
    finally show ?thesis by (simp add: unsigned_ucast_eq take_bit_nat_eq_self)
  qed
  moreover have "unat b + unat x * 256 < 2 ^ LENGTH('a)"
  proof -
    obtain k where k: "LENGTH('a) = 8 + k" using assms(1) le_Suc_ex by blast
    then have "unat x * 256 < 256 * 2 ^ k" using assms(2) by (simp add: power_add)
    then have "unat x + 1 \<le> 2 ^ k" by simp
    then have "(unat x + 1) * 256 \<le> 2 ^ k * 256" by (rule mult_right_mono) simp
    with unat_u8_less [of b] k show ?thesis by (simp add: power_add)
  qed
  ultimately show ?thesis
    by (simp add: unat_add_no_wrap mult.commute)
qed

lemma le_nat_bound [layout]: "le_nat bs < 256 ^ length bs"
proof (induction bs)
  case (Cons b bs)
  then have "256 * (le_nat bs + 1) \<le> 256 * 256 ^ length bs" by (intro mult_left_mono) auto
  with unat_u8_less [of b] show ?case by simp
qed simp

lemma le_nat_replicate_0: "le_nat (replicate n 0) = 0"
  by (induction n) simp_all

lemma unat_le_to_word:
  "8 * length bs \<le> LENGTH('a::len) \<Longrightarrow> unat (le_to_word bs :: 'a word) = le_nat bs"
proof (induction bs)
  case (Cons b bs)
  then have ih: "unat (le_to_word bs :: 'a word) = le_nat bs" by simp
  have "le_nat bs * 256 < 256 ^ length (b # bs)" using le_nat_bound [of bs] by simp
  also have "\<dots> = 2 ^ (8 * length (b # bs))" by (simp only: power_mult) simp
  also have "\<dots> \<le> 2 ^ LENGTH('a)" using Cons.prems by (intro power_increasing) auto
  finally show ?case
    using Cons.prems by (simp add: unat_ucast_or_push ih)
qed simp

section \<open>Hexadecimal text\<close>

definition hex_chars :: string where
  "hex_chars = ''0123456789abcdef''"

definition hex_char :: "nat \<Rightarrow> char" where
  "hex_char d = hex_chars ! d"

text \<open>\<open>ss << std::hex << std::setw(2) << std::setfill('0') << (int)b\<close>: two digits for a byte.\<close>

definition byte_hex :: "byte \<Rightarrow> string" where
  "byte_hex b = [hex_char (unat b div 16), hex_char (unat b mod 16)]"

definition hash_to_hex :: "bytes \<Rightarrow> string" where
  "hash_to_hex h = concat (map (\<lambda>i. byte_hex (h ! i)) [0..<32])"

text \<open>
  \<open>strtoul(s, nullptr, 16)\<close>: leading white space, an optional sign, an optional \<open>0x\<close> in front of
  a hexadecimal digit, then the longest run of hexadecimal digits; the value saturates at
  \<open>ULONG_MAX\<close>, and a minus sign negates it modulo the word size.
\<close>

definition is_space :: "char \<Rightarrow> bool" where
  "is_space c \<longleftrightarrow> c = CHR '' '' \<or> ((9 :: nat) \<le> of_char c \<and> of_char c \<le> (13 :: nat))"

definition hex_val :: "char \<Rightarrow> nat option" where
  "hex_val c =
     (let n = of_char c :: nat in
      if 48 \<le> n \<and> n \<le> 57 then Some (n - 48)
      else if 97 \<le> n \<and> n \<le> 102 then Some (n - 87)
      else if 65 \<le> n \<and> n \<le> 70 then Some (n - 55)
      else None)"

fun hex_run :: "string \<Rightarrow> nat \<Rightarrow> nat" where
  "hex_run [] acc = acc"
| "hex_run (c # cs) acc = (case hex_val c of None \<Rightarrow> acc | Some d \<Rightarrow> hex_run cs (16 * acc + d))"

definition strip_sign :: "string \<Rightarrow> bool \<times> string" where
  "strip_sign s = (case s of [] \<Rightarrow> (False, [])
     | c # cs \<Rightarrow> if c = CHR ''-'' then (True, cs) else if c = CHR ''+'' then (False, cs) else (False, s))"

definition strip_0x :: "string \<Rightarrow> string" where
  "strip_0x s = (case s of
       a # b # c # cs \<Rightarrow> if a = CHR ''0'' \<and> (b = CHR ''x'' \<or> b = CHR ''X'') \<and> hex_val c \<noteq> None
                       then c # cs else s
     | _ \<Rightarrow> s)"

definition strtoul16 :: "string \<Rightarrow> u64" where
  "strtoul16 s =
     (let (neg, t) = strip_sign (dropWhile is_space s);
          v = hex_run (strip_0x t) 0
      in if v \<ge> 2 ^ 64 then -1 else if neg then - of_nat v else of_nat v)"

definition hex_to_hash :: "string \<Rightarrow> bytes" where
  "hex_to_hash s =
     map (\<lambda>i. if i * 2 + 1 < length s then ucast (strtoul16 (take 2 (drop (i * 2) s))) else 0) [0..<32]"

lemma arr32_hex_to_hash [simp]: "arr32 (hex_to_hash s)"
  by (simp add: arr32_def hex_to_hash_def)

lemma less_16_cases:
  "(d :: nat) < 16 \<Longrightarrow> d \<in> {0, 1, 2, 3, 4, 5, 6, 7, 8, 9, 10, 11, 12, 13, 14, 15}"
  by (simp only: insert_iff empty_iff simp_thms) arith

lemma hex_val_hex_char [simp]: "d < 16 \<Longrightarrow> hex_val (hex_char d) = Some d"
  by (drule less_16_cases) (auto simp: hex_char_def hex_chars_def hex_val_def)

lemma hex_char_not_special [simp]:
  assumes "d < 16"
  shows "\<not> is_space (hex_char d)" "hex_char d \<noteq> CHR ''-''" "hex_char d \<noteq> CHR ''+''"
        "hex_char d \<noteq> CHR ''x''" "hex_char d \<noteq> CHR ''X''"
  using less_16_cases [OF assms] by (auto simp: hex_char_def hex_chars_def is_space_def)

lemma strtoul16_byte_hex [simp]: "ucast (strtoul16 (byte_hex b)) = b"
proof -
  have "unat b div 16 < 16" "unat b mod 16 < 16"
    using unat_u8_less [of b] by (auto intro: less_mult_imp_div_less)
  then have "strtoul16 (byte_hex b) = of_nat (16 * (unat b div 16) + unat b mod 16)"
    using unat_u8_less [of b]
    by (simp add: strtoul16_def byte_hex_def strip_sign_def strip_0x_def)
  then have "strtoul16 (byte_hex b) = ucast b" by (simp add: of_nat_unat)
  moreover have "ucast (ucast b :: u64) = b"
    by (rule bit_word_eqI) (simp add: bit_ucast_iff)
  ultimately show ?thesis by simp
qed

lemma length_hash_to_hex [simp]: "length (hash_to_hex h) = 64"
  by (simp add: hash_to_hex_def length_concat o_def byte_hex_def sum_list_triv)

lemma take_drop_concat_pairs:
  "(\<And>i. i < n \<Longrightarrow> length (f i) = 2) \<Longrightarrow> i < n \<Longrightarrow>
   take 2 (drop (i * 2) (concat (map f [0..<n]))) = f i"
proof (induction n)
  case (Suc n)
  have len: "length (concat (map f [0..<n])) = n * 2"
  proof -
    have "length (concat (map f [0..<n])) = (\<Sum>i\<leftarrow>[0..<n]. length (f i))"
      by (simp add: length_concat o_def)
    also have "\<dots> = (\<Sum>i\<leftarrow>[0..<n]. 2)" using Suc.prems by (intro arg_cong [of _ _ sum_list]) auto
    finally show ?thesis by (simp add: sum_list_triv)
  qed
  show ?case
  proof (cases "i = n")
    case True
    with len Suc.prems(1) [of n] show ?thesis by simp
  next
    case False
    with Suc.prems have "i < n" by simp
    then have "n * 2 - i * 2 \<ge> 2" by linarith
    with Suc \<open>i < n\<close> len show ?thesis by simp
  qed
qed simp

theorem hex_roundtrip: "arr32 h \<Longrightarrow> hex_to_hash (hash_to_hex h) = h"
proof (rule nth_equalityI)
  assume h: "arr32 h"
  then show "length (hex_to_hash (hash_to_hex h)) = length h"
    by (simp add: hex_to_hash_def arr32_def)
  fix i assume "i < length (hex_to_hash (hash_to_hex h))"
  then have i: "i < 32" by (simp add: hex_to_hash_def)
  then have "take 2 (drop (i * 2) (hash_to_hex h)) = byte_hex (h ! i)"
    unfolding hash_to_hex_def by (intro take_drop_concat_pairs) (simp_all add: byte_hex_def)
  with i show "hex_to_hash (hash_to_hex h) ! i = h ! i"
    by (simp add: hex_to_hash_def)
qed

lemma hash_to_hex_inject: "arr32 h \<Longrightarrow> arr32 g \<Longrightarrow> hash_to_hex h = hash_to_hex g \<longleftrightarrow> h = g"
  using hex_roundtrip by metis

section \<open>Decimal text\<close>

definition digit_char :: "nat \<Rightarrow> char" where
  "digit_char d = hex_chars ! d"

text \<open>\<open>operator<<\<close> of an unsigned integer, \<open>std::to_string\<close>, and \<open>setw(w) << setfill('0')\<close>.\<close>

fun dec :: "nat \<Rightarrow> string" where
  "dec n = (if n < 10 then [digit_char n] else dec (n div 10) @ [digit_char (n mod 10)])"

declare dec.simps [simp del]

definition zero_pad :: "nat \<Rightarrow> string \<Rightarrow> string" where
  "zero_pad w s = replicate (w - length s) (CHR ''0'') @ s"

definition is_digit :: "char \<Rightarrow> bool" where
  "is_digit c \<longleftrightarrow> (48 :: nat) \<le> of_char c \<and> of_char c \<le> (57 :: nat)"

definition digit_val :: "char \<Rightarrow> nat" where
  "digit_val c = of_char c - 48"

definition digits_val :: "string \<Rightarrow> nat" where
  "digits_val s = foldl (\<lambda>v c. 10 * v + digit_val c) 0 s"

lemma less_10_cases: "(d :: nat) < 10 \<Longrightarrow> d \<in> {0, 1, 2, 3, 4, 5, 6, 7, 8, 9}"
  by (simp only: insert_iff empty_iff simp_thms) arith

lemma digit_char [simp]:
  assumes "d < 10"
  shows "is_digit (digit_char d)" "digit_val (digit_char d) = d"
  using less_10_cases [OF assms] by (auto simp: digit_char_def hex_chars_def is_digit_def digit_val_def)

lemma digits_val_Nil [simp]: "digits_val [] = 0"
  by (simp add: digits_val_def)

lemma digits_val_snoc [simp]: "digits_val (s @ [c]) = 10 * digits_val s + digit_val c"
  by (simp add: digits_val_def)

lemma digits_val_append: "digits_val (s @ t) = digits_val s * 10 ^ length t + digits_val t"
proof (induction t rule: rev_induct)
  case (snoc c t)
  then have "digits_val ((s @ t) @ [c]) = 10 * (digits_val s * 10 ^ length t + digits_val t) + digit_val c"
    by (simp only: digits_val_snoc)
  then show ?case by (simp add: algebra_simps)
qed simp

lemma digits_val_zeros: "digits_val (replicate n (CHR ''0'')) = 0"
proof (induction n)
  case (Suc n)
  then show ?case using digits_val_append [of "[CHR ''0'']" "replicate n (CHR ''0'')"]
    by (simp add: digits_val_def digit_val_def)
qed simp

lemma digits_val_dec [simp]: "digits_val (dec n) = n"
proof (induction n rule: dec.induct)
  case (1 n)
  then show ?case by (subst dec.simps) (simp add: digits_val_def digit_char(2))
qed

lemma dec_digits: "c \<in> set (dec n) \<Longrightarrow> is_digit c"
proof (induction n rule: dec.induct)
  case (1 n)
  show ?case
  proof (cases "n < 10")
    case True
    with 1(2) show ?thesis by (subst (asm) dec.simps) auto
  next
    case False
    with 1 show ?thesis by (subst (asm) (2) dec.simps) auto
  qed
qed

lemma dec_nonempty [simp]: "dec n \<noteq> []"
  by (subst dec.simps) simp

lemma length_dec_le: "n < 10 ^ k \<Longrightarrow> 0 < k \<Longrightarrow> length (dec n) \<le> k"
proof (induction n arbitrary: k rule: dec.induct)
  case (1 n)
  show ?case
  proof (cases "n < 10")
    case True
    with 1(3) show ?thesis by (subst dec.simps) simp
  next
    case False
    with 1(2,3) obtain j where j: "k = Suc j" "0 < j" by (cases k; cases "k - 1") auto
    with 1(2) have "n div 10 < 10 ^ j" by (simp add: less_mult_imp_div_less mult.commute)
    with 1(1) [OF False _ j(2)] j False show ?thesis by (subst dec.simps) simp
  qed
qed

lemma zero_pad_digits: "c \<in> set (zero_pad w (dec n)) \<Longrightarrow> is_digit c"
  by (auto simp: zero_pad_def is_digit_def dest: dec_digits split: if_splits)

lemma digits_val_zero_pad [simp]: "digits_val (zero_pad w (dec n)) = n"
  by (simp add: zero_pad_def digits_val_append digits_val_zeros)

lemma length_zero_pad: "n < 10 ^ w \<Longrightarrow> 0 < w \<Longrightarrow> length (zero_pad w (dec n)) = w"
  using length_dec_le [of n w] by (simp add: zero_pad_def)

lemma dec_inject: "dec m = dec n \<longleftrightarrow> m = n"
  by (metis digits_val_dec)

text \<open>Lines of console text: \<open>stream << s << std::endl\<close>.\<close>

definition newline :: string where
  "newline = [CHR 0x0A]"

definition out_line :: "string \<Rightarrow> string" where
  "out_line s = s @ newline"

end
