(* ===== verification/Doubles.thy ===== *)
theory Doubles
  imports Complex_Main Prelude
begin

text \<open>
  The \<open>double\<close> arithmetic of the prototype (difficulty.cpp, emission.cpp, wallet_main.cpp):
  IEEE 754 binary64 with the default rounding, to nearest and ties to even, as SSE2 on x86-64
  computes it. A finite double is the rational number it denotes; \<open>fl\<close> rounds an exact result
  to 53 significant bits, with the exponent bounded below as in the subnormal range. Overflow to
  infinity is not a value of the model: in this code a double that large is only ever cast to
  \<open>uint64_t\<close> or parsed by \<open>stod\<close>, and both report it (\<open>FloatCast\<close>, \<open>OutOfRange\<close>) below the
  overflow threshold. The lemmas give exactness on 53-bit integers, monotonicity and the relative
  error bound.
\<close>

section \<open>Binary exponents\<close>

definition pow2 :: "int \<Rightarrow> rat" where
  "pow2 e = (if 0 \<le> e then 2 ^ nat e else 1 / 2 ^ nat (- e))"

lemma pow2_pos [simp]: "0 < pow2 e" "pow2 e \<noteq> 0" "0 \<le> pow2 e"
  by (simp_all add: pow2_def)

lemma pow2_succ: "pow2 (e + 1) = 2 * pow2 e"
proof (cases "0 \<le> e")
  case True
  then show ?thesis by (simp add: pow2_def nat_add_distrib)
next
  case False
  then have "nat (- e) = Suc (nat (- e - 1))" by linarith
  with False show ?thesis by (auto simp: pow2_def)
qed

lemma pow2_add_nat: "pow2 (e + int n) = pow2 e * 2 ^ n"
proof (induction n)
  case (Suc n)
  have "pow2 (e + int (Suc n)) = pow2 ((e + int n) + 1)" by (simp add: algebra_simps)
  also have "\<dots> = pow2 e * 2 ^ Suc n" by (simp only: pow2_succ Suc.IH) simp
  finally show ?case .
qed simp

lemma pow2_nat [simp]: "pow2 (int n) = 2 ^ n"
  by (simp add: pow2_def)

lemma pow2_less_iff [simp]: "pow2 a < pow2 b \<longleftrightarrow> a < b"
proof -
  have up: "pow2 x < pow2 y" if "x < y" for x y
  proof -
    obtain n where "y = x + int n" "0 < n" using \<open>x < y\<close> by (metis zless_iff_Suc_zadd zero_less_Suc)
    then show ?thesis by (simp add: pow2_add_nat one_less_power)
  qed
  then show ?thesis by (metis linorder_neqE_linordered_idom order_less_asym)
qed

lemma pow2_le_iff [simp]: "pow2 a \<le> pow2 b \<longleftrightarrow> a \<le> b"
  by (simp add: not_less [symmetric])

fun nbits :: "nat \<Rightarrow> nat" where
  "nbits n = (if n = 0 then 0 else Suc (nbits (n div 2)))"

declare nbits.simps [simp del]

lemma nbits_bounds: "0 < n \<Longrightarrow> 2 ^ (nbits n - 1) \<le> n \<and> n < 2 ^ nbits n \<and> 0 < nbits n"
proof (induction n rule: nbits.induct)
  case (1 n)
  show ?case
  proof (cases "n div 2 = 0")
    case True
    with 1 have "n = 1" by linarith
    then show ?thesis by (simp add: nbits.simps)
  next
    case False
    with 1 have ih: "2 ^ (nbits (n div 2) - 1) \<le> n div 2" "n div 2 < 2 ^ nbits (n div 2)"
      "0 < nbits (n div 2)" by auto
    from ih(3) obtain k where k: "nbits (n div 2) = Suc k" using gr0_implies_Suc by blast
    with ih 1 show ?thesis by (subst (1 2 3) nbits.simps) auto
  qed
qed

definition ilog2 :: "rat \<Rightarrow> int" where
  "ilog2 x = (let (p, q) = quotient_of x; k = int (nbits (nat p)) - int (nbits (nat q))
              in if pow2 k \<le> x then k else k - 1)"

lemma ilog2_unique:
  assumes "pow2 k \<le> x" "x < pow2 (k + 1)" "pow2 j \<le> x" "x < pow2 (j + 1)"
  shows "k = j"
proof -
  have "pow2 k < pow2 (j + 1)" "pow2 j < pow2 (k + 1)" using assms by linarith+
  then show ?thesis by simp
qed

lemma pow2_diff: "pow2 (int a - int b) = 2 ^ a / 2 ^ b"
proof -
  have "pow2 (int a - int b) * 2 ^ b = pow2 (int a)"
    by (simp only: pow2_add_nat [symmetric]) simp
  then show ?thesis by (simp add: field_simps)
qed

lemma ilog2_bounds:
  assumes "0 < x"
  shows "pow2 (ilog2 x) \<le> x \<and> x < pow2 (ilog2 x + 1)"
proof -
  obtain p q where pq: "quotient_of x = (p, q)" by (cases "quotient_of x")
  have q: "0 < q" and x: "x = of_int p / of_int q"
    using quotient_of_denom_pos [OF pq] quotient_of_div [OF pq] by auto
  then have p: "0 < p" using assms by (simp add: zero_less_divide_iff)
  define a b where "a = nbits (nat p)" and "b = nbits (nat q)"
  have pb: "2 ^ (a - 1) \<le> nat p \<and> nat p < 2 ^ a \<and> 0 < a"
    unfolding a_def using p by (intro nbits_bounds) simp
  have qb: "2 ^ (b - 1) \<le> nat q \<and> nat q < 2 ^ b \<and> 0 < b"
    unfolding b_def using q by (intro nbits_bounds) simp
  have pr: "2 ^ (a - 1) \<le> (of_int p :: rat)" "(of_int p :: rat) < 2 ^ a"
    using pb p by (metis of_int_of_nat_eq of_nat_le_iff of_nat_numeral of_nat_power int_nat_eq less_imp_le)
                  (metis pb p of_int_of_nat_eq of_nat_less_iff of_nat_numeral of_nat_power int_nat_eq less_imp_le)
  have qr: "2 ^ (b - 1) \<le> (of_int q :: rat)" "(of_int q :: rat) < 2 ^ b"
    using qb q by (metis of_int_of_nat_eq of_nat_le_iff of_nat_numeral of_nat_power int_nat_eq less_imp_le)
                  (metis qb q of_int_of_nat_eq of_nat_less_iff of_nat_numeral of_nat_power int_nat_eq less_imp_le)
  have a2: "(2 :: rat) ^ a = 2 * 2 ^ (a - 1)" and b2: "(2 :: rat) ^ b = 2 * 2 ^ (b - 1)"
    using pb qb by (simp_all add: power_eq_if)
  have up: "x < pow2 (int a - int b + 1)"
  proof -
    have "of_int p * 2 ^ b < 2 ^ a * (2 ^ b :: rat)" using pr by simp
    also have "\<dots> \<le> 2 ^ a * (2 * of_int q)" using qr b2 by simp
    finally have "x < 2 * (2 ^ a / 2 ^ b)" using q by (simp add: x field_simps)
    then show ?thesis by (simp only: pow2_succ pow2_diff)
  qed
  have low: "pow2 (int a - int b - 1) \<le> x"
  proof -
    have "2 ^ a * of_int q \<le> 2 ^ a * (2 ^ b :: rat)" using qr by simp
    also have "\<dots> \<le> 2 * of_int p * 2 ^ b" using pr a2 by simp
    finally have "pow2 (int a - int b) \<le> 2 * x" using q by (simp add: x pow2_diff field_simps)
    then show ?thesis using pow2_succ [of "int a - int b - 1"] by simp
  qed
  show ?thesis
    using up low by (auto simp: ilog2_def pq a_def [symmetric] b_def [symmetric] Let_def not_le)
qed

lemma ilog2_mono:
  assumes "0 < x" "x \<le> y"
  shows "ilog2 x \<le> ilog2 y"
proof -
  have "pow2 (ilog2 x) < pow2 (ilog2 y + 1)"
    using ilog2_bounds [of x] ilog2_bounds [of y] assms by linarith
  then show ?thesis by simp
qed

section \<open>Rounding to nearest, ties to even\<close>

definition round_even :: "rat \<Rightarrow> int" where
  "round_even x = (let f = \<lfloor>x\<rfloor>; r = x - of_int f
                   in if r < 1 / 2 then f else if r > 1 / 2 then f + 1
                      else if even f then f else f + 1)"

lemma round_even_of_int [simp]: "round_even (of_int n) = n"
  by (simp add: round_even_def)

lemma round_even_near: "\<bar>of_int (round_even x) - x\<bar> \<le> 1 / 2"
proof -
  have "of_int \<lfloor>x\<rfloor> \<le> x" "x < of_int \<lfloor>x\<rfloor> + 1" by linarith+
  then show ?thesis unfolding round_even_def Let_def by auto
qed

lemma round_even_mono: "x \<le> y \<Longrightarrow> round_even x \<le> round_even y"
proof (rule ccontr)
  assume xy: "x \<le> y" and "\<not> round_even x \<le> round_even y"
  then have "round_even y + 1 \<le> round_even x" by simp
  then have gap: "(of_int (round_even y) :: rat) + 1 \<le> of_int (round_even x)"
    by (metis of_int_1 of_int_add of_int_le_iff)
  have "of_int (round_even x) \<le> x + 1 / 2" "y - 1 / 2 \<le> of_int (round_even y)"
    using round_even_near [of x] round_even_near [of y] by linarith+
  with xy gap have "x = y" by linarith
  with gap show False by simp
qed

lemma round_even_le_int: "x \<le> of_int n \<Longrightarrow> (of_int (round_even x) :: rat) \<le> of_int n"
  using round_even_mono [of x "of_int n"] by (simp only: round_even_of_int of_int_le_iff)

lemma round_even_ge_int: "of_int n \<le> x \<Longrightarrow> (of_int n :: rat) \<le> of_int (round_even x)"
  using round_even_mono [of "of_int n" x] by (simp only: round_even_of_int of_int_le_iff)

definition fl_exp :: "rat \<Rightarrow> int" where
  "fl_exp x = max (ilog2 x - 52) (- 1074)"

definition fl_pos :: "rat \<Rightarrow> rat" where
  "fl_pos x = of_int (round_even (x / pow2 (fl_exp x))) * pow2 (fl_exp x)"

definition fl :: "rat \<Rightarrow> rat" where
  "fl x = (if x = 0 then 0 else if 0 < x then fl_pos x else - fl_pos (- x))"

lemma fl_0 [simp]: "fl 0 = 0"
  by (simp add: fl_def)

lemma fl_exp_scaled: "0 < x \<Longrightarrow> x / pow2 (fl_exp x) < 2 ^ 53"
proof -
  assume x: "0 < x"
  have "x < pow2 (ilog2 x + 1)" using ilog2_bounds [OF x] by simp
  also have "\<dots> \<le> pow2 (fl_exp x + int 53)" by (simp only: pow2_le_iff) (simp add: fl_exp_def)
  finally have "x < pow2 (fl_exp x) * 2 ^ 53" by (simp only: pow2_add_nat)
  then show ?thesis by (simp add: field_simps)
qed

lemma fl_exp_mono: "0 < x \<Longrightarrow> x \<le> y \<Longrightarrow> fl_exp x \<le> fl_exp y"
  using ilog2_mono [of x y] by (simp add: fl_exp_def)

lemma fl_pos_mono:
  assumes x: "0 < x" and xy: "x \<le> y"
  shows "fl_pos x \<le> fl_pos y"
proof (cases "fl_exp x = fl_exp y")
  case True
  with xy show ?thesis
    by (auto simp: fl_pos_def intro!: round_even_mono divide_right_mono)
next
  case False
  then have lt: "fl_exp x < fl_exp y" using fl_exp_mono [OF x xy] by simp
  have "fl_pos x \<le> 2 ^ 53 * pow2 (fl_exp x)"
    unfolding fl_pos_def using round_even_le_int [of _ "2 ^ 53"] fl_exp_scaled [OF x] by simp
  also have "\<dots> = pow2 (fl_exp x + 1) * 2 ^ 52" by (simp add: pow2_succ)
  also have "\<dots> \<le> pow2 (fl_exp y) * 2 ^ 52" using lt by (simp del: pow2_succ)
  also have "\<dots> \<le> fl_pos y"
  proof -
    have "0 < y" using x xy by simp
    have ey: "fl_exp y + int 52 = ilog2 y" using lt by (auto simp: fl_exp_def)
    have "pow2 (fl_exp y) * 2 ^ 52 \<le> y"
      using ilog2_bounds [OF \<open>0 < y\<close>] by (simp only: pow2_add_nat [symmetric] ey)
    then have "of_int (2 ^ 52) \<le> y / pow2 (fl_exp y)" by (simp add: field_simps)
    then show ?thesis
      using round_even_ge_int [of "2 ^ 52"] by (simp add: fl_pos_def mult.commute)
  qed
  finally show ?thesis .
qed

lemma fl_pos_nonneg: "0 < x \<Longrightarrow> 0 \<le> fl_pos x"
  using round_even_ge_int [of 0 "x / pow2 (fl_exp x)"] by (simp add: fl_pos_def)

lemma fl_nonneg [simp]: "0 \<le> x \<Longrightarrow> 0 \<le> fl x"
  by (simp add: fl_def fl_pos_nonneg)

lemma fl_mono: "0 \<le> x \<Longrightarrow> x \<le> y \<Longrightarrow> fl x \<le> fl y"
  by (auto simp: fl_def fl_pos_nonneg fl_pos_mono)

lemma fl_exact_aux:
  assumes m: "0 < m" "m < 2 ^ 53" and e: "- 1074 \<le> e"
  shows "fl (of_int m * pow2 e) = of_int m * pow2 e"
proof -
  define x where "x = of_int m * pow2 e"
  have x: "0 < x" using m by (simp add: x_def)
  have "(of_int m :: rat) < of_int (2 ^ 53)" using m by (simp only: of_int_less_iff)
  then have "x < pow2 e * 2 ^ 53" by (simp add: x_def)
  then have "x < pow2 (e + int 53)" by (simp only: pow2_add_nat)
  moreover have "pow2 (ilog2 x) \<le> x" using ilog2_bounds [OF x] by simp
  ultimately have "pow2 (ilog2 x) < pow2 (e + int 53)" by linarith
  then have le: "fl_exp x \<le> e" using e by (simp add: fl_exp_def)
  then obtain n where n: "e = fl_exp x + int n" using zle_iff_zadd by blast
  then have "pow2 e = 2 ^ n * pow2 (fl_exp x)" by (metis pow2_add_nat mult.commute)
  then have xe: "x = of_int (m * 2 ^ n) * pow2 (fl_exp x)"
    unfolding x_def by simp
  then have "x / pow2 (fl_exp x) = of_int (m * 2 ^ n)"
    by (metis nonzero_mult_div_cancel_right pow2_pos(2))
  then have "fl_pos x = of_int (m * 2 ^ n) * pow2 (fl_exp x)"
    by (simp only: fl_pos_def round_even_of_int)
  also have "\<dots> = x" using xe by simp
  finally show ?thesis using x by (simp add: fl_def x_def)
qed

lemma fl_exact:
  assumes m: "0 \<le> m" "m \<le> 2 ^ 53" and e: "- 1074 \<le> e"
  shows "fl (of_int m * pow2 e) = of_int m * pow2 e"
proof -
  consider "m = 0" | "0 < m" "m < 2 ^ 53" | "m = 2 ^ 53" using m by linarith
  then show ?thesis
  proof cases
    case 3
    have "of_int m * pow2 e = of_int (2 ^ 52) * pow2 (e + 1)" by (simp add: 3 pow2_succ)
    moreover have "fl (of_int (2 ^ 52) * pow2 (e + 1)) = of_int (2 ^ 52) * pow2 (e + 1)"
      using e by (intro fl_exact_aux) simp_all
    ultimately show ?thesis by simp
  qed (use fl_exact_aux e in auto)
qed

lemma fl_of_nat: "n \<le> 2 ^ 53 \<Longrightarrow> fl (of_nat n) = of_nat n"
  using fl_exact [of "int n" 0] by (simp add: pow2_def)

lemma fl_numeral: "numeral k \<le> (2 ^ 53 :: nat) \<Longrightarrow> fl (numeral k) = numeral k"
  using fl_of_nat [of "numeral k"] by simp

lemma fl_power2: "fl (2 ^ k) = 2 ^ k"
  using fl_exact [of 1 "int k"] by simp

lemma fl_error:
  assumes x: "0 < x" and normal: "- 1022 \<le> ilog2 x"
  shows "\<bar>fl x - x\<bar> \<le> x / 2 ^ 53"
proof -
  let ?p = "pow2 (fl_exp x)"
  have "fl_exp x + int 52 = ilog2 x" using normal by (simp add: fl_exp_def)
  then have "?p * 2 ^ 52 \<le> x"
    using ilog2_bounds [OF x] by (simp only: pow2_add_nat [symmetric])
  then have p: "?p / 2 \<le> x / 2 ^ 53" by simp
  have "fl x - x = (of_int (round_even (x / ?p)) - x / ?p) * ?p"
    using x by (simp add: fl_def fl_pos_def left_diff_distrib)
  then have "\<bar>fl x - x\<bar> = \<bar>of_int (round_even (x / ?p)) - x / ?p\<bar> * ?p"
    by (simp add: abs_mult)
  also have "\<dots> \<le> 1 / 2 * ?p" by (intro mult_right_mono round_even_near) simp
  finally show ?thesis using p by simp
qed

lemma normal_if_ge:
  assumes "pow2 (- 1022) \<le> x"
  shows "- 1022 \<le> ilog2 x"
proof -
  have "0 < x" using assms pow2_pos(1) [of "- 1022"] by linarith
  then have "pow2 (- 1022) < pow2 (ilog2 x + 1)" using ilog2_bounds [of x] assms by linarith
  then show ?thesis by simp
qed

lemma fl_eqI:
  assumes "0 < x" "pow2 k \<le> x" "x < pow2 (k + 1)" "- 1022 \<le> k" "\<bar>x / pow2 (k - 52) - of_int m\<bar> < 1 / 2"
  shows "fl x = of_int m * pow2 (k - 52)"
proof -
  have k: "ilog2 x = k" using ilog2_bounds [OF assms(1)] assms(2,3) by (intro ilog2_unique [of _ x]) auto
  then have e: "fl_exp x = k - 52" using assms(4) by (simp add: fl_exp_def)
  have "\<bar>of_int (round_even (x / pow2 (k - 52))) - of_int m\<bar> < (1 :: rat)"
    using round_even_near [of "x / pow2 (k - 52)"] assms(5) by linarith
  then have "round_even (x / pow2 (k - 52)) = m" by linarith
  with e assms(1) show ?thesis by (simp add: fl_def fl_pos_def)
qed

section \<open>Conversions\<close>

text \<open>\<open>static_cast<double>(x)\<close> of a \<open>uint64_t\<close>, and the truncating cast back, undefined out of range.\<close>

definition double_of_u64 :: "u64 \<Rightarrow> rat" where
  "double_of_u64 x = fl (of_nat (unat x))"

definition u64_of_double :: "rat \<Rightarrow> u64 result" where
  "u64_of_double x = (if - 1 < x \<and> x < 18446744073709551616 then Inr (of_nat (nat \<lfloor>x\<rfloor>)) else Inl FloatCast)"

lemma u64_of_double_Inr:
  assumes "0 \<le> x" "u64_of_double x = Inr w"
  shows "unat w = nat \<lfloor>x\<rfloor>"
proof -
  have "x < 18446744073709551616" "w = of_nat (nat \<lfloor>x\<rfloor>)"
    using assms by (auto simp: u64_of_double_def split: if_splits)
  moreover from this have "\<lfloor>x\<rfloor> < 18446744073709551616" by (simp add: floor_less_iff)
  then have "nat \<lfloor>x\<rfloor> < 2 ^ LENGTH(64)" by (cases "0 \<le> \<lfloor>x\<rfloor>") (simp_all add: nat_less_iff)
  ultimately show ?thesis by (metis unat_of_nat_small)
qed

lemma u64_of_double_of_nat: "n < 2 ^ 64 \<Longrightarrow> u64_of_double (of_nat n) = Inr (of_nat n)"
proof -
  assume "n < 2 ^ 64"
  then have "(of_nat n :: rat) < of_nat (2 ^ 64)" by (simp only: of_nat_less_iff)
  then show ?thesis by (simp add: u64_of_double_def)
qed

lemma u64_of_double_mono:
  assumes "0 \<le> x" "x \<le> y" "u64_of_double x = Inr a" "u64_of_double y = Inr b"
  shows "a \<le> b"
proof -
  have "nat \<lfloor>x\<rfloor> \<le> nat \<lfloor>y\<rfloor>" using assms by (intro nat_mono floor_mono)
  moreover have "unat a = nat \<lfloor>x\<rfloor>" "unat b = nat \<lfloor>y\<rfloor>"
    using assms by (auto intro!: u64_of_double_Inr)
  ultimately show ?thesis by (simp add: word_le_nat_alt)
qed

end
