(* ===== verification/Lwma.thy ===== *)
theory Lwma
  imports Config Bytes Doubles
begin

text \<open>
  src/crypto/difficulty.cpp: the LWMA difficulty rule with its 100-block anchor and step clamp,
  and the proof-of-work test. Vectors are lists, sizes are naturals, \<open>uint64_t\<close> arithmetic wraps,
  the signed difference of two timestamps and the casts from \<open>double\<close> are checked, and reading a
  vector past its end is \<open>OutOfBounds\<close>.
\<close>

section \<open>The rule\<close>

text \<open>Lines 29-33: the solve time of one block, at least 1 and at most six targets.\<close>

definition solve_time :: "u64 \<Rightarrow> u64 \<Rightarrow> u64 \<Rightarrow> int result" where
  "solve_time target cur prev =
     (let d = sint cur - sint prev in
      if d < - (2 ^ 63) \<or> 2 ^ 63 \<le> d then Inl SignedOverflow
      else let st = (if d < 1 then 1 else d)
           in Inr (if sint (6 * target) < st then sint (6 * target) else st))"

text \<open>Lines 24-37: the loop over \<open>i = 1..n\<close>, \<open>base\<close> being \<open>count - n\<close>.\<close>

fun lwma_loop :: "u64 list \<Rightarrow> u64 \<Rightarrow> nat \<Rightarrow> nat list \<Rightarrow> u64 \<Rightarrow> u64 \<Rightarrow> u64 result" where
  "lwma_loop ts target base [] prev acc = Inr acc"
| "lwma_loop ts target base (i # is) prev acc =
     bindr (nth_r ts (base + i - 1)) (\<lambda>cur.
     bindr (solve_time target cur prev) (\<lambda>st.
     lwma_loop ts target base is cur (acc + word_of_int st * of_nat i)))"

text \<open>
  Lines 39-45: the first estimate. A zero target makes the quotient infinite or not a number, and
  its cast to \<open>uint64_t\<close> is undefined.
\<close>

definition raw_difficulty :: "u64 \<Rightarrow> nat \<Rightarrow> u64 \<Rightarrow> u64 \<Rightarrow> u64 result" where
  "raw_difficulty work n target lwma_sum =
     (if target = 0 then Inl FloatCast
      else let denominator = fl (fl (of_nat (n * (n + 1) div 2)) * double_of_u64 target);
               avg_target = fl (double_of_u64 work / denominator)
           in u64_of_double (fl (avg_target * double_of_u64 lwma_sum)))"

text \<open>Lines 47-61: the correction by the time the last 100 blocks took, clamped to [0.5, 2].\<close>

definition epoch_correction :: "u64 \<Rightarrow> u64 \<Rightarrow> rat" where
  "epoch_correction target actual =
     max (1 / 2) (min 2 (fl (double_of_u64 (100 * target) / double_of_u64 actual)))"

definition epoch_anchor :: "u64 list \<Rightarrow> u64 \<Rightarrow> u64 \<Rightarrow> u64 result" where
  "epoch_anchor ts target raw =
     (if 101 \<le> length ts then
        let actual = last ts - ts ! (length ts - 101) in
        if 0 < actual then u64_of_double (fl (double_of_u64 raw * epoch_correction target actual))
        else Inr raw
      else Inr raw)"

text \<open>Lines 63-70: the step clamp, whose products wrap.\<close>

definition step_clamp :: "u64 \<Rightarrow> u64 \<Rightarrow> u64" where
  "step_clamp prev_diff raw =
     (if 10 < prev_diff then
        let max_diff = prev_diff * 115 div 100;
            min_diff = prev_diff * 85 div 100;
            raw1 = (if max_diff < raw then max_diff else raw);
            raw2 = (if raw1 < min_diff then min_diff else raw1)
        in raw2
      else raw)"

definition next_difficulty_lwma3 :: "u64 list \<Rightarrow> u64 list \<Rightarrow> u64 \<Rightarrow> nat \<Rightarrow> u64 result" where
  "next_difficulty_lwma3 ts cds target window_size =
     (let count = length ts in
      if count < 2 \<or> length cds < 2 then Inr 1
      else let n = min (count - 1) 100 in
        bindr (nth_r ts (count - n - 1)) (\<lambda>prev.
        bindr (lwma_loop ts target (count - n) [1..<Suc n] prev 0) (\<lambda>lwma_sum.
        bindr (nth_r cds (count - n - 1)) (\<lambda>first.
        bindr (raw_difficulty (last cds - first) n target lwma_sum) (\<lambda>raw.
        bindr (epoch_anchor ts target raw) (\<lambda>raw'.
        bindr (nth_r cds (count - 2)) (\<lambda>before.
        Inr (max (step_clamp (last cds - before) raw') 1))))))))"

text \<open>Lines 75-84: the first eight bytes, little endian, against \<open>UINT64_MAX / difficulty\<close>.\<close>

definition pow_value :: "bytes \<Rightarrow> u64" where
  "pow_value h = foldl (\<lambda>v i. v OR push_bit (i * 8) (ucast (h ! i))) 0 [0..<8]"

definition check_pow_hash :: "bytes \<Rightarrow> u64 \<Rightarrow> bool" where
  "check_pow_hash h target_difficulty =
     (if target_difficulty = 0 then False
      else pow_value h \<le> (- 1) div target_difficulty)"

section \<open>Solve times and their weighted sum\<close>

text \<open>
  A regular history is what a running node passes in: one cumulative difficulty per timestamp, at
  least two blocks, timestamps below \<open>2 ^ 63\<close> and a positive target below \<open>2 ^ 32\<close>.
\<close>

definition regular :: "u64 list \<Rightarrow> u64 list \<Rightarrow> u64 \<Rightarrow> bool" where
  "regular ts cds target \<longleftrightarrow>
     length ts = length cds \<and> 2 \<le> length ts \<and> (\<forall>t \<in> set ts. unat t < 2 ^ 63)
     \<and> 0 < unat target \<and> unat target < 2 ^ 32"

definition solve_nat :: "u64 \<Rightarrow> u64 \<Rightarrow> u64 \<Rightarrow> nat" where
  "solve_nat target cur prev = min (6 * unat target) (max 1 (unat cur - unat prev))"

definition weighted :: "u64 list \<Rightarrow> u64 \<Rightarrow> nat \<Rightarrow> nat \<Rightarrow> nat \<Rightarrow> nat" where
  "weighted ts target base j n =
     (\<Sum>i \<in> {j..n}. i * solve_nat target (ts ! (base + i - 1)) (ts ! (base + i - 2)))"

lemma sint_small: "unat (w :: u64) < 2 ^ 63 \<Longrightarrow> sint w = int (unat w)"
proof -
  assume "unat w < 2 ^ 63"
  then have "int (unat w) < int (2 ^ 63)" by (simp only: of_nat_less_iff)
  then have "uint w < 2 ^ 63" by (simp add: of_nat_unat)
  moreover have "- (2 ^ 63) \<le> uint w" by (rule order_trans [of _ 0]) simp_all
  ultimately show ?thesis by (simp add: sint_uint signed_take_bit_int_eq_self of_nat_unat)
qed

lemma solve_arith:
  "c < 2 ^ 63 \<Longrightarrow> p < 2 ^ 63 \<Longrightarrow> 0 < t \<Longrightarrow>
   (let d = int c - int p in
    if d < - (2 ^ 63) \<or> 2 ^ 63 \<le> d then Inl SignedOverflow
    else let st = (if d < 1 then 1 else d)
         in Inr (if int (6 * t) < st then int (6 * t) else st))
   = Inr (int (min (6 * t) (max 1 (c - p))))"
  by (auto simp: Let_def min_def max_def)

lemma solve_time_regular:
  assumes "unat cur < 2 ^ 63" "unat prev < 2 ^ 63" "0 < unat target" "unat target < 2 ^ 40"
  shows "solve_time target cur prev = Inr (int (solve_nat target cur prev))"
proof -
  have u: "unat (6 * target) = 6 * unat target"
    using assms(4) by (simp add: unat_mult_no_wrap)
  then have t: "sint (6 * target) = int (6 * unat target)"
    using assms(4) sint_small [of "6 * target"] by simp
  show ?thesis
    by (simp only: solve_time_def solve_nat_def t sint_small [OF assms(1)] sint_small [OF assms(2)]
        solve_arith [OF assms(1-3)])
qed

lemma lwma_loop_sum:
  assumes reg: "\<forall>t \<in> set ts. unat t < 2 ^ 63" "0 < unat target" "unat target < 2 ^ 40"
    and base: "1 \<le> base" "base + n \<le> length ts" and j: "1 \<le> j" "j \<le> Suc n"
  shows "lwma_loop ts target base [j..<Suc n] (ts ! (base + j - 2)) acc
         = Inr (acc + of_nat (weighted ts target base j n))"
  using j
proof (induction "Suc n - j" arbitrary: j acc)
  case 0
  then have "j = Suc n" by simp
  then show ?case by (simp add: weighted_def)
next
  case (Suc k)
  then have jn: "j \<le> n" by simp
  let ?s = "solve_nat target (ts ! (base + j - 1)) (ts ! (base + j - 2))"
  have idx: "base + j - 1 < length ts" "base + j - 2 < length ts" using base jn Suc.prems by linarith+
  then have "solve_time target (ts ! (base + j - 1)) (ts ! (base + j - 2)) = Inr (int ?s)"
    using reg by (intro solve_time_regular) auto
  moreover have "[j..<Suc n] = j # [Suc j..<Suc n]" using jn by (simp add: upt_conv_Cons)
  moreover have "base + Suc j - 2 = base + j - 1" by simp
  ultimately have "lwma_loop ts target base [j..<Suc n] (ts ! (base + j - 2)) acc
      = lwma_loop ts target base [Suc j..<Suc n] (ts ! (base + Suc j - 2)) (acc + of_nat (j * ?s))"
    using idx by (simp add: mult.commute)
  also have "\<dots> = Inr (acc + of_nat (j * ?s) + of_nat (weighted ts target base (Suc j) n))"
    using Suc jn by (intro Suc.hyps) simp_all
  also have "acc + of_nat (j * ?s) + of_nat (weighted ts target base (Suc j) n)
      = acc + of_nat (weighted ts target base j n)"
  proof -
    have "weighted ts target base j n = j * ?s + weighted ts target base (Suc j) n"
      using jn by (simp add: weighted_def sum.atLeast_Suc_atMost)
    then show ?thesis by (simp only: of_nat_add add.assoc)
  qed
  finally show ?case .
qed

lemma weighted_le: "weighted ts target base 1 n \<le> 6 * unat target * (n * (n + 1) div 2)"
proof -
  have "weighted ts target base 1 n \<le> (\<Sum>i \<in> {1..n}. i * (6 * unat target))"
    unfolding weighted_def by (intro sum_mono mult_left_mono) (simp_all add: solve_nat_def)
  also have "\<dots> = (\<Sum>i \<in> {1..n}. i) * (6 * unat target)" by (simp add: sum_distrib_right)
  also have "(\<Sum>i \<in> {1..n}. i) = n * (n + 1) div 2"
    using gauss_sum_from_Suc_0 [of n, where 'a = nat] by simp
  finally show ?thesis by (simp add: mult.commute)
qed

lemma triangle_le: "n \<le> 100 \<Longrightarrow> n * (n + 1) div 2 \<le> (5050 :: nat)"
proof -
  assume "n \<le> 100"
  then have "n * (n + 1) \<le> 100 * 101" by (intro mult_mono) auto
  then show ?thesis by linarith
qed

lemma weighted_bound:
  assumes "n \<le> 100" "unat target < 2 ^ 32"
  shows "weighted ts target base 1 n < 2 ^ 47"
proof -
  have "n * (n + 1) div 2 \<le> 5050" using assms(1) by (rule triangle_le)
  then have "6 * unat target * (n * (n + 1) div 2) \<le> 6 * 2 ^ 32 * 5050"
    using assms(2) by (intro mult_mono) auto
  then show ?thesis using weighted_le [of ts target base n] by simp
qed

definition window :: "u64 list \<Rightarrow> nat" where
  "window ts = min (length ts - 1) 100"

definition lwma_weight :: "u64 list \<Rightarrow> u64 \<Rightarrow> nat" where
  "lwma_weight ts target = weighted ts target (length ts - window ts) 1 (window ts)"

definition window_work :: "u64 list \<Rightarrow> u64" where
  "window_work cds = last cds - cds ! (length cds - window cds - 1)"

definition last_work :: "u64 list \<Rightarrow> u64" where
  "last_work cds = last cds - cds ! (length cds - 2)"

text \<open>On a regular history no read leaves a vector and no signed difference overflows.\<close>

lemma next_difficulty_regular:
  assumes "regular ts cds target"
  shows "next_difficulty_lwma3 ts cds target w =
     bindr (raw_difficulty (window_work cds) (window ts) target (of_nat (lwma_weight ts target))) (\<lambda>raw.
     bindr (epoch_anchor ts target raw) (\<lambda>raw'. Inr (max (step_clamp (last_work cds) raw') 1)))"
proof -
  let ?n = "window ts" and ?base = "length ts - window ts"
  have len: "length ts = length cds" "2 \<le> length ts" and n: "?n < length ts" "1 \<le> ?base"
    using assms by (auto simp: regular_def window_def)
  have "lwma_loop ts target ?base [1..<Suc ?n] (ts ! (?base + 1 - 2)) 0
      = Inr (0 + of_nat (weighted ts target ?base 1 ?n))"
    using assms n by (intro lwma_loop_sum) (auto simp: regular_def)
  moreover have "?base + 1 - 2 = ?base - 1" by simp
  ultimately have loop: "lwma_loop ts target ?base [1..<Suc ?n] (ts ! (?base - 1)) 0
      = Inr (of_nat (lwma_weight ts target))"
    by (simp only: lwma_weight_def add_0)
  have r: "nth_r ts (?base - 1) = Inr (ts ! (?base - 1))"
    "nth_r cds (?base - 1) = Inr (cds ! (?base - 1))" "nth_r cds (length ts - 2) = Inr (cds ! (length ts - 2))"
    using n len by (simp_all add: nth_r_def)
  have guard: "\<not> (length ts < 2 \<or> length ts < 2)" using len by simp
  have w: "window cds = ?n" using len by (simp add: window_def)
  show ?thesis
    unfolding next_difficulty_lwma3_def Let_def window_def [symmetric]
    by (simp only: guard if_False r loop bindr_simps window_work_def last_work_def w len(1) [symmetric])
qed

section \<open>The estimate and its rounding\<close>

lemma fl_bounds:
  assumes "1 / 2 ^ 100 \<le> x"
  shows "fl x \<le> 17 / 16 * x" "15 / 16 * x \<le> fl x"
proof -
  have "pow2 (- 100) = 1 / 2 ^ 100" by (simp only: pow2_def) simp
  moreover have "pow2 (- 1022) \<le> pow2 (- 100)" by (simp only: pow2_le_iff)
  ultimately have "pow2 (- 1022) \<le> x" using assms by linarith
  moreover have "0 < x" using assms by (rule less_le_trans [rotated]) simp
  ultimately have "\<bar>fl x - x\<bar> \<le> x / 2 ^ 53" by (intro fl_error normal_if_ge)
  moreover have "x / 2 ^ 53 \<le> x / 16" using \<open>0 < x\<close> by (intro divide_left_mono) auto
  ultimately show "fl x \<le> 17 / 16 * x" "15 / 16 * x \<le> fl x" by linarith+
qed

definition estimate :: "rat \<Rightarrow> nat \<Rightarrow> nat \<Rightarrow> rat" where
  "estimate work D S = fl (fl (fl work / of_nat D) * of_nat S)"

lemma raw_difficulty_estimate:
  assumes "n \<le> 100" "0 < unat target" "unat target < 2 ^ 32" "S < 2 ^ 47"
  shows "raw_difficulty work n target (of_nat S)
         = u64_of_double (estimate (of_nat (unat work)) (n * (n + 1) div 2 * unat target) S)"
proof -
  have t: "n * (n + 1) div 2 \<le> 5050" using assms(1) by (rule triangle_le)
  then have "n * (n + 1) div 2 * unat target \<le> 5050 * 2 ^ 32"
    using assms(3) by (intro mult_mono) auto
  then have D: "n * (n + 1) div 2 * unat target \<le> 2 ^ 53" by simp
  have e: "fl (of_nat (n * (n + 1) div 2)) = of_nat (n * (n + 1) div 2)"
    by (rule fl_of_nat, rule order_trans [OF t]) simp
  have T: "double_of_u64 target = of_nat (unat target)"
    unfolding double_of_u64_def using assms(3) by (intro fl_of_nat) simp
  have Sd: "double_of_u64 (of_nat S) = of_nat S"
    unfolding double_of_u64_def using assms(4) by (simp add: unat_of_nat_small fl_of_nat)
  have den: "fl (fl (of_nat (n * (n + 1) div 2)) * double_of_u64 target)
      = of_nat (n * (n + 1) div 2 * unat target)"
    unfolding e T using fl_of_nat [OF D] by (simp only: of_nat_mult)
  have "target \<noteq> 0" using assms(2) by auto
  then show ?thesis
    by (simp only: raw_difficulty_def if_False Let_def den Sd estimate_def double_of_u64_def [of work])
qed

lemma estimate_mono:
  assumes "0 \<le> work" "S \<le> S'"
  shows "estimate work D S \<le> estimate work D S'"
  unfolding estimate_def using assms
  by (intro fl_mono mult_left_mono mult_nonneg_nonneg fl_nonneg divide_nonneg_nonneg) auto

text \<open>A positive amount of work, divided by the weighted window, stays far inside the normal range.\<close>

lemma estimate_le:
  assumes "0 < D" "D \<le> 2 ^ 53" "S \<le> 6 * D" "1 \<le> work" "work \<le> 2 ^ 64"
  shows "estimate work D S \<le> 8 * work"
proof (cases "S = 0")
  case True
  then show ?thesis using assms by (simp add: estimate_def)
next
  case False
  define d s where "d = (of_nat D :: rat)" and "s = (of_nat S :: rat)"
  have "(of_nat 1 :: rat) \<le> of_nat D" "(of_nat D :: rat) \<le> of_nat (2 ^ 53)"
    "(of_nat 1 :: rat) \<le> of_nat S" "(of_nat S :: rat) \<le> of_nat (6 * D)"
    using assms(1-3) False by (simp_all only: of_nat_le_iff)
  then have D: "1 \<le> d" "d \<le> 2 ^ 53" and S: "1 \<le> s" "s \<le> 6 * d"
    by (simp_all add: d_def s_def)
  have W: "1 \<le> fl work" "fl work \<le> 17 / 16 * work"
    using fl_mono [of 1 work] fl_of_nat [of 1] fl_bounds(1) [of work] assms(4) by auto
  define q where "q = fl work / d"
  have q0: "1 / 2 ^ 53 \<le> q" unfolding q_def using W D by (intro frac_le) auto
  have "1 / 2 ^ 100 \<le> q" by (rule order_trans [OF _ q0]) simp
  then have q: "fl q \<le> 17 / 16 * q" "15 / 16 * q \<le> fl q" by (rule fl_bounds)+
  have "1 / 2 ^ 100 \<le> 15 / 16 * (1 / 2 ^ 53) * (1 :: rat)" by simp
  also have "\<dots> \<le> fl q * s" using q q0 S by (intro mult_mono) auto
  finally have "fl (fl q * s) \<le> 17 / 16 * (fl q * s)" by (rule fl_bounds)
  also have "\<dots> \<le> 17 / 16 * (17 / 16 * q * (6 * d))"
    using q q0 S D by (intro mult_left_mono mult_mono) auto
  also have "\<dots> = 17 / 16 * (17 / 16) * 6 * fl work" using D by (simp add: q_def)
  also have "\<dots> \<le> 8 * work" using W assms(4) by simp
  finally show ?thesis by (simp add: estimate_def q_def d_def s_def)
qed

lemma estimate_ge:
  assumes "0 < D" "D \<le> 2 ^ 53" "0 < S" "1 \<le> work"
  shows "3 / 4 * (work / of_nat D * of_nat S) \<le> estimate work D S"
proof -
  define d s where "d = (of_nat D :: rat)" and "s = (of_nat S :: rat)"
  have "(of_nat 1 :: rat) \<le> of_nat D" "(of_nat D :: rat) \<le> of_nat (2 ^ 53)"
    "(of_nat 1 :: rat) \<le> of_nat S"
    using assms(1-3) by (simp_all only: of_nat_le_iff)
  then have D: "1 \<le> d" "d \<le> 2 ^ 53" and S: "1 \<le> s" by (simp_all add: d_def s_def)
  have W: "1 \<le> fl work" "15 / 16 * work \<le> fl work"
    using fl_mono [of 1 work] fl_of_nat [of 1] fl_bounds(2) [of work] assms(4) by auto
  define q where "q = fl work / d"
  have q0: "1 / 2 ^ 53 \<le> q" unfolding q_def using W D by (intro frac_le) auto
  have "1 / 2 ^ 100 \<le> q" by (rule order_trans [OF _ q0]) simp
  then have q: "15 / 16 * q \<le> fl q" by (rule fl_bounds)
  have "1 / 2 ^ 100 \<le> 15 / 16 * (1 / 2 ^ 53) * (1 :: rat)" by simp
  also have "\<dots> \<le> fl q * s" using q q0 S by (intro mult_mono) auto
  finally have "15 / 16 * (fl q * s) \<le> fl (fl q * s)" by (rule fl_bounds)
  moreover have "15 / 16 * (15 / 16 * q * s) \<le> 15 / 16 * (fl q * s)"
    using q S by (intro mult_left_mono mult_right_mono) auto
  moreover have "15 / 16 * (work / d) \<le> q"
    using W D by (simp add: q_def divide_right_mono field_simps)
  then have "15 / 16 * (15 / 16 * (15 / 16 * (work / d)) * s) \<le> 15 / 16 * (15 / 16 * q * s)"
    using S by (intro mult_left_mono mult_right_mono) auto
  moreover have "15 / 16 * (15 / 16 * (15 / 16 * (work / d)) * s) = 3375 / 4096 * (work / d * s)"
    by simp
  moreover have "0 \<le> work / d * s" using assms(4) D S by simp
  ultimately show ?thesis unfolding estimate_def q_def d_def s_def by linarith
qed

section \<open>The step clamp and the anchor\<close>

lemma step_clamp_mono: "a \<le> b \<Longrightarrow> step_clamp p a \<le> step_clamp p b"
  by (auto simp: step_clamp_def Let_def)

lemma unat_scaled: "unat p * k < 2 ^ 64 \<Longrightarrow> k < 2 ^ 64 \<Longrightarrow> unat (p * of_nat k :: u64) = unat p * k"
  by (simp add: unat_word_ariths unsigned_of_nat take_bit_eq_mod)

lemma step_clamp_band:
  assumes "10 < p" "unat p * 115 < 2 ^ 64"
  shows "unat p * 85 div 100 \<le> unat (step_clamp p a)" "unat (step_clamp p a) \<le> unat p * 115 div 100"
proof -
  have m: "unat (p * 115 div 100) = unat p * 115 div 100" "unat (p * 85 div 100) = unat p * 85 div 100"
    using assms(2) unat_scaled [of p 115] unat_scaled [of p 85] by (simp_all add: unat_div)
  have "unat p * 85 div 100 \<le> unat p * 115 div 100" by (intro div_le_mono) simp
  with assms(1) m show "unat p * 85 div 100 \<le> unat (step_clamp p a)"
    "unat (step_clamp p a) \<le> unat p * 115 div 100"
    by (auto simp: step_clamp_def Let_def word_le_nat_alt word_less_nat_alt)
qed

lemma step_clamp_high:
  assumes "10 < p" "unat p * 115 < 2 ^ 64" "unat p * 115 div 100 \<le> unat a"
  shows "unat (step_clamp p a) = unat p * 115 div 100"
proof -
  have m: "unat (p * 115 div 100) = unat p * 115 div 100" "unat (p * 85 div 100) = unat p * 85 div 100"
    using assms(2) unat_scaled [of p 115] unat_scaled [of p 85] by (simp_all add: unat_div)
  have "unat p * 85 div 100 \<le> unat p * 115 div 100" by (intro div_le_mono) simp
  with assms m show ?thesis
    by (auto simp: step_clamp_def Let_def word_le_nat_alt word_less_nat_alt)
qed

lemma epoch_correction_range: "1 / 2 \<le> epoch_correction target actual" "epoch_correction target actual \<le> 2"
  by (simp_all add: epoch_correction_def)

lemma double_of_u64_bounds: "0 \<le> double_of_u64 w" "unat w \<le> 2 ^ k \<Longrightarrow> double_of_u64 w \<le> 2 ^ k"
proof -
  show "0 \<le> double_of_u64 w" by (simp add: double_of_u64_def)
  assume "unat w \<le> 2 ^ k"
  then have "(of_nat (unat w) :: rat) \<le> of_nat (2 ^ k)" by (simp only: of_nat_le_iff)
  then have "double_of_u64 w \<le> fl (of_nat (2 ^ k))" unfolding double_of_u64_def by (intro fl_mono) simp_all
  also have "\<dots> = 2 ^ k" by (simp add: fl_power2)
  finally show "double_of_u64 w \<le> 2 ^ k" .
qed

lemma epoch_anchor_defined:
  assumes "unat raw \<le> 2 ^ 62"
  shows "\<exists>r. epoch_anchor ts target raw = Inr r"
proof -
  have "fl (double_of_u64 raw * epoch_correction target actual) < 18446744073709551616" for actual
  proof -
    have "double_of_u64 raw * epoch_correction target actual \<le> 2 ^ 62 * 2"
      using double_of_u64_bounds(1) [of raw] double_of_u64_bounds(2) [OF assms]
        epoch_correction_range [of target actual] by (intro mult_mono) auto
    moreover have "0 \<le> double_of_u64 raw * epoch_correction target actual"
      using double_of_u64_bounds(1) [of raw] epoch_correction_range(1) [of target actual] by simp
    ultimately have "fl (double_of_u64 raw * epoch_correction target actual) \<le> fl (2 ^ 63)"
      by (intro fl_mono) auto
    also have "\<dots> = 2 ^ 63" using fl_power2 [of 63] by simp
    finally show ?thesis by simp
  qed
  moreover have "- 1 < fl (double_of_u64 raw * epoch_correction target actual)" for actual
  proof -
    have "0 \<le> fl (double_of_u64 raw * epoch_correction target actual)"
      using double_of_u64_bounds(1) [of raw] epoch_correction_range(1) [of target actual]
      by (intro fl_nonneg mult_nonneg_nonneg) auto
    then show ?thesis by linarith
  qed
  ultimately show ?thesis by (simp add: epoch_anchor_def u64_of_double_def Let_def)
qed

lemma epoch_anchor_mono:
  assumes "a \<le> b" "epoch_anchor ts target a = Inr a'" "epoch_anchor ts target b = Inr b'"
  shows "a' \<le> b'"
proof -
  have m: "double_of_u64 a \<le> double_of_u64 b"
    using assms(1) unfolding double_of_u64_def by (intro fl_mono) (simp_all add: word_le_nat_alt)
  have step: "a' \<le> b'" if "u64_of_double (fl (double_of_u64 a * epoch_correction target c)) = Inr a'"
    "u64_of_double (fl (double_of_u64 b * epoch_correction target c)) = Inr b'" for c
  proof (rule u64_of_double_mono [OF _ _ that])
    have "0 \<le> epoch_correction target c" using epoch_correction_range(1) [of target c] by linarith
    with m double_of_u64_bounds(1) [of a]
    show "0 \<le> fl (double_of_u64 a * epoch_correction target c)"
      "fl (double_of_u64 a * epoch_correction target c) \<le> fl (double_of_u64 b * epoch_correction target c)"
      by (auto intro!: fl_mono fl_nonneg mult_right_mono)
  qed
  show ?thesis
  proof (cases "101 \<le> length ts \<and> 0 < last ts - ts ! (length ts - 101)")
    case True
    with assms(2,3) step show ?thesis by (simp add: epoch_anchor_def Let_def)
  next
    case False
    then have "epoch_anchor ts target r = Inr r" for r
      by (auto simp only: epoch_anchor_def Let_def if_False if_True split: if_split)
    with assms show ?thesis by simp
  qed
qed

section \<open>Properties of the rule\<close>

lemma regular_window:
  assumes "regular ts cds target"
  shows "1 \<le> window ts" "window ts \<le> 100" "window cds = window ts" "window ts < length ts"
  using assms by (auto simp: regular_def window_def)

lemma lwma_weight_small: "regular ts cds target \<Longrightarrow> lwma_weight ts target < 2 ^ 47"
  unfolding lwma_weight_def by (rule weighted_bound) (auto simp: regular_def window_def)

definition weight_norm :: "u64 list \<Rightarrow> u64 \<Rightarrow> nat" where
  "weight_norm ts target = window ts * (window ts + 1) div 2 * unat target"

lemma weight_norm_bounds:
  assumes "regular ts cds target"
  shows "0 < weight_norm ts target" "weight_norm ts target \<le> 2 ^ 53"
    "lwma_weight ts target \<le> 6 * weight_norm ts target"
proof -
  note w = regular_window [OF assms]
  have "1 * 2 \<le> window ts * (window ts + 1)" using w(1) by (intro mult_mono) auto
  then have "1 \<le> window ts * (window ts + 1) div 2" by linarith
  with assms show "0 < weight_norm ts target" by (auto simp: weight_norm_def regular_def)
  have "weight_norm ts target \<le> 5050 * 2 ^ 32"
    unfolding weight_norm_def using triangle_le [OF w(2)] assms
    by (intro mult_mono) (auto simp: regular_def)
  then show "weight_norm ts target \<le> 2 ^ 53" by simp
  show "lwma_weight ts target \<le> 6 * weight_norm ts target"
    unfolding lwma_weight_def weight_norm_def
    using weighted_le [of ts target _ "window ts"] by (simp add: ac_simps)
qed

lemma raw_difficulty_regular:
  assumes "regular ts cds target"
  shows "raw_difficulty work (window ts) target (of_nat (lwma_weight ts target))
         = u64_of_double (estimate (of_nat (unat work)) (weight_norm ts target) (lwma_weight ts target))"
  unfolding weight_norm_def using assms regular_window [OF assms] lwma_weight_small [OF assms]
  by (intro raw_difficulty_estimate) (auto simp: regular_def)

lemma estimate_nonneg: "0 \<le> work \<Longrightarrow> 0 \<le> estimate work D S"
  unfolding estimate_def by (intro fl_nonneg mult_nonneg_nonneg divide_nonneg_nonneg) auto

lemma estimate_0_work: "estimate 0 D S = 0"
  by (simp add: estimate_def)

lemma raw_difficulty_defined:
  assumes reg: "regular ts cds target" and work: "unat work < 2 ^ 59"
  shows "\<exists>raw. raw_difficulty work (window ts) target (of_nat (lwma_weight ts target)) = Inr raw
               \<and> unat raw \<le> 2 ^ 62"
proof -
  let ?e = "estimate (of_nat (unat work)) (weight_norm ts target) (lwma_weight ts target)"
  have nonneg: "0 \<le> ?e" by (intro estimate_nonneg) simp
  have le: "?e \<le> 2 ^ 62"
  proof (cases "unat work = 0")
    case True
    then show ?thesis by (simp add: estimate_0_work)
  next
    case False
    have w: "(of_nat 1 :: rat) \<le> of_nat (unat work)" "(of_nat (unat work) :: rat) \<le> of_nat (2 ^ 59)"
      using False work by (simp_all only: of_nat_le_iff)
    then have "?e \<le> 8 * of_nat (unat work)"
      using weight_norm_bounds [OF reg] by (intro estimate_le) auto
    also have "\<dots> \<le> 8 * 2 ^ 59" using w by simp
    finally show ?thesis by simp
  qed
  then have "u64_of_double ?e = Inr (of_nat (nat \<lfloor>?e\<rfloor>))"
    using nonneg by (simp add: u64_of_double_def)
  moreover from this have "unat (of_nat (nat \<lfloor>?e\<rfloor>) :: u64) = nat \<lfloor>?e\<rfloor>"
    by (rule u64_of_double_Inr [OF nonneg])
  moreover have "nat \<lfloor>?e\<rfloor> \<le> 2 ^ 62" using le by (simp add: nat_le_iff floor_le_iff)
  ultimately show ?thesis using raw_difficulty_regular [OF reg] by auto
qed

lemma lwma_defined_aux:
  assumes "regular ts cds target" "unat (window_work cds) < 2 ^ 59"
  shows "\<exists>d. next_difficulty_lwma3 ts cds target w = Inr d \<and> 1 \<le> d"
proof -
  obtain raw where raw: "raw_difficulty (window_work cds) (window ts) target (of_nat (lwma_weight ts target)) = Inr raw"
    "unat raw \<le> 2 ^ 62"
    using raw_difficulty_defined [OF assms] by blast
  obtain r where "epoch_anchor ts target raw = Inr r"
    using epoch_anchor_defined [OF raw(2)] by blast
  with raw(1) show ?thesis by (simp add: next_difficulty_regular [OF assms(1)])
qed

text \<open>C34: On a regular history (equally long vectors of at least two blocks, timestamps below 2^63, a
  positive 32-bit target) whose window carries less than 2^59 work, the LWMA rule returns: no read
  leaves a vector, no signed difference overflows and no double is cast out of range.\<close>

theorem lwma_defined:
  assumes "regular ts cds target" "unat (window_work cds) < 2 ^ 59"
  shows "\<exists>d. next_difficulty_lwma3 ts cds target w = Inr d \<and> 1 \<le> d"
  using assms by (rule lwma_defined_aux)

lemma lwma_result:
  assumes "regular ts cds target" "next_difficulty_lwma3 ts cds target w = Inr d"
  obtains raw r where
    "raw_difficulty (window_work cds) (window ts) target (of_nat (lwma_weight ts target)) = Inr raw"
    "epoch_anchor ts target raw = Inr r" "d = max (step_clamp (last_work cds) r) 1"
  using assms by (auto simp: next_difficulty_regular bindr_Inr_iff)

lemma max_one_id: "0 < unat (x :: u64) \<Longrightarrow> max x 1 = x"
  by (simp add: max_def word_le_nat_alt word_unat_eq_iff)

text \<open>C35: On a regular history (two blocks or more, a difficulty for each timestamp, timestamps below 2^63 and a target
  of 1 to 2^32 - 1 seconds, as a node passes in): once the previous block's difficulty exceeds 10 (and 115 times it
  fits in 64 bits), the next difficulty lies between 85% and 115% of it, rounded down.\<close>

theorem lwma_step_band:
  assumes "regular ts cds target" "next_difficulty_lwma3 ts cds target w = Inr d"
    and "10 < last_work cds" "unat (last_work cds) * 115 < 2 ^ 64"
  shows "unat (last_work cds) * 85 div 100 \<le> unat d \<and> unat d \<le> unat (last_work cds) * 115 div 100"
proof -
  obtain r where d: "d = max (step_clamp (last_work cds) r) 1"
    using lwma_result [OF assms(1,2)] by blast
  have "11 \<le> unat (last_work cds)" using assms(3) by (simp add: word_less_nat_alt)
  then have "0 < unat (last_work cds) * 85 div 100" by (simp add: div_greater_zero_iff)
  with step_clamp_band [OF assms(3,4), of r] d show ?thesis by (simp add: max_one_id)
qed

text \<open>C40: The response of the rule to block times is inverted: of two regular histories shorter than 101
  blocks with the same difficulties, the one whose blocks all took at least as long never gets a
  lower next difficulty, although slow blocks call for easier ones.\<close>

theorem lwma_slower_never_easier:
  assumes slow: "regular slow cds target" and fast: "regular fast cds target"
    and short: "length cds < 101"
    and slower: "\<And>i. i + 1 < length cds \<Longrightarrow>
       solve_nat target (fast ! (i + 1)) (fast ! i) \<le> solve_nat target (slow ! (i + 1)) (slow ! i)"
    and ds: "next_difficulty_lwma3 slow cds target w = Inr d_slow"
    and df: "next_difficulty_lwma3 fast cds target w = Inr d_fast"
  shows "d_fast \<le> d_slow"
proof -
  have len: "length slow = length cds" "length fast = length cds" "2 \<le> length cds"
    using slow fast by (auto simp: regular_def)
  then have w: "window slow = length cds - 1" "window fast = length cds - 1" using short by (auto simp: window_def)
  have "lwma_weight fast target \<le> lwma_weight slow target"
    unfolding lwma_weight_def weighted_def w len
  proof (intro sum_mono mult_left_mono)
    fix i assume "i \<in> {1..length cds - 1}"
    then have "length cds - (length cds - 1) + i - 1 = (i - 1) + 1"
      "length cds - (length cds - 1) + i - 2 = i - 1" "(i - 1) + 1 < length cds" using len(3) by auto
    then show "solve_nat target (fast ! (length cds - (length cds - 1) + i - 1)) (fast ! (length cds - (length cds - 1) + i - 2))
       \<le> solve_nat target (slow ! (length cds - (length cds - 1) + i - 1)) (slow ! (length cds - (length cds - 1) + i - 2))"
      using slower [of "i - 1"] by simp
  qed simp
  then have est: "estimate (of_nat (unat (window_work cds))) (weight_norm fast target) (lwma_weight fast target)
      \<le> estimate (of_nat (unat (window_work cds))) (weight_norm slow target) (lwma_weight slow target)"
    using w by (auto simp: weight_norm_def intro: estimate_mono)
  obtain r1 e1 where 1: "raw_difficulty (window_work cds) (window slow) target (of_nat (lwma_weight slow target)) = Inr r1"
    "epoch_anchor slow target r1 = Inr e1" "d_slow = max (step_clamp (last_work cds) e1) 1"
    using lwma_result [OF slow ds] by metis
  obtain r2 e2 where 2: "raw_difficulty (window_work cds) (window fast) target (of_nat (lwma_weight fast target)) = Inr r2"
    "epoch_anchor fast target r2 = Inr e2" "d_fast = max (step_clamp (last_work cds) e2) 1"
    using lwma_result [OF fast df] by metis
  have "r2 \<le> r1"
    using 1(1) 2(1) est unfolding raw_difficulty_regular [OF slow] raw_difficulty_regular [OF fast]
    by (intro u64_of_double_mono [OF _ est]) (simp_all add: estimate_nonneg)
  moreover have "e1 = r1" "e2 = r2" using 1(2) 2(2) len short by (simp_all add: epoch_anchor_def)
  ultimately show ?thesis
    using step_clamp_mono [of r2 r1 "last_work cds"] 1(3) 2(3)
    by (simp only:) (intro max.mono order_refl, simp)
qed

section \<open>Steady chains\<close>

text \<open>
  A steady chain of full window: 101 blocks or more, equally spaced, every block of the same
  difficulty. The weighted sum is exact, so the next difficulty can be read off.
\<close>

definition steady :: "u64 list \<Rightarrow> u64 list \<Rightarrow> nat \<Rightarrow> nat \<Rightarrow> bool" where
  "steady ts cds s d \<longleftrightarrow> length ts = length cds \<and> 101 \<le> length ts
     \<and> (\<forall>t \<in> set ts. unat t < 2 ^ 63)
     \<and> (\<forall>i. i + 1 < length ts \<longrightarrow> unat (ts ! (i + 1)) = unat (ts ! i) + s)
     \<and> (\<forall>i. i + 1 < length cds \<longrightarrow> unat (cds ! (i + 1)) = unat (cds ! i) + d)"

lemma arith_progression:
  assumes "\<forall>i. i + 1 < length xs \<longrightarrow> unat (xs ! (i + 1)) = unat (xs ! i) + (s :: nat)"
  shows "i + k < length xs \<Longrightarrow> unat (xs ! (i + k)) = unat (xs ! i) + k * s"
proof (induction k)
  case (Suc k)
  then show ?case using assms [rule_format, of "i + k"] by simp
qed simp

lemma word_eqI_nat: "unat (a :: u64) = unat b + n \<Longrightarrow> a - b = of_nat n"
  by (metis add_diff_cancel_left' of_nat_add of_nat_unat_word)

lemma steady_differences:
  assumes "steady ts cds s d"
  shows "last ts - ts ! (length ts - 101) = of_nat (100 * s)"
    "window_work cds = of_nat (100 * d)" "last_work cds = of_nat d"
proof -
  have l: "length ts = length cds" "101 \<le> length ts" using assms by (auto simp: steady_def)
  have ts: "\<forall>i. i + 1 < length ts \<longrightarrow> unat (ts ! (i + 1)) = unat (ts ! i) + s"
    and cs: "\<forall>i. i + 1 < length cds \<longrightarrow> unat (cds ! (i + 1)) = unat (cds ! i) + d"
    using assms by (auto simp: steady_def)
  have e: "length ts - 101 + 100 = length ts - 1" "length ts - 2 + 1 = length ts - 1" using l by auto
  have ne: "last ts = ts ! (length ts - 1)" "last cds = cds ! (length ts - 1)"
    using l by (metis last_conv_nth list.size(3) not_numeral_le_zero)+
  show "last ts - ts ! (length ts - 101) = of_nat (100 * s)"
    using arith_progression [OF ts, of "length ts - 101" 100] e l ne by (intro word_eqI_nat) simp
  show "window_work cds = of_nat (100 * d)"
    using arith_progression [OF cs, of "length ts - 101" 100] e l ne
    unfolding window_work_def window_def by (intro word_eqI_nat) simp
  show "last_work cds = of_nat d"
    using arith_progression [OF cs, of "length ts - 2" 1] e l ne
    unfolding last_work_def by (intro word_eqI_nat) simp
qed

lemma steady_weight:
  assumes st: "steady ts cds s d" and s: "1 \<le> s" "s \<le> 6 * unat target"
  shows "lwma_weight ts target = s * 5050"
proof -
  have l: "101 \<le> length ts" and w: "window ts = 100"
    and ts: "\<forall>i. i + 1 < length ts \<longrightarrow> unat (ts ! (i + 1)) = unat (ts ! i) + s"
    using st by (auto simp: steady_def window_def)
  have "lwma_weight ts target = (\<Sum>i \<in> {1..100}. i * s)"
    unfolding lwma_weight_def weighted_def w
  proof (intro sum.cong refl)
    fix i :: nat assume i: "i \<in> {1..100}"
    have "length ts - 100 + i - 1 = (length ts - 100 + i - 2) + 1" "(length ts - 100 + i - 2) + 1 < length ts"
      using i l by auto
    then have "solve_nat target (ts ! (length ts - 100 + i - 1)) (ts ! (length ts - 100 + i - 2)) = s"
      using ts [rule_format, of "length ts - 100 + i - 2"] s by (simp add: solve_nat_def)
    then show "i * solve_nat target (ts ! (length ts - 100 + i - 1)) (ts ! (length ts - 100 + i - 2)) = i * s"
      by simp
  qed
  also have "\<dots> = (\<Sum>i \<in> {1..100}. i) * s" by (simp only: sum_distrib_right)
  also have "(\<Sum>i \<in> {1..100}. i) = (5050 :: nat)"
    using gauss_sum_from_Suc_0 [of 100, where 'a = nat] by simp
  finally show ?thesis by simp
qed

lemma steady_regular:
  "steady ts cds s d \<Longrightarrow> 0 < unat target \<Longrightarrow> unat target < 2 ^ 32 \<Longrightarrow> regular ts cds target"
  by (auto simp: steady_def regular_def)

lemma steady_work:
  assumes "steady ts cds s d" "d < 2 ^ 52"
  shows "unat (window_work cds) = 100 * d" "unat (last_work cds) = d"
proof -
  have "unat (of_nat (100 * d) :: u64) = 100 * d" "unat (of_nat d :: u64) = d"
    using assms(2) by (intro unat_of_nat_small; simp)+
  then show "unat (window_work cds) = 100 * d" "unat (last_work cds) = d"
    by (simp_all only: steady_differences [OF assms(1)])
qed

lemma nat_floor_ge: "(of_nat n :: rat) \<le> x \<Longrightarrow> n \<le> nat \<lfloor>x\<rfloor>"
  by (simp add: le_nat_iff le_floor_iff)

lemma fl_of_nat_ge: "15 / 16 * of_nat n \<le> fl (of_nat n)"
proof (cases "n = 0")
  case False
  then have "(of_nat 1 :: rat) \<le> of_nat n" by (simp only: of_nat_le_iff)
  then have "1 / 2 ^ 100 \<le> (of_nat n :: rat)" by (rule order_trans [rotated]) simp
  then show ?thesis by (rule fl_bounds)
qed simp

lemma steady_raw_large:
  assumes st: "steady ts cds s d" and T: "0 < unat target" "unat target < 2 ^ 32"
    and s: "unat target \<le> 25 * s" "s \<le> 6 * unat target" and d: "0 < d" "d < 2 ^ 52"
    and raw: "raw_difficulty (window_work cds) (window ts) target (of_nat (lwma_weight ts target)) = Inr raw"
  shows "3 * d \<le> unat raw"
proof -
  have reg: "regular ts cds target" using st T by (rule steady_regular)
  let ?e = "estimate (of_nat (unat (window_work cds))) (weight_norm ts target) (lwma_weight ts target)"
  have w: "unat (window_work cds) = 100 * d"
    using steady_work [OF st] d by simp
  have s1: "1 \<le> s" using T s by simp
  have W: "lwma_weight ts target = s * 5050" using st s1 s(2) by (rule steady_weight)
  have N: "weight_norm ts target = 5050 * unat target"
  proof -
    have "window ts = 100" using st by (auto simp: window_def steady_def)
    then show ?thesis by (simp add: weight_norm_def)
  qed
  have "(of_nat (unat target) :: rat) \<le> of_nat (25 * s)" using s(1) by (simp only: of_nat_le_iff)
  then have "3 * of_nat d * of_nat (unat target) \<le> 3 * of_nat d * (25 * of_nat s :: rat)"
    by (intro mult_left_mono) auto
  then have "3 * of_nat d \<le> 75 * (of_nat d * of_nat s / of_nat (unat target) :: rat)"
    using T by (simp add: field_simps)
  also have "\<dots> = 3 / 4 * (of_nat (unat (window_work cds)) / of_nat (weight_norm ts target) * of_nat (lwma_weight ts target))"
    using T by (simp add: w W N field_simps)
  also have "\<dots> \<le> ?e"
    using weight_norm_bounds [OF reg] d s1 by (intro estimate_ge) (simp_all add: w W)
  finally have "(of_nat (3 * d) :: rat) \<le> ?e" by simp
  then have "3 * d \<le> nat \<lfloor>?e\<rfloor>" by (rule nat_floor_ge)
  moreover have "unat raw = nat \<lfloor>?e\<rfloor>"
    using raw unfolding raw_difficulty_regular [OF reg]
    by (intro u64_of_double_Inr estimate_nonneg) simp_all
  ultimately show ?thesis by simp
qed

lemma epoch_anchor_at_least:
  assumes "3 * d \<le> unat raw" "11 \<le> d" "epoch_anchor ts target raw = Inr r"
  shows "d * 115 div 100 \<le> unat r"
proof -
  have half: "d * 115 div 100 \<le> unat r"
    if r: "u64_of_double (fl (double_of_u64 raw * epoch_correction target c)) = Inr r" for c
  proof -
    have d: "(of_nat 11 :: rat) \<le> of_nat d" using assms(2) by (simp only: of_nat_le_iff)
    have "(of_nat (3 * d) :: rat) \<le> of_nat (unat raw)" using assms(1) by (simp only: of_nat_le_iff)
    then have R: "15 / 16 * (3 * of_nat d) \<le> double_of_u64 raw"
      using fl_of_nat_ge [of "unat raw"] unfolding double_of_u64_def by simp
    have "15 / 16 * (3 * of_nat d) * (1 / 2) \<le> double_of_u64 raw * epoch_correction target c"
      using R epoch_correction_range(1) [of target c] by (intro mult_mono) auto
    moreover have "1 / 2 ^ 100 \<le> (1 :: rat)" by simp
    with calculation d have "1 / 2 ^ 100 \<le> double_of_u64 raw * epoch_correction target c"
      by simp
    then have "15 / 16 * (double_of_u64 raw * epoch_correction target c)
        \<le> fl (double_of_u64 raw * epoch_correction target c)" by (rule fl_bounds)
    ultimately have "115 / 100 * of_nat d \<le> fl (double_of_u64 raw * epoch_correction target c)"
      using d by simp
    moreover have "(of_nat (d * 115 div 100) :: rat) \<le> 115 / 100 * of_nat d"
    proof -
      have "(of_nat (d * 115 div 100 * 100) :: rat) \<le> of_nat (d * 115)" by (simp only: of_nat_le_iff div_times_less_eq_dividend)
      then show ?thesis by simp
    qed
    ultimately have "d * 115 div 100 \<le> nat \<lfloor>fl (double_of_u64 raw * epoch_correction target c)\<rfloor>"
      by (intro nat_floor_ge) linarith
    moreover have "0 \<le> fl (double_of_u64 raw * epoch_correction target c)"
      using double_of_u64_bounds(1) [of raw] epoch_correction_range(1) [of target c]
      by (intro fl_nonneg mult_nonneg_nonneg) auto
    ultimately show ?thesis using u64_of_double_Inr [OF _ r] by simp
  qed
  have "d * 115 div 100 \<le> 3 * d" by linarith
  with assms half show ?thesis
    by (auto simp only: epoch_anchor_def Let_def sum.inject split: if_splits)
qed

text \<open>On a steady chain (101 blocks or more, each of difficulty d, every s seconds, with s anywhere from a
  25th of the target to six targets) the next difficulty is 115% of d: blocks at the target time,
  and blocks six times too slow, both raise the difficulty by the full step.\<close>

theorem lwma_steady_growth:
  assumes st: "steady ts cds s d" and T: "0 < unat target" "unat target < 2 ^ 32"
    and s: "unat target \<le> 25 * s" "s \<le> 6 * unat target" and d: "10 < d" "d < 2 ^ 52"
  shows "\<exists>r. next_difficulty_lwma3 ts cds target w = Inr r \<and> unat r = d * 115 div 100"
proof -
  have reg: "regular ts cds target" using st T by (rule steady_regular)
  have w: "unat (window_work cds) = 100 * d" and l: "unat (last_work cds) = d"
    using steady_work [OF st] d by simp_all
  have "unat (window_work cds) < 2 ^ 59" using w d by simp
  then obtain r where r: "next_difficulty_lwma3 ts cds target w = Inr r"
    using lwma_defined_aux [OF reg] by blast
  obtain raw e where
    "raw_difficulty (window_work cds) (window ts) target (of_nat (lwma_weight ts target)) = Inr raw"
    "epoch_anchor ts target raw = Inr e" and re: "r = max (step_clamp (last_work cds) e) 1"
    using lwma_result [OF reg r] by metis
  then have "d * 115 div 100 \<le> unat e"
    using steady_raw_large [OF st T s] d by (intro epoch_anchor_at_least) auto
  then have "unat (step_clamp (last_work cds) e) = d * 115 div 100"
    using l d by (subst step_clamp_high) (auto simp: word_less_nat_alt)
  with re d have "unat r = d * 115 div 100" by (simp add: max_one_id div_greater_zero_iff)
  with r show ?thesis by simp
qed

lemma steady_map:
  assumes "101 \<le> n" "t + s * n < 2 ^ 63" "c + d * n < 2 ^ 64"
  shows "steady (map (\<lambda>i. of_nat (t + s * i)) [0..<n]) (map (\<lambda>i. of_nat (c + d * i)) [0..<n]) s d"
proof -
  have ts: "unat (of_nat (t + s * i) :: u64) = t + s * i \<and> t + s * i < 2 ^ 63" if "i < n" for i
  proof -
    have "s * i \<le> s * n" using that by (intro mult_left_mono) auto
    with assms(2) have "t + s * i < 2 ^ 63" by linarith
    then show ?thesis by (simp add: unat_of_nat_small del: of_nat_add of_nat_mult)
  qed
  have cs: "unat (of_nat (c + d * i) :: u64) = c + d * i" if "i < n" for i
  proof -
    have "d * i \<le> d * n" using that by (intro mult_left_mono) auto
    with assms(3) have "c + d * i < 2 ^ 64" by linarith
    then show ?thesis by (simp add: unat_of_nat_small del: of_nat_add of_nat_mult)
  qed
  have step: "unat (map (\<lambda>i. of_nat (a + k * i) :: u64) [0..<n] ! (i + 1))
      = unat (map (\<lambda>i. of_nat (a + k * i) :: u64) [0..<n] ! i) + k"
    if "i + 1 < n" and "\<And>i. i < n \<Longrightarrow> unat (of_nat (a + k * i) :: u64) = a + k * i" for a k i
    using that by (simp only: nth_map_upt add_lessD1 add_0 diff_zero) (simp add: algebra_simps)
  show ?thesis
    unfolding steady_def
    using assms(1) ts cs step [of _ t s] step [of _ c d] by (auto simp del: of_nat_add of_nat_mult)
qed

text \<open>
  The slow history of the second half of \<open>test_100_block_epoch_retarget\<close> in
  tests/test_consensus_tdd.cpp: the test asserts a result below 5000.
\<close>

theorem lwma_steady_growth_witness:
  "\<exists>r. next_difficulty_lwma3 (map (\<lambda>i. of_nat (1700000000 + 500 * i)) [0..<121])
         (map (\<lambda>i. of_nat (5000 + 5000 * i)) [0..<121]) 150 100 = Inr r \<and> unat r = 5750"
  using lwma_steady_growth [OF steady_map [of 121 1700000000 500 5000 5000], of 150 100] by simp

lemma regular_two: "unat a < 2 ^ 63 \<Longrightarrow> unat b < 2 ^ 63 \<Longrightarrow> regular [a, b] [c, d] 150"
  by (simp add: regular_def)

theorem lwma_defined_witness:
  "\<exists>d. next_difficulty_lwma3 [1000, 1150] [1, 2] 150 720 = Inr d \<and> 1 \<le> d"
  using lwma_defined [OF regular_two, of 1000 1150 1 2 720] by (simp add: window_work_def window_def)

lemma lwma_two:
  assumes "solve_nat 150 t 1000 = k" "fl (of_nat k) = of_nat k" "k < 2 ^ 47" "unat t < 2 ^ 63"
  shows "next_difficulty_lwma3 [1000, t] [1, 151] 150 720
         = bindr (u64_of_double (of_nat k)) (\<lambda>r. Inr (max (step_clamp 150 r) 1))"
proof -
  have "regular [1000, t] [1, 151] 150" using assms by (intro regular_two) simp_all
  moreover have "lwma_weight [1000, t] 150 = k"
    using assms(1) by (simp add: lwma_weight_def weighted_def window_def)
  moreover have "raw_difficulty 150 1 150 (of_nat k) = u64_of_double (of_nat k)"
    using assms(2,3) fl_numeral [of "num.Bit0 (num.Bit1 (num.Bit1 (num.Bit0 (num.Bit1 (num.Bit0 (num.Bit0 num.One))))))"] fl_of_nat [of 1]
      raw_difficulty_estimate [of 1 150 k 150] by (simp add: estimate_def)
  ultimately show ?thesis
    by (simp add: next_difficulty_regular window_work_def last_work_def window_def epoch_anchor_def)
qed

lemma lwma_two_values:
  "next_difficulty_lwma3 [1000, 1150] [1, 151] 150 720 = Inr 150"
  "next_difficulty_lwma3 [1000, 1900] [1, 151] 150 720 = Inr 172"
proof -
  have "u64_of_double (of_nat 150) = Inr 150" "u64_of_double (of_nat 900) = Inr 900"
    by (simp_all add: u64_of_double_def)
  then show "next_difficulty_lwma3 [1000, 1150] [1, 151] 150 720 = Inr 150"
    "next_difficulty_lwma3 [1000, 1900] [1, 151] 150 720 = Inr 172"
    using lwma_two [of 1150 150] lwma_two [of 1900 900] fl_of_nat [of 150] fl_of_nat [of 900]
    by (simp_all add: solve_nat_def step_clamp_def max_one_id)
qed

theorem lwma_step_band_witness:
  "127 \<le> unat (150 :: u64) \<and> unat (150 :: u64) \<le> 172"
  using lwma_step_band [OF regular_two lwma_two_values(1)] by (simp add: last_work_def)

theorem lwma_slower_never_easier_witness: "(150 :: u64) \<le> 172"
  using lwma_slower_never_easier
      [OF regular_two regular_two _ _ lwma_two_values(2) lwma_two_values(1)]
  by (simp add: solve_nat_def)

section \<open>The proof-of-work test\<close>

lemma bit_foldl_or:
  "bit (foldl (\<lambda>v i. v OR f i) a xs) n \<longleftrightarrow> bit a n \<or> (\<exists>i \<in> set xs. bit (f i :: 'a::len word) n)"
  by (induction xs arbitrary: a) (auto simp: bit_or_iff)

lemma bit_pow_value:
  assumes "n < 64"
  shows "bit (pow_value h) n \<longleftrightarrow> (\<exists>i \<in> {0..<8}. i * 8 \<le> n \<and> bit (h ! i) (n - i * 8))"
  unfolding pow_value_def bit_foldl_or set_upt bit_push_bit_iff bit_ucast_iff using assms by auto

lemma byte_of_bit:
  assumes "n < 64"
  shows "(\<exists>i \<in> {0..<8}. i * 8 \<le> n \<and> bit (h ! i :: byte) (n - i * 8)) \<longleftrightarrow> bit (h ! (n div 8)) (n mod 8)"
proof
  assume "\<exists>i \<in> {0..<8}. i * 8 \<le> n \<and> bit (h ! i) (n - i * 8)"
  then obtain i where i: "i * 8 \<le> n" "bit (h ! i) (n - i * 8)" by blast
  then have "n - i * 8 < 8" using bit_imp_le_length [of "h ! i" "n - i * 8"] by simp
  moreover obtain k where "n = k + i * 8" using i(1) by (metis le_add_diff_inverse2)
  ultimately show "bit (h ! (n div 8)) (n mod 8)" using i(2) by simp
next
  assume "bit (h ! (n div 8)) (n mod 8)"
  with assms show "\<exists>i \<in> {0..<8}. i * 8 \<le> n \<and> bit (h ! i) (n - i * 8)"
    by (intro bexI [of _ "n div 8"]) (auto simp: minus_div_mult_eq_mod)
qed

lemma pow_value_le:
  assumes "8 \<le> length h"
  shows "pow_value h = le_to_word (take 8 h)"
proof (rule bit_word_eqI)
  fix n assume "n < LENGTH(64)"
  then have n: "n < 64" and d: "n div 8 < 8" by simp_all
  then have "bit (le_to_word (take 8 h) :: u64) n \<longleftrightarrow> bit (h ! (n div 8)) (n mod 8)"
    using assms by (simp only: layout) simp
  then show "bit (pow_value h) n = bit (le_to_word (take 8 h) :: u64) n"
    by (simp only: bit_pow_value [OF n] byte_of_bit [OF n])
qed

lemma unat_pow_value: "8 \<le> length h \<Longrightarrow> unat (pow_value h) = le_nat (take 8 h)"
  by (simp add: pow_value_le unat_le_to_word)

text \<open>A hash passes the proof-of-work test exactly when the difficulty is positive and the first eight
  bytes of the hash, read little endian, times the difficulty fit in 64 bits: 24 of the 32 bytes
  play no part, and division by the difficulty loses nothing.\<close>

theorem check_pow_hash_iff:
  assumes "arr32 h"
  shows "check_pow_hash h d \<longleftrightarrow> d \<noteq> 0 \<and> le_nat (take 8 h) * unat d < 2 ^ 64"
proof (cases "d = 0")
  case False
  then have d: "0 < unat d" by (simp add: unat_gt_0)
  have m: "unat ((- 1 :: u64) div d) = (2 ^ 64 - 1) div unat d"
    by (simp add: unat_div unsigned_minus_1_eq_mask mask_eq_exp_minus_1)
  have "check_pow_hash h d \<longleftrightarrow> le_nat (take 8 h) \<le> (2 ^ 64 - 1) div unat d"
    using assms False by (simp add: check_pow_hash_def word_le_nat_alt m unat_pow_value arr32_def)
  also have "\<dots> \<longleftrightarrow> le_nat (take 8 h) * unat d \<le> 2 ^ 64 - 1"
    using d by (simp add: less_eq_div_iff_mult_less_eq)
  finally show ?thesis using False by auto
qed (simp add: check_pow_hash_def)

theorem check_pow_hash_iff_witness: "check_pow_hash zeros32 1"
  using check_pow_hash_iff [OF arr32_zeros32, of 1] by (simp add: zeros32_def le_nat_replicate_0)

lemma check_pow_hash_antimono:
  "arr32 h \<Longrightarrow> check_pow_hash h d \<Longrightarrow> e \<noteq> 0 \<Longrightarrow> e \<le> d \<Longrightarrow> check_pow_hash h e"
proof -
  assume a: "arr32 h" "check_pow_hash h d" "e \<noteq> 0" "e \<le> d"
  have iff: "check_pow_hash h x \<longleftrightarrow> x \<noteq> 0 \<and> pow_value h \<le> (- 1) div x" for x
    by (simp add: check_pow_hash_def)
  have "unat ((- 1 :: u64) div d) \<le> unat ((- 1 :: u64) div e)"
    using a(3,4) by (simp add: unat_div div_le_mono2 unat_gt_0 word_le_nat_alt)
  with a iff show ?thesis by (meson order_trans word_le_nat_alt)
qed

end
