(* ===== verification/RandomX.thy ===== *)
theory RandomX
  imports Lwma
begin

text \<open>
  src/crypto/randomx-monero.cpp: the RandomX manager, a singleton whose state is the flag
  \<open>m_initialized\<close>. \<open>preallocate_next_epoch\<close> starts a thread that only prints, so it is the
  identity here. The proof-of-work function is the byte mixing that stands in for RandomX; the
  lemmas give its closed form, and what that form makes of the proof of work.
\<close>

record rx_state =
  m_initialized :: bool

definition rx_initial :: rx_state where
  "rx_initial = \<lparr>m_initialized = False\<rparr>"

definition init_dataset :: "rx_state \<Rightarrow> bool \<times> rx_state" where
  "init_dataset s = (True, s\<lparr>m_initialized := True\<rparr>)"

definition preallocate_next_epoch :: "rx_state \<Rightarrow> rx_state" where
  "preallocate_next_epoch s = s"

definition rx_shutdown :: "rx_state \<Rightarrow> rx_state" where
  "rx_shutdown s = s\<lparr>m_initialized := False\<rparr>"

definition mix_step :: "bytes \<Rightarrow> bytes \<Rightarrow> nat \<Rightarrow> bytes" where
  "mix_step input out i = out[i mod 32 := (out ! (i mod 32)) XOR (input ! i + of_nat (i * 7))]"

definition rx_mix :: "bytes \<Rightarrow> bytes" where
  "rx_mix input = (foldl (mix_step input) zeros32 [0..<length input])[0 := 0]"

definition calculate_hash :: "rx_state \<Rightarrow> bytes \<Rightarrow> bool \<times> bytes \<times> rx_state" where
  "calculate_hash s input =
     (let s' = (if \<not> m_initialized s then snd (init_dataset s) else s)
      in (True, rx_mix input, s'))"

section \<open>Closed form\<close>

lemma length_foldl_mix [simp]: "length (foldl (mix_step input) out is) = length out"
  by (induction "is" arbitrary: out) (simp_all add: mix_step_def)

lemma arr32_rx_mix [simp]: "arr32 (rx_mix input)"
  by (simp add: rx_mix_def arr32_def zeros32_def)

lemma arr32_calculate_hash [simp]: "arr32 (fst (snd (calculate_hash s input)))"
  by (simp add: calculate_hash_def Let_def)

definition weighted_byte :: "bytes \<Rightarrow> nat \<Rightarrow> byte" where
  "weighted_byte input i = (if i < length input then input ! i + of_nat (i * 7) else 0)"

lemma foldl_mix_nth:
  assumes "n \<le> length input" "n \<le> 64" "j < 32"
  shows "foldl (mix_step input) zeros32 [0..<n] ! j =
     (if j < n then weighted_byte input j else 0) XOR (if j + 32 < n then weighted_byte input (j + 32) else 0)"
  using assms(1,2)
proof (induction n)
  case 0
  then show ?case using assms(3) by (simp add: zeros32_def)
next
  case (Suc n)
  then have ih: "foldl (mix_step input) zeros32 [0..<n] ! j =
     (if j < n then weighted_byte input j else 0) XOR (if j + 32 < n then weighted_byte input (j + 32) else 0)"
    by simp
  have wb: "weighted_byte input n = input ! n + of_nat (n * 7)" using Suc.prems by (simp add: weighted_byte_def)
  have step: "foldl (mix_step input) zeros32 [0..<Suc n] ! j =
     (if n mod 32 = j then (foldl (mix_step input) zeros32 [0..<n] ! j) XOR weighted_byte input n
      else foldl (mix_step input) zeros32 [0..<n] ! j)"
    using assms(3) by (simp add: mix_step_def wb zeros32_def nth_list_update)
  consider "n < 32" | "32 \<le> n" "n mod 32 = n - 32" using Suc.prems by (cases "n < 32") (auto simp: mod_if)
  then show ?case
  proof cases
    case 1
    then show ?thesis using assms(3) unfolding step ih by auto
  next
    case 2
    then show ?thesis using assms(3) unfolding step ih by auto
  qed
qed

lemma rx_mix_nth:
  assumes "length input \<le> 64" "j < 32"
  shows "rx_mix input ! j = (if j = 0 then 0 else weighted_byte input j XOR weighted_byte input (j + 32))"
  using assms foldl_mix_nth [of "length input" input j]
  by (auto simp: rx_mix_def zeros32_def weighted_byte_def nth_list_update)

text \<open>The inputs of the chain are 32 bytes long: then each output byte depends on one input byte.\<close>

lemma rx_mix_32:
  "arr32 input \<Longrightarrow> j < 32 \<Longrightarrow> rx_mix input ! j = (if j = 0 then 0 else input ! j + of_nat (j * 7))"
  by (simp add: rx_mix_nth weighted_byte_def arr32_def)

text \<open>On the 32-byte inputs the chain hashes, the stand-in proof of work is inverted by subtraction:
  every output whose first byte is 0 is the hash of an input that can be written down, whatever
  that input's first byte is.\<close>

theorem calculate_hash_invertible:
  assumes "arr32 h" "h ! 0 = 0"
  shows "calculate_hash s (b # map (\<lambda>j. h ! j - of_nat (j * 7)) [1..<32])
         = (True, h, s\<lparr>m_initialized := True\<rparr>)"
proof -
  let ?in = "b # map (\<lambda>j. h ! j - of_nat (j * 7)) [1..<32]"
  have in32: "arr32 ?in" by (simp add: arr32_def)
  have "rx_mix ?in = h"
  proof (rule nth_equalityI)
    show "length (rx_mix ?in) = length h" using assms(1) arr32_rx_mix [of ?in] by (simp only: arr32_def)
    fix j assume "j < length (rx_mix ?in)"
    then have j: "j < 32" using arr32_rx_mix [of ?in] by (simp only: arr32_def)
    show "rx_mix ?in ! j = h ! j"
    proof (cases j)
      case 0
      then show ?thesis using rx_mix_32 [OF in32 j] assms(2) by simp
    next
      case (Suc k)
      then have "?in ! j = h ! j - of_nat (j * 7)" using j by simp
      then show ?thesis using rx_mix_32 [OF in32 j] Suc by simp
    qed
  qed
  then show ?thesis
    by (cases "m_initialized s") (simp_all add: calculate_hash_def init_dataset_def)
qed

theorem calculate_hash_invertible_witness:
  "calculate_hash rx_initial (7 # map (\<lambda>j. zeros32 ! j - of_nat (j * 7)) [1..<32])
     = (True, zeros32, \<lparr>m_initialized = True\<rparr>)"
  using calculate_hash_invertible [OF arr32_zeros32, of rx_initial 7] by (simp add: zeros32_def rx_initial_def)

definition free_hash :: bytes where
  "free_hash = 0 # map (\<lambda>j. - of_nat (j * 7)) [1..<32]"

lemma arr32_free_hash [simp]: "arr32 free_hash"
  by (simp add: free_hash_def arr32_def)

lemma free_hash_nth: "j < 32 \<Longrightarrow> free_hash ! j = - of_nat (j * 7)"
  by (cases j) (simp_all add: free_hash_def)

lemma rx_mix_free_hash: "rx_mix free_hash = zeros32"
proof (rule nth_equalityI)
  show "length (rx_mix free_hash) = length zeros32"
    using arr32_rx_mix [of free_hash] by (simp add: arr32_def zeros32_def)
  fix j assume "j < length (rx_mix free_hash)"
  then have j: "j < 32" using arr32_rx_mix [of free_hash] by (simp add: arr32_def)
  then show "rx_mix free_hash ! j = zeros32 ! j"
    by (simp add: rx_mix_32 zeros32_def free_hash_nth)
qed

lemma free_hash_passes: "d \<noteq> 0 \<Longrightarrow> check_pow_hash (rx_mix free_hash) d"
proof -
  assume d: "d \<noteq> 0"
  have "pow_value zeros32 = 0"
    using unat_pow_value [of zeros32] by (simp add: zeros32_def le_nat_replicate_0 unsigned_eq_0_iff)
  with d show ?thesis by (simp add: rx_mix_free_hash check_pow_hash_def)
qed

end
