(* ===== verification/Miner.thy ===== *)
theory Miner
  imports RandomX
begin

text \<open>
  src/miner/miner_main.cpp: the stand-alone miner. Each worker thread owns its nonce, header and hash
  buffers; they share the hash counter (atomic) and the RandomX singleton (under its mutex), so a run
  is an interleaving of whole iterations. What \<open>main\<close> prints, its five reports and the clock are
  left out; clearing \<open>g_mining_active\<close> ends a run after any number of iterations.
\<close>

record worker =
  w_nonce :: u32
  header_blob :: bytes
  w_target :: u64
  found_nonces :: "u32 list"   \<comment> \<open>the nonces announced as blocks\<close>
  iterations :: nat            \<comment> \<open>how many iterations it has made\<close>

record miner =
  workers :: "worker list"
  g_total_hashes :: u64
  engine :: rx_state

text \<open>\<open>uint32_t nonce = thread_id * 1000000\<close> is a product of ints.\<close>

definition start_worker :: "nat \<Rightarrow> u64 \<Rightarrow> worker result" where
  "start_worker thread_id target =
     (if thread_id * 1000000 < 2 ^ 31
      then Inr \<lparr>w_nonce = of_nat (thread_id * 1000000), header_blob = (replicate 40 0)[0 := 0x01, 1 := 0x00],
                w_target = target, found_nonces = [], iterations = 0\<rparr>
      else Inl SignedOverflow)"

fun start_workers :: "nat list \<Rightarrow> u64 \<Rightarrow> worker list result" where
  "start_workers [] target = Inr []"
| "start_workers (i # is) target =
     bindr (start_worker i target) (\<lambda>w. bindr (start_workers is target) (\<lambda>ws. Inr (w # ws)))"

definition miner_main :: "nat \<Rightarrow> miner result" where
  "miner_main hardware_concurrency =
     (let hw_threads = (if hardware_concurrency = 0 then 4 else hardware_concurrency) in
      bindr (start_workers [0..<hw_threads] 10000) (\<lambda>ws.
        Inr \<lparr>workers = ws, g_total_hashes = 0, engine = snd (init_dataset rx_initial)\<rparr>))"

text \<open>One iteration of the worker's loop: pack the nonce, hash, count, announce, advance.\<close>

definition pack_nonce :: "bytes \<Rightarrow> u32 \<Rightarrow> bytes" where
  "pack_nonce blob n = take 32 blob @ word_to_le 4 n @ drop 36 blob"

definition worker_turn :: "worker \<Rightarrow> rx_state \<Rightarrow> worker \<times> rx_state" where
  "worker_turn w r =
     (let blob = pack_nonce (header_blob w) (w_nonce w);
          (_, pow_hash, r) = calculate_hash r blob
      in (w\<lparr>header_blob := blob,
            found_nonces := found_nonces w @ (if check_pow_hash pow_hash (w_target w) then [w_nonce w] else []),
            w_nonce := w_nonce w + 1, iterations := iterations w + 1\<rparr>, r))"

inductive miner_step :: "miner \<Rightarrow> miner \<Rightarrow> bool" where
  turn: "i < length (workers m) \<Longrightarrow> worker_turn (workers m ! i) (engine m) = (w, r) \<Longrightarrow>
     miner_step m (m\<lparr>workers := (workers m)[i := w], g_total_hashes := g_total_hashes m + 1, engine := r\<rparr>)"

inductive mining :: "nat \<Rightarrow> miner \<Rightarrow> bool" for hw where
  launched: "miner_main hw = Inr m \<Longrightarrow> mining hw m"
| stepped: "mining hw m \<Longrightarrow> miner_step m m' \<Longrightarrow> mining hw m'"

inductive_cases miner_stepE: "miner_step m m'"

section \<open>The hash of a header\<close>

definition fresh_header :: "bytes \<Rightarrow> bool" where
  "fresh_header blob \<longleftrightarrow> length blob = 40 \<and> take 32 blob = 1 # replicate 31 0 \<and> drop 36 blob = replicate 4 0"

lemma fresh_header_start: "fresh_header ((replicate 40 0)[0 := 0x01, 1 := 0x00])"
  by (simp add: fresh_header_def eval_nat_numeral)

lemma fresh_header_pack: "fresh_header blob \<Longrightarrow> fresh_header (pack_nonce blob n)"
  by (simp add: fresh_header_def pack_nonce_def)

text \<open>Bytes 4 to 7 of the hash see only constants; byte 7, the most significant that is compared, is 32.\<close>

lemma header_hash_byte7:
  assumes "fresh_header blob"
  shows "rx_mix blob ! 7 = 32"
proof -
  have "blob ! 7 = take 32 blob ! 7" by simp
  also have "\<dots> = 0" using assms by (simp add: fresh_header_def nth_Cons')
  finally have b7: "blob ! 7 = 0" .
  have len: "length blob = 40" using assms by (simp add: fresh_header_def)
  have "blob ! 39 = drop 36 blob ! 3" using len by simp
  also have "\<dots> = 0" using assms by (simp add: fresh_header_def)
  finally have "blob ! 39 = 0" .
  with b7 len show ?thesis by (subst rx_mix_nth) (simp_all add: weighted_byte_def)
qed

lemma eight_Suc: "(8 :: nat) = Suc 7" by simp

lemma le_nat_top: "length bs = 8 \<Longrightarrow> unat (bs ! 7) * 256 ^ 7 \<le> le_nat bs"
proof -
  have snoc: "le_nat (xs @ [b]) = le_nat xs + 256 ^ length xs * unat b" for xs b
    by (induction xs) (simp_all add: algebra_simps)
  assume l: "length bs = 8"
  then have "bs = take 7 bs @ [bs ! 7]" by (metis take_Suc_snoc take_all eval_nat_numeral(3) lessI le_refl eight_Suc)
  then have "le_nat bs = le_nat (take 7 bs) + 256 ^ length (take 7 bs) * unat (bs ! 7)" by (metis snoc)
  with l show ?thesis by simp
qed

lemma header_never_passes:
  assumes "fresh_header blob" "8 \<le> d"
  shows "\<not> check_pow_hash (rx_mix blob) d"
proof -
  have "length (take 8 (rx_mix blob)) = 8" using arr32_rx_mix [of blob] by (simp add: arr32_def)
  from le_nat_top [OF this] have "2 ^ 61 \<le> le_nat (take 8 (rx_mix blob))"
    using header_hash_byte7 [OF assms(1)] by simp
  then have v: "2 ^ 61 \<le> unat (pow_value (rx_mix blob))"
    using unat_pow_value [of "rx_mix blob"] arr32_rx_mix [of blob] by (simp add: arr32_def)
  have "unat ((- 1 :: u64) div d) = (2 ^ 64 - 1) div unat d"
    by (simp add: unat_div unsigned_minus_1_eq_mask mask_eq_exp_minus_1)
  also have "\<dots> \<le> (2 ^ 64 - 1) div 8" using assms(2) by (intro div_le_mono2) (simp_all add: word_le_nat_alt)
  finally have "unat ((- 1 :: u64) div d) < 2 ^ 61" by simp
  with v show ?thesis by (simp add: check_pow_hash_def word_le_nat_alt)
qed

section \<open>What a run keeps\<close>

definition worker_ok :: "nat \<Rightarrow> worker \<Rightarrow> bool" where
  "worker_ok i w \<longleftrightarrow> fresh_header (header_blob w) \<and> w_target w = 10000 \<and> found_nonces w = []
     \<and> w_nonce w = of_nat (i * 1000000 + iterations w)"

definition miner_ok :: "nat \<Rightarrow> miner \<Rightarrow> bool" where
  "miner_ok hw m \<longleftrightarrow> length (workers m) = (if hw = 0 then 4 else hw)
     \<and> (\<forall>i < length (workers m). worker_ok i (workers m ! i))
     \<and> g_total_hashes m = of_nat (sum_list (map iterations (workers m)))"

lemma start_workers_nth:
  "start_workers is t = Inr ws \<Longrightarrow> length ws = length is \<and> (\<forall>k < length is. start_worker (is ! k) t = Inr (ws ! k))"
proof (induction "is" arbitrary: ws)
  case (Cons i js)
  then show ?case by (auto simp: bindr_Inr_iff nth_Cons split: nat.splits)
qed simp

lemma start_worker_ok:
  "start_worker i 10000 = Inr w \<Longrightarrow> worker_ok i w \<and> iterations w = 0"
  using fresh_header_start by (auto simp: start_worker_def worker_ok_def split: if_splits)

lemma launched_ok:
  assumes "miner_main hw = Inr m"
  shows "miner_ok hw m"
proof -
  define n where "n = (if hw = 0 then 4 else hw)"
  obtain ws where ws: "start_workers [0..<n] 10000 = Inr ws" and m: "workers m = ws" "g_total_hashes m = 0"
    using assms unfolding miner_main_def Let_def n_def [symmetric] bindr_Inr_iff by force
  have w: "length ws = n" "\<forall>k < n. worker_ok k (ws ! k) \<and> iterations (ws ! k) = 0"
    using start_workers_nth [OF ws] start_worker_ok by auto
  then have "\<forall>w \<in> set ws. iterations w = 0" by (metis in_set_conv_nth)
  then have "sum_list (map iterations ws) = 0" by (induction ws) simp_all
  then have "g_total_hashes m = of_nat (sum_list (map iterations (workers m)))" by (simp only: m) simp
  with w m(1) show ?thesis unfolding miner_ok_def n_def [symmetric] by simp
qed

lemma sum_list_update_Suc:
  "i < length xs \<Longrightarrow> f y = Suc (f (xs ! i)) \<Longrightarrow> sum_list (map f (xs[i := y])) = Suc (sum_list (map f xs))"
proof (induction xs arbitrary: i)
  case (Cons x xs)
  then show ?case by (cases i) simp_all
qed simp

lemma worker_turn_ok:
  assumes "worker_ok i w" "worker_turn w r = (w', r')"
  shows "worker_ok i w' \<and> iterations w' = Suc (iterations w)"
proof -
  have "fresh_header (pack_nonce (header_blob w) (w_nonce w))"
    using assms(1) by (simp add: worker_ok_def fresh_header_pack)
  with header_never_passes [OF this, of 10000] assms show ?thesis
    by (auto simp: worker_turn_def Let_def calculate_hash_def worker_ok_def split: if_splits)
qed

lemma miner_step_ok:
  assumes "miner_step m m'" "miner_ok hw m"
  shows "miner_ok hw m'"
  using assms(1)
proof cases
  case (turn i w r)
  have "worker_ok i w" "iterations w = Suc (iterations (workers m ! i))"
    using worker_turn_ok [of i "workers m ! i" "engine m" w r] turn assms(2) by (auto simp: miner_ok_def)
  with turn assms(2) show ?thesis
    by (auto simp: miner_ok_def nth_list_update sum_list_update_Suc)
qed

lemma mining_ok: "mining hw m \<Longrightarrow> miner_ok hw m"
  by (induction rule: mining.induct) (auto intro: launched_ok miner_step_ok)

text \<open>The miner never finds a block. Whatever number of threads it runs, however their iterations interleave
  and however long it mines, no worker ever announces a nonce; the work is counted exactly and
  worker i is at nonce 1000000 i plus its iterations, modulo 2^32.\<close>

theorem miner_never_finds:
  assumes "mining hw m" "i < length (workers m)"
  shows "found_nonces (workers m ! i) = []
     \<and> w_nonce (workers m ! i) = of_nat (i * 1000000 + iterations (workers m ! i))
     \<and> g_total_hashes m = of_nat (sum_list (map iterations (workers m)))"
  using mining_ok [OF assms(1)] assms(2) by (simp add: miner_ok_def worker_ok_def)

theorem miner_never_finds_witness:
  "\<exists>m. miner_main 1 = Inr m \<and> found_nonces (workers m ! 0) = []"
proof -
  obtain m where m: "miner_main 1 = Inr m" "length (workers m) = 1"
    by (simp add: miner_main_def start_worker_def)
  have "found_nonces (workers m ! 0) = []"
    using miner_never_finds [OF mining.launched [OF m(1)], of 0] m(2) by simp
  with m show ?thesis by blast
qed

text \<open>Starting the miner succeeds exactly on machines with at most 2148 hardware threads: beyond that the
  product thread_id * 1000000 overflows a signed int.\<close>

theorem miner_start_bound:
  "(\<exists>m. miner_main hw = Inr m) \<longleftrightarrow> hw \<le> 2148"
proof -
  have all: "(\<exists>ws. start_workers is t = Inr ws) \<longleftrightarrow> (\<forall>i \<in> set is. i * 1000000 < 2 ^ 31)" for "is" t
  proof (induction "is")
    case (Cons i js)
    then show ?case by (cases "start_workers js t") (auto simp: start_worker_def)
  qed simp
  have "(\<exists>m. miner_main hw = Inr m) \<longleftrightarrow> (\<exists>ws. start_workers [0..<if hw = 0 then 4 else hw] 10000 = Inr ws)"
    by (auto simp: miner_main_def Let_def bindr_Inr_iff)
  also have "\<dots> \<longleftrightarrow> (\<forall>i < (if hw = 0 then 4 else hw). i * 1000000 < (2 :: nat) ^ 31)"
    unfolding all by auto
  also have "\<dots> \<longleftrightarrow> hw \<le> 2148"
  proof
    assume a: "\<forall>i < (if hw = 0 then 4 else hw). i * 1000000 < (2 :: nat) ^ 31"
    show "hw \<le> 2148"
    proof (rule ccontr)
      assume "\<not> hw \<le> 2148"
      with a [rule_format, of 2148] show False by simp
    qed
  qed auto
  finally show ?thesis .
qed

end
