(* ===== verification/Hardfork.thy ===== *)
theory Hardfork
  imports Prelude
begin

text \<open>
  vendor/monero/src/cryptonote_basic/hardfork.cpp and hardfork.h, with the tables of
  hardforks/hardforks.cpp: which block version is current, decided by votes over a rolling window.
  \<open>hf_state\<close> holds the members of class HardFork. \<open>BlockchainDB\<close> is an interface whose
  implementation is LMDB; of it the component uses the chain of blocks and the version stored per
  height, kept in \<open>hf_db\<close>; reading a missing block or version throws. Heights stay \<open>u64\<close> and vote
  counts \<open>u32\<close>; \<open>current_fork_index\<close> indexes \<open>heights\<close>, which the invariant keeps in range, and the
  \<open>uint8_t\<close> that holds a voted index is written as \<open>mod 256\<close>. \<open>time_t\<close> is an integer.
\<close>

record hardfork_t =
  hf_version :: u8
  hf_height :: u64
  hf_threshold :: u8
  hf_time :: int

record hf_block =
  b_major_version :: u8
  b_minor_version :: u8

record hf_db =
  db_blocks :: "hf_block list"
  db_versions :: "nat \<rightharpoonup> u8"

record hf_state =
  forked_time :: int
  update_time :: int
  window_size :: u64
  default_threshold_percent :: u8
  original_version :: u8
  original_version_till_height :: u64
  heights :: "hardfork_t list"
  versions :: "u8 list"
  last_versions :: "u8 \<Rightarrow> u32"
  current_fork_index :: nat

datatype fork_status = LikelyForked | UpdateNeeded | Ready

definition db_height :: "hf_db \<Rightarrow> u64" where
  "db_height db = of_nat (length (db_blocks db))"

definition get_block_from_height :: "hf_db \<Rightarrow> u64 \<Rightarrow> hf_block result" where
  "get_block_from_height db h = (if unat h < length (db_blocks db) then Inr (db_blocks db ! unat h) else Inl Thrown)"

definition set_hard_fork_version :: "hf_db \<Rightarrow> u64 \<Rightarrow> u8 \<Rightarrow> hf_db" where
  "set_hard_fork_version db h v = db\<lparr>db_versions := (db_versions db)(unat h \<mapsto> v)\<rparr>"

definition get_hard_fork_version :: "hf_db \<Rightarrow> u64 \<Rightarrow> u8 result" where
  "get_hard_fork_version db h = (case db_versions db (unat h) of Some v \<Rightarrow> Inr v | None \<Rightarrow> Inl Thrown)"

section \<open>Construction and the fork table\<close>

definition get_block_vote :: "hf_block \<Rightarrow> u8" where
  "get_block_vote b = (if b_minor_version b = 0 then 1 else b_minor_version b)"

definition get_block_version :: "hf_block \<Rightarrow> u8" where
  "get_block_version b = b_major_version b"

definition new_hard_fork :: "u8 \<Rightarrow> u64 \<Rightarrow> int \<Rightarrow> int \<Rightarrow> u64 \<Rightarrow> u8 \<Rightarrow> hf_state result" where
  "new_hard_fork original_version0 till_height forked update window default_percent =
     (if window = 0 then Inl Thrown
      else if default_percent > 100 then Inl Thrown
      else Inr \<lparr>forked_time = forked, update_time = update, window_size = window,
                default_threshold_percent = default_percent, original_version = original_version0,
                original_version_till_height = till_height, heights = [], versions = [],
                last_versions = (\<lambda>_. 0), current_fork_index = 0\<rparr>)"

definition add_fork :: "hf_state \<Rightarrow> u8 \<Rightarrow> u64 \<Rightarrow> u8 \<Rightarrow> int \<Rightarrow> bool \<times> hf_state" where
  "add_fork s version height threshold time =
     (if version = 0 then (False, s)
      else if heights s \<noteq> [] \<and> version \<le> hf_version (last (heights s)) then (False, s)
      else if heights s \<noteq> [] \<and> height \<le> hf_height (last (heights s)) then (False, s)
      else if heights s \<noteq> [] \<and> time \<le> hf_time (last (heights s)) then (False, s)
      else if threshold > 100 then (False, s)
      else (True, s\<lparr>heights := heights s @
              [\<lparr>hf_version = version, hf_height = height, hf_threshold = threshold, hf_time = time\<rparr>]\<rparr>))"

definition add_fork_default :: "hf_state \<Rightarrow> u8 \<Rightarrow> u64 \<Rightarrow> int \<Rightarrow> bool \<times> hf_state" where
  "add_fork_default s version height time = add_fork s version height (default_threshold_percent s) time"

section \<open>Voting\<close>

definition get_effective_version :: "hf_state \<Rightarrow> u8 \<Rightarrow> u8" where
  "get_effective_version s voting_version =
     (if heights s \<noteq> [] then
        let max_version = hf_version (last (heights s))
        in if voting_version > max_version then max_version else voting_version
      else voting_version)"

definition do_check :: "hf_state \<Rightarrow> u8 \<Rightarrow> u8 \<Rightarrow> bool" where
  "do_check s block_version voting_version \<longleftrightarrow>
     block_version = hf_version (heights s ! current_fork_index s)
     \<and> voting_version \<ge> hf_version (heights s ! current_fork_index s)"

definition check :: "hf_state \<Rightarrow> hf_block \<Rightarrow> bool" where
  "check s b = do_check s (get_block_version b) (get_block_vote b)"

text \<open>The loop of get_voted_fork_index over \<open>n = size - 1, ..., 0\<close>; here \<open>n\<close> counts the forks still to visit.\<close>

fun voted_loop :: "hf_state \<Rightarrow> u64 \<Rightarrow> nat \<Rightarrow> u32 \<Rightarrow> nat" where
  "voted_loop s height 0 accumulated_votes = current_fork_index s"
| "voted_loop s height (Suc n) accumulated_votes =
     (let f = heights s ! n;
          accumulated_votes = accumulated_votes + last_versions s (hf_version f);
          threshold = ucast ((window_size s * ucast (hf_threshold f) + 99) div 100)
      in if height \<ge> hf_height f \<and> accumulated_votes \<ge> threshold then n
         else voted_loop s height n accumulated_votes)"

definition get_voted_fork_index :: "hf_state \<Rightarrow> u64 \<Rightarrow> nat" where
  "get_voted_fork_index s height = voted_loop s height (length (heights s)) 0"

definition do_check_for_height :: "hf_state \<Rightarrow> u8 \<Rightarrow> u8 \<Rightarrow> u64 \<Rightarrow> bool" where
  "do_check_for_height s block_version voting_version height \<longleftrightarrow>
     (let fork_index = get_voted_fork_index s height in
      block_version = hf_version (heights s ! fork_index) \<and> voting_version \<ge> hf_version (heights s ! fork_index))"

definition check_for_height :: "hf_state \<Rightarrow> hf_block \<Rightarrow> u64 \<Rightarrow> bool" where
  "check_for_height s b height = do_check_for_height s (get_block_version b) (get_block_vote b) height"

text \<open>\<open>while (versions.size() >= window_size)\<close>: the window is positive, so the list is not empty.\<close>

fun evict :: "u64 \<Rightarrow> u8 list \<Rightarrow> (u8 \<Rightarrow> u32) \<Rightarrow> u8 list \<times> (u8 \<Rightarrow> u32)" where
  "evict window [] lv = ([], lv)"
| "evict window (v # vs) lv =
     (if of_nat (length (v # vs)) \<ge> window then evict window vs (lv(v := lv v - 1)) else (v # vs, lv))"

definition push_version :: "hf_state \<Rightarrow> u8 \<Rightarrow> hf_state" where
  "push_version s v = s\<lparr>last_versions := (last_versions s)(v := last_versions s v + 1), versions := versions s @ [v]\<rparr>"

definition raise_index :: "hf_state \<Rightarrow> u64 \<Rightarrow> hf_state" where
  "raise_index s height =
     (let voted = get_voted_fork_index s height mod 256
      in if voted > current_fork_index s then s\<lparr>current_fork_index := voted\<rparr> else s)"

definition add_versions :: "hf_state \<Rightarrow> hf_db \<Rightarrow> u8 \<Rightarrow> u8 \<Rightarrow> u64 \<Rightarrow> bool \<times> hf_state \<times> hf_db" where
  "add_versions s db block_version voting_version height =
     (if \<not> do_check s block_version voting_version then (False, s, db)
      else let db = set_hard_fork_version db height (hf_version (heights s ! current_fork_index s));
               voting_version = get_effective_version s voting_version;
               (vs, lv) = evict (window_size s) (versions s) (last_versions s);
               s = push_version (s\<lparr>versions := vs, last_versions := lv\<rparr>) voting_version
        in (True, raise_index s (height + 1), db))"

definition add_block :: "hf_state \<Rightarrow> hf_db \<Rightarrow> hf_block \<Rightarrow> u64 \<Rightarrow> bool \<times> hf_state \<times> hf_db" where
  "add_block s db b height = add_versions s db (get_block_version b) (get_block_vote b) height"

section \<open>Rebuilding from the chain\<close>

definition clear_votes :: "hf_state \<Rightarrow> hf_state" where
  "clear_votes s = s\<lparr>versions := [], last_versions := (\<lambda>_. 0)\<rparr>"

fun scan_blocks :: "hf_state \<Rightarrow> hf_db \<Rightarrow> nat list \<Rightarrow> hf_state result" where
  "scan_blocks s db [] = Inr s"
| "scan_blocks s db (h # hs) =
     bindr (get_block_from_height db (of_nat h)) (\<lambda>b.
       scan_blocks (push_version s (get_effective_version s (get_block_vote b))) db hs)"

fun back_to :: "hardfork_t list \<Rightarrow> u8 \<Rightarrow> nat \<Rightarrow> nat" where
  "back_to hs start_version 0 = 0"
| "back_to hs start_version (Suc i) =
     (if hf_version (hs ! Suc i) > start_version then back_to hs start_version i else Suc i)"

fun add_blocks :: "hf_state \<Rightarrow> hf_db \<Rightarrow> nat list \<Rightarrow> (hf_state \<times> hf_db) result" where
  "add_blocks s db [] = Inr (s, db)"
| "add_blocks s db (h # hs) =
     bindr (get_block_from_height db (of_nat h)) (\<lambda>b.
       let (_, s, db) = add_block s db b (of_nat h) in add_blocks s db hs)"

definition reorganize_from_block_height :: "hf_state \<Rightarrow> hf_db \<Rightarrow> u64 \<Rightarrow> (bool \<times> hf_state \<times> hf_db) result" where
  "reorganize_from_block_height s db height =
     (if height \<ge> db_height db then Inr (False, s, db)
      else let s = clear_votes s;
               rescan_height = (if height \<ge> window_size s - 1 then height - (window_size s - 1) else 0)
        in bindr (if height = 0 then Inr (original_version s) else get_hard_fork_version db height) (\<lambda>start_version.
           let s = s\<lparr>current_fork_index := back_to (heights s) start_version (current_fork_index s)\<rparr> in
           bindr (scan_blocks s db [unat rescan_height..<Suc (unat height)]) (\<lambda>s.
           let s = raise_index s (height + 1) in
           bindr (add_blocks s db [unat (height + 1)..<unat (db_height db)]) (\<lambda>(s, db).
           Inr (True, s, db)))))"

definition reorganize_from_chain_height :: "hf_state \<Rightarrow> hf_db \<Rightarrow> u64 \<Rightarrow> (bool \<times> hf_state \<times> hf_db) result" where
  "reorganize_from_chain_height s db height =
     (if height = 0 then Inr (False, s, db) else reorganize_from_block_height s db (height - 1))"

fun forward_to :: "hardfork_t list \<Rightarrow> u8 \<Rightarrow> nat" where
  "forward_to [] lastv = 0"
| "forward_to [f] lastv = 0"
| "forward_to (f # g # fs) lastv = (if hf_version f \<noteq> lastv then Suc (forward_to (g # fs) lastv) else 0)"

definition rescan_from_block_height :: "hf_state \<Rightarrow> hf_db \<Rightarrow> u64 \<Rightarrow> (bool \<times> hf_state) result" where
  "rescan_from_block_height s db height =
     (if height \<ge> db_height db then Inr (False, s)
      else bindr (scan_blocks (clear_votes s) db [unat height..<unat (db_height db)]) (\<lambda>s.
           bindr (get_hard_fork_version db (db_height db - 1)) (\<lambda>lastv.
           Inr (True, raise_index (s\<lparr>current_fork_index := forward_to (heights s) lastv\<rparr>) (db_height db)))))"

definition rescan_from_chain_height :: "hf_state \<Rightarrow> hf_db \<Rightarrow> u64 \<Rightarrow> (bool \<times> hf_state) result" where
  "rescan_from_chain_height s db height =
     (if height = 0 then Inr (False, s) else rescan_from_block_height s db (height - 1))"

definition hf_init :: "hf_state \<Rightarrow> hf_db \<Rightarrow> hf_state result" where
  "hf_init s db =
     (let s = (if heights s = [] then s\<lparr>heights := [\<lparr>hf_version = original_version s, hf_height = 0,
                 hf_threshold = 0, hf_time = 0\<rparr>]\<rparr> else s);
          s = (clear_votes s)\<lparr>current_fork_index := 0\<rparr>;
          height = (if db_height db > window_size s then db_height db - (window_size s - 1) else 1)
      in bindr (rescan_from_chain_height s db height) (\<lambda>(_, s). Inr s))"

definition block_version_at :: "hf_state \<Rightarrow> hf_db \<Rightarrow> u64 \<Rightarrow> u8 result" where
  "block_version_at s db height =
     (if height \<le> original_version_till_height s then Inr (original_version s)
      else bindr (get_block_from_height db height) (\<lambda>b. Inr (get_block_version b)))"

text \<open>
  on_block_popped: one turn per popped height, from the top down; \<open>back()\<close> of an empty window is undefined.
  The heights are unsigned, so the test \<open>height >= 0\<close> of an emptied chain never fails: the next height is
  2^64 - 1, for which the database throws.
\<close>

fun pop_loop :: "hf_state \<Rightarrow> hf_db \<Rightarrow> nat list \<Rightarrow> hf_state result" where
  "pop_loop s db [] = Inr s"
| "pop_loop s db (h # hs) =
     (if versions s = [] then Inl OutOfBounds
      else let v = last (versions s);
               s = s\<lparr>last_versions := (last_versions s)(v := last_versions s v - 1), versions := butlast (versions s)\<rparr>
        in bindr (get_hard_fork_version db (of_nat h)) (\<lambda>v.
             pop_loop (s\<lparr>versions := v # versions s, last_versions := (last_versions s)(v := last_versions s v + 1)\<rparr>)
               db hs))"

fun popped_index :: "hardfork_t list \<Rightarrow> u64 \<Rightarrow> nat \<Rightarrow> nat" where
  "popped_index hs height 0 = 0"
| "popped_index hs height (Suc n) = (if height \<ge> hf_height (hs ! Suc n) then Suc n else popped_index hs height n)"

definition on_block_popped :: "hf_state \<Rightarrow> hf_db \<Rightarrow> u64 \<Rightarrow> hf_state result" where
  "on_block_popped s db nblocks =
     (if nblocks = 0 then Inl Thrown
      else let new_chain_height = db_height db; old_chain_height = new_chain_height + nblocks in
        bindr (pop_loop s db (rev [unat new_chain_height..<Suc (unat (old_chain_height - 1))])) (\<lambda>s.
          if new_chain_height = 0 then Inl Thrown
          else Inr (s\<lparr>current_fork_index := popped_index (heights s) new_chain_height (length (heights s) - 1)\<rparr>)))"

section \<open>Queries\<close>

definition get_state :: "hf_state \<Rightarrow> int \<Rightarrow> fork_status" where
  "get_state s t =
     (if length (heights s) \<le> 1 then Ready
      else let t_last_fork = hf_time (last (heights s)) in
        if t \<ge> t_last_fork + forked_time s then LikelyForked
        else if t \<ge> t_last_fork + update_time s then UpdateNeeded
        else Ready)"

definition get_current_version :: "hf_state \<Rightarrow> u8" where
  "get_current_version s = hf_version (heights s ! current_fork_index s)"

definition get_version :: "hf_state \<Rightarrow> hf_db \<Rightarrow> u64 \<Rightarrow> u8 result" where
  "get_version s db height =
     (if height > db_height db then Inr 255
      else if height = db_height db then Inr (get_current_version s)
      else get_hard_fork_version db height)"

definition get_ideal_version :: "hf_state \<Rightarrow> u8" where
  "get_ideal_version s = hf_version (last (heights s))"

fun ideal_loop :: "hf_state \<Rightarrow> u64 \<Rightarrow> nat \<Rightarrow> u8" where
  "ideal_loop s height 0 = original_version s"
| "ideal_loop s height (Suc n) =
     (if height \<ge> hf_height (heights s ! Suc n) then hf_version (heights s ! Suc n) else ideal_loop s height n)"

definition get_ideal_version_at :: "hf_state \<Rightarrow> u64 \<Rightarrow> u8" where
  "get_ideal_version_at s height = ideal_loop s height (length (heights s) - 1)"

text \<open>The two reverse iterations, over the table from its end.\<close>

fun earliest_loop :: "hardfork_t list \<Rightarrow> u8 \<Rightarrow> u64 \<Rightarrow> u64" where
  "earliest_loop [] version height = height"
| "earliest_loop (f # fs) version height =
     (if hf_version f \<ge> version then earliest_loop fs version (hf_height f) else height)"

definition get_earliest_ideal_height_for_version :: "hf_state \<Rightarrow> u8 \<Rightarrow> u64" where
  "get_earliest_ideal_height_for_version s version = earliest_loop (rev (heights s)) version (- 1)"

fun next_loop :: "hf_state \<Rightarrow> u64 \<Rightarrow> hardfork_t option \<Rightarrow> hardfork_t list \<Rightarrow> u8" where
  "next_loop s height prev [] = original_version s"
| "next_loop s height prev (f # fs) =
     (if height \<ge> hf_height f then (case prev of None \<Rightarrow> hf_version f | Some g \<Rightarrow> hf_version g)
      else next_loop s height (Some f) fs)"

definition get_next_version :: "hf_state \<Rightarrow> hf_db \<Rightarrow> u8" where
  "get_next_version s db = next_loop s (db_height db) None (rev (heights s))"

definition get_voting_info :: "hf_state \<Rightarrow> u8 \<Rightarrow> bool \<times> u32 \<times> u32 \<times> u32 \<times> u64 \<times> u8" where
  "get_voting_info s version =
     (let enabled = (hf_version (heights s ! current_fork_index s) \<ge> version);
          window = (of_nat (length (versions s)) :: u32);
          votes = foldl (\<lambda>v n. v + last_versions s (of_nat n)) 0 [unat version..<256];
          threshold = (window * ucast (hf_threshold (heights s ! current_fork_index s)) + 99) div 100
      in (enabled, window, votes, threshold, get_earliest_ideal_height_for_version s version,
          hf_version (last (heights s))))"


section \<open>The voting window\<close>

text \<open>The fork table add_fork builds: versions, heights and times ascend strictly from version 1 up.\<close>

definition fork_below :: "hardfork_t \<Rightarrow> hardfork_t \<Rightarrow> bool" where
  "fork_below f g \<longleftrightarrow> hf_version f < hf_version g \<and> hf_height f < hf_height g \<and> hf_time f < hf_time g"

definition fork_table :: "hardfork_t list \<Rightarrow> bool" where
  "fork_table fs \<longleftrightarrow> sorted_wrt fork_below fs \<and> (\<forall>f \<in> set fs. hf_version f \<noteq> 0 \<and> hf_threshold f \<le> 100)"

lemma add_fork_table:
  assumes "fork_table (heights s)" "add_fork s v h t tm = (ok, s')"
  shows "fork_table (heights s')"
proof -
  have trans: "transp fork_below" by (auto simp: transp_def fork_below_def)
  have "\<forall>f \<in> set (heights s). fork_below f \<lparr>hf_version = v, hf_height = h, hf_threshold = t, hf_time = tm\<rparr>"
    if "ok"
  proof (cases "heights s = []")
    case False
    let ?g = "\<lparr>hf_version = v, hf_height = h, hf_threshold = t, hf_time = tm\<rparr>"
    have l: "fork_below (last (heights s)) ?g"
      using assms(2) that False by (auto simp: add_fork_def fork_below_def not_le split: if_splits)
    have s: "sorted_wrt fork_below (butlast (heights s) @ [last (heights s)])"
      using assms(1) False by (simp add: fork_table_def)
    show ?thesis
    proof
      fix f assume "f \<in> set (heights s)"
      then have "f \<in> set (butlast (heights s) @ [last (heights s)])" using False by simp
      then have "f = last (heights s) \<or> fork_below f (last (heights s))"
        using s by (auto simp: sorted_wrt_append)
      with l show "fork_below f ?g" using transpD [OF trans] by blast
    qed
  qed simp
  with assms show ?thesis
    by (auto simp: add_fork_def fork_table_def sorted_wrt_append not_less split: if_splits)
qed

lemma fork_table_version_less:
  "fork_table fs \<Longrightarrow> i < j \<Longrightarrow> j < length fs \<Longrightarrow> hf_version (fs ! i) < hf_version (fs ! j)"
  by (auto simp: fork_table_def fork_below_def sorted_wrt_iff_nth_less)

lemma fork_table_version_eq:
  "fork_table fs \<Longrightarrow> i < length fs \<Longrightarrow> j < length fs \<Longrightarrow> hf_version (fs ! i) = hf_version (fs ! j) \<longleftrightarrow> i = j"
  using fork_table_version_less [of fs i j] fork_table_version_less [of fs j i] by (cases i j rule: linorder_cases) auto

text \<open>Versions are nonzero bytes, so a table has at most 255 forks and an index survives \<open>uint8_t\<close>.\<close>

lemma fork_table_length: "fork_table fs \<Longrightarrow> length fs < 256"
proof -
  assume t: "fork_table fs"
  have ge: "i < length fs \<Longrightarrow> i < unat (hf_version (fs ! i))" for i
  proof (induction i)
    case 0
    then have "hf_version (fs ! 0) \<noteq> 0" using t by (simp add: fork_table_def)
    then show ?case by (simp add: unat_gt_0)
  next
    case (Suc i)
    then have "unat (hf_version (fs ! i)) < unat (hf_version (fs ! Suc i))"
      using fork_table_version_less [OF t, of i "Suc i"] by (simp add: word_less_nat_alt)
    with Suc show ?case by simp
  qed
  show ?thesis
  proof (rule ccontr)
    assume "\<not> length fs < 256"
    then have "255 < unat (hf_version (fs ! 255))" using ge [of 255] by simp
    with unat_u8_less [of "hf_version (fs ! 255)"] show False by simp
  qed
qed

definition tallied :: "hf_state \<Rightarrow> bool" where
  "tallied s \<longleftrightarrow> (\<forall>v. last_versions s v = of_nat (count_list (versions s) v))"

lemma tallied_push: "tallied s \<Longrightarrow> tallied (push_version s v)"
  by (auto simp: tallied_def push_version_def)

lemma tallied_clear [simp]: "tallied (clear_votes s)"
  by (simp add: tallied_def clear_votes_def)

lemma evict_eq:
  assumes "0 < window" "length vs < 2 ^ 64" "\<forall>v. lv v = of_nat (count_list vs v)"
  shows "fst (evict window vs lv) = drop (length vs - (unat window - 1)) vs
     \<and> (\<forall>v. snd (evict window vs lv) v = of_nat (count_list (fst (evict window vs lv)) v))"
  using assms
proof (induction vs arbitrary: lv)
  case (Cons x xs)
  have le: "window \<le> of_nat (length (x # xs)) \<longleftrightarrow> unat window \<le> length (x # xs)"
    using Cons.prems(2) by (simp only: word_le_nat_alt) (subst unat_of_nat_small, simp_all)
  show ?case
  proof (cases "unat window \<le> length (x # xs)")
    case True
    have "\<forall>v. (lv(x := lv x - 1)) v = of_nat (count_list xs v)" using Cons.prems(3) by auto
    then have ih: "fst (evict window xs (lv(x := lv x - 1))) = drop (length xs - (unat window - 1)) xs
       \<and> (\<forall>v. snd (evict window xs (lv(x := lv x - 1))) v = of_nat (count_list (fst (evict window xs (lv(x := lv x - 1)))) v))"
      using Cons.prems by (intro Cons.IH) simp_all
    have "0 < unat window" using Cons.prems(1) by (simp add: unat_gt_0)
    then have "length (x # xs) - (unat window - 1) = Suc (length xs - (unat window - 1))" using True by simp
    with ih True le show ?thesis by (simp only: evict.simps if_True drop_Suc_Cons) simp
  next
    case False
    with le Cons.prems(3) show ?thesis by simp
  qed
qed simp


definition votes_of :: "hf_state \<Rightarrow> hf_block list \<Rightarrow> u8 list" where
  "votes_of s bs = map (\<lambda>b. get_effective_version s (get_block_vote b)) bs"

text \<open>
  Adding a block to a state that remembers the last window of a chain: the new state remembers the
  last window of the longer chain, counts it exactly, and its fork index only rises.
\<close>

definition remembers :: "hf_state \<Rightarrow> hf_block list \<Rightarrow> bool" where
  "remembers s bs \<longleftrightarrow> 0 < window_size s \<and> fork_table (heights s) \<and> tallied s
     \<and> versions s = last_n (unat (window_size s)) (votes_of s bs) \<and> current_fork_index s < length (heights s)"

lemma voted_loop_range:
  "current_fork_index s < length (heights s) \<Longrightarrow> n \<le> length (heights s) \<Longrightarrow> voted_loop s h n acc < length (heights s)"
  by (induction n arbitrary: acc) (auto simp: Let_def)

lemma voted_range:
  "current_fork_index s < length (heights s) \<Longrightarrow> get_voted_fork_index s h < length (heights s)"
  by (simp add: get_voted_fork_index_def voted_loop_range)

lemma raise_index_eq:
  "fork_table (heights s) \<Longrightarrow> current_fork_index s < length (heights s) \<Longrightarrow>
   raise_index s h = s\<lparr>current_fork_index := max (current_fork_index s) (get_voted_fork_index s h)\<rparr>"
  using voted_range [of s h] fork_table_length [of "heights s"]
  by (simp add: raise_index_def Let_def max_def)

lemma push_fields [simp]:
  "heights (push_version s v) = heights s" "window_size (push_version s v) = window_size s"
  "current_fork_index (push_version s v) = current_fork_index s" "versions (push_version s v) = versions s @ [v]"
  "original_version (push_version s v) = original_version s"
  "get_effective_version (push_version s v) = get_effective_version s"
  by (auto simp: push_version_def get_effective_version_def)

lemma effective_cong: "heights s = heights s' \<Longrightarrow> get_effective_version s = get_effective_version s'"
  by (auto simp: get_effective_version_def fun_eq_iff)

lemma votes_of_cong: "heights s = heights s' \<Longrightarrow> votes_of s bs = votes_of s' bs"
  using effective_cong [of s s'] by (simp add: votes_of_def)


lemma votes_of_fields [simp]:
  "votes_of (s\<lparr>current_fork_index := k\<rparr>) bs = votes_of s bs"
  "votes_of (s\<lparr>versions := vs, last_versions := lv\<rparr>) bs = votes_of s bs"
  by (rule votes_of_cong, simp)+

definition voted_up :: "hf_state \<Rightarrow> u64 \<Rightarrow> hf_state" where
  "voted_up s h = s\<lparr>current_fork_index := max (current_fork_index s) (get_voted_fork_index s h)\<rparr>"

text \<open>Two states of one HardFork object: everything but the votes and the index agrees.\<close>

definition same_config :: "hf_state \<Rightarrow> hf_state \<Rightarrow> bool" where
  "same_config s s' \<longleftrightarrow> forked_time s' = forked_time s \<and> update_time s' = update_time s
     \<and> window_size s' = window_size s \<and> default_threshold_percent s' = default_threshold_percent s
     \<and> original_version s' = original_version s \<and> original_version_till_height s' = original_version_till_height s
     \<and> heights s' = heights s"

lemma same_config_trans: "same_config s s' \<Longrightarrow> same_config s' s'' \<Longrightarrow> same_config s s''"
  by (simp add: same_config_def)

lemma same_configD:
  assumes "same_config s s'"
  shows "heights s' = heights s" "window_size s' = window_size s" "original_version s' = original_version s"
    "votes_of s' bs = votes_of s bs"
  using assms votes_of_cong [of s' s] by (simp_all add: same_config_def)

lemma same_config_simps [simp]:
  "same_config s s" "same_config s (clear_votes s')  = same_config s s'"
  "same_config s (s'\<lparr>current_fork_index := k\<rparr>) = same_config s s'"
  "same_config s (s'\<lparr>versions := vs, last_versions := lv\<rparr>) = same_config s s'"
  "same_config s (push_version s' v) = same_config s s'"
  "same_config s (voted_up s' h) = same_config s s'"
  by (simp_all add: same_config_def clear_votes_def push_version_def voted_up_def)

lemma same_config_eqI:
  assumes "same_config s0 s" "same_config s0 s'" "tallied s" "tallied s'" "versions s = versions s'"
    "current_fork_index s = current_fork_index s'"
  shows "s = s'"
proof -
  have "last_versions s = last_versions s'" using assms(3-5) by (auto simp: tallied_def fun_eq_iff)
  then show ?thesis using assms(1,2,5,6) by (auto simp: same_config_def intro: hf_state.equality)
qed

lemma add_block_out:
  assumes "add_block s db b h = (True, s', db')" "evict (window_size s) (versions s) (last_versions s) = (vs, lv)"
  shows "s' = raise_index (push_version (s\<lparr>versions := vs, last_versions := lv\<rparr>)
            (get_effective_version s (get_block_vote b))) (h + 1)
     \<and> db' = set_hard_fork_version db h (hf_version (heights s ! current_fork_index s))
     \<and> do_check s (get_block_version b) (get_block_vote b)"
  using assms unfolding add_block_def add_versions_def by (simp add: Let_def split: if_splits)

lemma add_block_remembers:
  assumes "remembers s bs" "add_block s db b h = (True, s', db')" "length bs < 2 ^ 62"
  shows "remembers s' (bs @ [b]) \<and> current_fork_index s \<le> current_fork_index s'
     \<and> db' = set_hard_fork_version db h (hf_version (heights s ! current_fork_index s))
     \<and> (\<exists>s1. s' = voted_up s1 (h + 1) \<and> remembers s1 (bs @ [b]) \<and>
            same_config s s1 \<and> current_fork_index s1 = current_fork_index s)"
proof -
  let ?w = "unat (window_size s)" and ?v = "get_effective_version s (get_block_vote b)"
  have r: "0 < window_size s" "fork_table (heights s)" "tallied s" "versions s = last_n ?w (votes_of s bs)"
    "current_fork_index s < length (heights s)"
    using assms(1) by (simp_all add: remembers_def)
  have w: "0 < ?w" using r(1) by (simp add: unat_gt_0)
  obtain vs lv where e: "evict (window_size s) (versions s) (last_versions s) = (vs, lv)" by (cases "evict (window_size s) (versions s) (last_versions s)")
  have "length (versions s) \<le> length bs" by (simp add: r(4) last_n_def votes_of_def)
  then have "length (versions s) < 2 ^ 64" using assms(3) by simp
  moreover have "\<forall>v. last_versions s v = of_nat (count_list (versions s) v)" using r(3) by (simp add: tallied_def)
  ultimately have ev: "fst (evict (window_size s) (versions s) (last_versions s)) = drop (length (versions s) - (?w - 1)) (versions s)
     \<and> (\<forall>v. snd (evict (window_size s) (versions s) (last_versions s)) v =
          of_nat (count_list (fst (evict (window_size s) (versions s) (last_versions s))) v))"
    by (rule evict_eq [OF r(1)])
  have vs: "vs = last_n (?w - 1) (versions s)" "\<forall>v. lv v = of_nat (count_list vs v)"
    using ev unfolding e last_n_def by simp_all
  have "vs @ [?v] = last_n ?w (votes_of s bs @ [?v])"
    using w by (simp add: vs(1) r(4) last_n_last_n last_n_snoc)
  define s1 where "s1 = push_version (s\<lparr>versions := vs, last_versions := lv\<rparr>) ?v"
  have s1: "heights s1 = heights s" "window_size s1 = window_size s" "current_fork_index s1 = current_fork_index s"
    "versions s1 = vs @ [?v]"
    by (simp_all add: s1_def push_version_def)
  have only: "same_config s s1" by (simp add: s1_def)
  have "tallied (s\<lparr>versions := vs, last_versions := lv\<rparr>)" using vs(2) by (simp add: tallied_def)
  then have t1: "tallied s1" unfolding s1_def by (rule tallied_push)
  have rem: "remembers s1 (bs @ [b])"
    using r t1 s1 \<open>vs @ [?v] = _\<close> votes_of_cong [OF s1(1)]
    by (simp add: remembers_def) (simp add: votes_of_def)
  have out: "s' = raise_index s1 (h + 1)" "db' = set_hard_fork_version db h (hf_version (heights s ! current_fork_index s))"
    using add_block_out [OF assms(2) e] by (simp_all only: s1_def)
  have "s' = voted_up s1 (h + 1)"
    using raise_index_eq [of s1 "h + 1"] r s1 out(1) by (simp add: voted_up_def)
  moreover have "remembers (voted_up s1 (h + 1)) (bs @ [b])"
    using rem voted_range [of s1 "h + 1"] by (simp add: remembers_def voted_up_def tallied_def)
  moreover have "current_fork_index s \<le> current_fork_index (voted_up s1 (h + 1))" by (simp add: voted_up_def s1(3))
  ultimately show ?thesis using rem only s1(3) out(2) by blast
qed


section \<open>A chain and its votes\<close>

definition start_votes :: "hf_state \<Rightarrow> hf_state" where
  "start_votes s = (clear_votes s)\<lparr>current_fork_index := 0\<rparr>"

lemma start_config [simp]: "same_config s (start_votes s)"
  by (simp add: start_votes_def)

definition empty_hf_db :: hf_db where
  "empty_hf_db = \<lparr>db_blocks = [], db_versions = Map.empty\<rparr>"

definition voting_config :: "hf_state \<Rightarrow> bool" where
  "voting_config s \<longleftrightarrow> 0 < window_size s \<and> fork_table (heights s) \<and> heights s \<noteq> []"

text \<open>A node's chain as BlockchainDB::add_block grows it: the votes are updated, then the block is there.\<close>

inductive grown :: "hf_state \<Rightarrow> hf_state \<Rightarrow> hf_db \<Rightarrow> bool" for s0 where
  empty: "grown s0 (start_votes s0) empty_hf_db"
| block: "grown s0 s db \<Longrightarrow> length (db_blocks db) < 2 ^ 61 \<Longrightarrow>
    add_block s db b (db_height db) = (True, s', db') \<Longrightarrow>
    grown s0 s' (db'\<lparr>db_blocks := db_blocks db' @ [b]\<rparr>)"

text \<open>The state before the last vote was counted into the index.\<close>

definition grown_inv :: "hf_state \<Rightarrow> hf_state \<Rightarrow> hf_db \<Rightarrow> bool" where
  "grown_inv s0 s db \<longleftrightarrow> remembers s (db_blocks db) \<and> same_config s0 s \<and> length (db_blocks db) \<le> 2 ^ 61
     \<and> (if db_blocks db = [] then s = start_votes s0
        else \<exists>s1. s = voted_up s1 (db_height db) \<and> remembers s1 (db_blocks db) \<and> same_config s0 s1
               \<and> db_versions db (length (db_blocks db) - 1) = Some (hf_version (heights s1 ! current_fork_index s1))
               \<and> (length (db_blocks db) = 1 \<longrightarrow> current_fork_index s1 = 0))"

lemma unat_db_height: "length (db_blocks db) \<le> 2 ^ 61 \<Longrightarrow> unat (db_height db) = length (db_blocks db)"
  by (simp add: db_height_def unat_of_nat_small)

lemma start_remembers: "voting_config s0 \<Longrightarrow> remembers (start_votes s0) []"
  by (simp add: remembers_def voting_config_def start_votes_def clear_votes_def last_n_def votes_of_def tallied_def)

lemma grown_step:
  assumes "grown_inv s0 s db" "length (db_blocks db) < 2 ^ 61" "add_block s db b (db_height db) = (True, s', db')"
  shows "grown_inv s0 s' (db'\<lparr>db_blocks := db_blocks db' @ [b]\<rparr>) \<and> current_fork_index s \<le> current_fork_index s'
    \<and> db' = set_hard_fork_version db (db_height db) (hf_version (heights s ! current_fork_index s))"
proof -
  let ?n = "length (db_blocks db)"
  have rem: "remembers s (db_blocks db)" using assms(1) by (simp add: grown_inv_def)
  have "?n < 2 ^ 62" using assms(2) by simp
  then obtain s1 where r: "remembers s' (db_blocks db @ [b])" "current_fork_index s \<le> current_fork_index s'"
    "db' = set_hard_fork_version db (db_height db) (hf_version (heights s ! current_fork_index s))"
    "s' = voted_up s1 (db_height db + 1)" "remembers s1 (db_blocks db @ [b])"
    "same_config s s1" "current_fork_index s1 = current_fork_index s"
    using add_block_remembers [OF rem assms(3)] by blast
  have c: "current_fork_index s1 = current_fork_index s" "heights s1 = heights s"
    using r(6,7) by (simp_all add: same_config_def)
  have sc: "same_config s0 s1"
    using assms(1) r(6) by (auto simp: grown_inv_def intro: same_config_trans)
  have u: "unat (db_height db) = ?n" using assms(2) by (intro unat_db_height) simp
  let ?db = "db'\<lparr>db_blocks := db_blocks db' @ [b]\<rparr>"
  have h: "db_height ?db = db_height db + 1" by (simp add: db_height_def r(3) set_hard_fork_version_def)
  have b: "db_blocks ?db = db_blocks db @ [b]" by (simp add: r(3) set_hard_fork_version_def)
  have v: "db_versions ?db ?n = Some (hf_version (heights s1 ! current_fork_index s1))"
    by (simp add: r(3) set_hard_fork_version_def u c)
  have "length (db_blocks ?db) = 1 \<longrightarrow> current_fork_index s1 = 0"
    using assms(1) by (auto simp: b c grown_inv_def start_votes_def)
  then have "grown_inv s0 s' ?db"
    using r(1,4,5) sc h b v assms(2) by (auto simp: grown_inv_def)
  with r(2,3) show ?thesis by blast
qed

lemma grown_inv:
  assumes "voting_config s0" "grown s0 s db"
  shows "grown_inv s0 s db"
  using assms(2)
proof induction
  case empty
  then show ?case using start_remembers [OF assms(1)] by (simp add: grown_inv_def empty_hf_db_def)
next
  case (block s db b s' db')
  then show ?case using grown_step by blast
qed

text \<open>Scanning blocks a to b.\<close>

lemma scan_blocks_eq:
  assumes "\<forall>h \<in> set hs. h < length (db_blocks db)" "length (db_blocks db) \<le> 2 ^ 61"
  shows "\<exists>s'. scan_blocks s db hs = Inr s' \<and> (tallied s \<longrightarrow> tallied s') \<and> same_config s s'
     \<and> current_fork_index s' = current_fork_index s
     \<and> versions s' = versions s @ votes_of s (map ((!) (db_blocks db)) hs)"
  using assms(1)
proof (induction hs arbitrary: s)
  case Nil
  then show ?case by (simp add: votes_of_def)
next
  case (Cons h hs)
  let ?b = "db_blocks db ! h" and ?s = "push_version s (get_effective_version s (get_block_vote (db_blocks db ! h)))"
  have "h < 2 ^ 64" using Cons.prems assms(2) by fastforce
  then have "get_block_from_height db (of_nat h) = Inr ?b"
    using Cons.prems by (simp add: get_block_from_height_def unat_of_nat_small)
  then have e: "scan_blocks s db (h # hs) = scan_blocks ?s db hs" by simp
  obtain s' where s': "scan_blocks ?s db hs = Inr s'" "tallied ?s \<longrightarrow> tallied s'" "same_config ?s s'"
    "current_fork_index s' = current_fork_index ?s" "versions s' = versions ?s @ votes_of ?s (map ((!) (db_blocks db)) hs)"
    using Cons.IH [of ?s] Cons.prems by auto
  have "same_config s s'" using s'(3) by (auto intro: same_config_trans [of s ?s])
  moreover have "versions s' = versions s @ votes_of s (map ((!) (db_blocks db)) (h # hs))"
    using s'(5) votes_of_cong [of ?s s] by (simp add: votes_of_def)
  ultimately show ?case using e s'(1,2,4) tallied_push [of s] by auto
qed

lemma map_nth_upt: "b \<le> length xs \<Longrightarrow> map ((!) xs) [a..<b] = drop a (take b xs)"
  by (rule nth_equalityI) auto

lemma forward_to_version: "fork_table fs \<Longrightarrow> c < length fs \<Longrightarrow> forward_to fs (hf_version (fs ! c)) = c"
proof (induction fs "hf_version (fs ! c)" arbitrary: c rule: forward_to.induct)
  case (3 f g fs)
  show ?case
  proof (cases c)
    case (Suc d)
    have t: "fork_table (g # fs)" using 3(2) by (simp add: fork_table_def)
    have "hf_version f \<noteq> hf_version ((f # g # fs) ! c)"
      using fork_table_version_eq [OF 3(2), of 0 c] 3(3) Suc by simp
    with 3(1) [of d] t 3(3) Suc show ?thesis by simp
  qed simp
qed simp_all

lemma back_to_version:
  "fork_table fs \<Longrightarrow> c \<le> i \<Longrightarrow> i < length fs \<Longrightarrow> back_to fs (hf_version (fs ! c)) i = c"
proof (induction i)
  case (Suc i)
  show ?case
  proof (cases "c = Suc i")
    case False
    then have "hf_version (fs ! c) < hf_version (fs ! Suc i)"
      using fork_table_version_less [OF Suc.prems(1), of c "Suc i"] Suc.prems by simp
    with Suc False show ?thesis by simp
  qed simp
qed simp

lemma raise_index_grown:
  assumes "voting_config s0" "same_config s0 s" "current_fork_index s < length (heights s0)"
  shows "raise_index s h = voted_up s h"
  using assms same_configD [OF assms(2)] by (simp add: raise_index_eq voted_up_def voting_config_def)


text \<open>
  Rebuilding: a scan of the last window of a chain from cleared votes, the index set to where it was
  before the last vote, and the vote counted again, gives back the state the chain was grown to.
\<close>

lemma rebuild_state:
  assumes "voting_config s0" "grown_inv s0 s db" "db_blocks db \<noteq> []"
    and "same_config s0 t" "versions t = last_n (unat (window_size s0)) (votes_of s0 (db_blocks db))" "tallied t"
  shows "\<exists>c. db_versions db (length (db_blocks db) - 1) = Some (hf_version (heights s0 ! c))
     \<and> c < length (heights s0) \<and> c \<le> current_fork_index s \<and> (length (db_blocks db) = 1 \<longrightarrow> c = 0)
     \<and> raise_index (t\<lparr>current_fork_index := c\<rparr>) (db_height db) = s"
proof -
  obtain s1 where s1: "s = voted_up s1 (db_height db)" "remembers s1 (db_blocks db)" "same_config s0 s1"
    "db_versions db (length (db_blocks db) - 1) = Some (hf_version (heights s1 ! current_fork_index s1))"
    "length (db_blocks db) = 1 \<longrightarrow> current_fork_index s1 = 0"
    using assms(2,3) by (auto simp: grown_inv_def)
  note c = same_configD [OF s1(3)]
  have "t\<lparr>current_fork_index := current_fork_index s1\<rparr> = s1"
    using assms(4-6) s1(2,3) c by (intro same_config_eqI [of s0]) (simp_all add: remembers_def tallied_def)
  moreover have lt: "current_fork_index s1 < length (heights s0)" using s1(2) c by (simp add: remembers_def)
  ultimately have "raise_index (t\<lparr>current_fork_index := current_fork_index s1\<rparr>) (db_height db) = s"
    using raise_index_grown [OF assms(1) s1(3)] s1(1) by simp
  moreover have "current_fork_index s1 \<le> current_fork_index s" using s1(1) by (simp add: voted_up_def)
  ultimately show ?thesis using s1(4,5) lt c(1) by (intro exI [of _ "current_fork_index s1"]) simp
qed

lemma scan_window:
  assumes "voting_config s0" "same_config s0 t" "versions t = []" "tallied t" "length (db_blocks db) \<le> 2 ^ 61"
    and "a = length (db_blocks db) - unat (window_size s0)"
  shows "\<exists>t'. scan_blocks t db [a..<length (db_blocks db)] = Inr t' \<and> same_config s0 t' \<and> tallied t'
     \<and> current_fork_index t' = current_fork_index t
     \<and> versions t' = last_n (unat (window_size s0)) (votes_of s0 (db_blocks db))"
proof -
  obtain t' where t': "scan_blocks t db [a..<length (db_blocks db)] = Inr t'" "tallied t'" "same_config t t'"
    "current_fork_index t' = current_fork_index t"
    "versions t' = votes_of t (map ((!) (db_blocks db)) [a..<length (db_blocks db)])"
    using scan_blocks_eq [of "[a..<length (db_blocks db)]" db t] assms(3-5) by auto
  have "versions t' = last_n (unat (window_size s0)) (votes_of s0 (db_blocks db))"
    using t'(5) same_configD [OF assms(2)]
    by (simp add: map_nth_upt last_n_def votes_of_def drop_map assms(6) del: map_map)
  with t' same_config_trans [OF assms(2) t'(3)] show ?thesis by blast
qed

text \<open>What both rebuilders of the votes use: a scan of the last window from cleared votes, whatever the fork
  index is meanwhile, then the index of the last recorded version, then one more count of the votes.\<close>

lemma window_restored:
  assumes "voting_config s0" "grown s0 s dk" "db_blocks dk \<noteq> []" "db_blocks db = db_blocks dk"
  obtains i where "db_versions dk (length (db_blocks dk) - 1) = Some (hf_version (heights s0 ! i))"
    "i < length (heights s0)" "i \<le> current_fork_index s" "length (db_blocks dk) = 1 \<longrightarrow> i = 0"
    "\<forall>u. same_config s0 u \<and> versions u = [] \<and> tallied u \<longrightarrow>
       (\<exists>t. scan_blocks u db [length (db_blocks dk) - unat (window_size s0)..<length (db_blocks dk)] = Inr t
         \<and> heights t = heights s0 \<and> current_fork_index t = current_fork_index u
         \<and> raise_index (t\<lparr>current_fork_index := i\<rparr>) (db_height dk) = s)"
proof -
  note inv = grown_inv [OF assms(1,2)]
  let ?v = "last_n (unat (window_size s0)) (votes_of s0 (db_blocks dk))"
  have scan: "\<exists>t. scan_blocks u db [length (db_blocks dk) - unat (window_size s0)..<length (db_blocks dk)] = Inr t
       \<and> same_config s0 t \<and> tallied t \<and> current_fork_index t = current_fork_index u \<and> versions t = ?v"
    if "same_config s0 u" "versions u = []" "tallied u" for u
    using scan_window [OF assms(1) that, of db] inv by (simp add: assms(4) grown_inv_def)
  have "same_config s0 (clear_votes s0)" by (simp add: clear_votes_def)
  then obtain t0 where t0: "same_config s0 t0" "versions t0 = ?v" "tallied t0"
    using scan [of "clear_votes s0"] by (auto simp: clear_votes_def tallied_def)
  obtain i where i: "db_versions dk (length (db_blocks dk) - 1) = Some (hf_version (heights s0 ! i))"
    "i < length (heights s0)" "i \<le> current_fork_index s" "length (db_blocks dk) = 1 \<longrightarrow> i = 0"
    "raise_index (t0\<lparr>current_fork_index := i\<rparr>) (db_height dk) = s"
    using rebuild_state [OF assms(1) inv assms(3) t0] by blast
  have "t\<lparr>current_fork_index := i\<rparr> = t0\<lparr>current_fork_index := i\<rparr>"
    if "same_config s0 t" "tallied t" "versions t = ?v" for t
    using that t0 by (intro same_config_eqI [of s0]) (simp_all add: tallied_def)
  then have "\<forall>u. same_config s0 u \<and> versions u = [] \<and> tallied u \<longrightarrow>
       (\<exists>t. scan_blocks u db [length (db_blocks dk) - unat (window_size s0)..<length (db_blocks dk)] = Inr t
         \<and> heights t = heights s0 \<and> current_fork_index t = current_fork_index u
         \<and> raise_index (t\<lparr>current_fork_index := i\<rparr>) (db_height dk) = s)"
    using scan i(5) same_configD(1) by metis
  with that [OF i(1-4)] show ?thesis .
qed

lemma scan_first_height:
  assumes "0 < (w :: u64)"
  shows "unat ((if n > w then n - (w - 1) else 1) - 1) = unat n - unat w" "(if n > w then n - (w - 1) else 1) \<noteq> 0"
proof -
  have w: "0 < unat w" using assms by (simp add: unat_gt_0)
  let ?h = "if n > w then n - (w - 1) else 1"
  have "unat (w - 1) = unat w - 1" using w by (subst unat_sub_le) (simp_all add: word_le_nat_alt)
  then have hn: "unat ?h = (if unat w < unat n then unat n - (unat w - 1) else 1)"
    by (auto simp: word_less_nat_alt unat_sub_le word_le_nat_alt)
  then have "1 \<le> unat ?h" using w by (cases "unat w < unat n") (simp_all add: Suc_le_eq)
  then show "unat (?h - 1) = unat n - unat w" "?h \<noteq> 0"
    using hn w by (auto simp: unat_sub_le word_le_nat_alt)
qed

lemma init_restores:
  assumes "voting_config s0" "grown s0 s db"
  shows "hf_init s0 db = Inr s"
proof -
  note inv = grown_inv [OF assms]
  let ?t = "(clear_votes s0)\<lparr>current_fork_index := 0\<rparr>" and ?n = "length (db_blocks db)" and ?w = "unat (window_size s0)"
  define h where "h = (if db_height db > window_size s0 then db_height db - (window_size s0 - 1) else 1)"
  have i: "hf_init s0 db = bindr (rescan_from_chain_height ?t db h) (\<lambda>(_, s). Inr s)"
    using assms(1) by (simp add: hf_init_def voting_config_def h_def clear_votes_def)
  have u: "unat (db_height db) = ?n" using inv by (intro unat_db_height) (simp add: grown_inv_def)
  have pos: "0 < window_size s0" using assms(1) by (simp add: voting_config_def)
  then have w: "0 < ?w" by (simp add: unat_gt_0)
  note h1 = scan_first_height [OF pos, of "db_height db", folded h_def, unfolded u]
  show ?thesis
  proof (cases "db_blocks db = []")
    case True
    then have "s = start_votes s0" "db_height db = 0" using inv by (simp_all add: grown_inv_def db_height_def)
    then show ?thesis
      using i h1 by (simp add: rescan_from_chain_height_def rescan_from_block_height_def start_votes_def)
  next
    case False
    have clear: "clear_votes ?t = ?t" "same_config s0 ?t" "versions ?t = []" "tallied ?t"
      by (simp_all add: clear_votes_def tallied_def)
    obtain c t' where c: "db_versions db (?n - 1) = Some (hf_version (heights s0 ! c))" "c < length (heights s0)"
      "scan_blocks ?t db [?n - ?w..<?n] = Inr t'" "heights t' = heights s0"
      "raise_index (t'\<lparr>current_fork_index := c\<rparr>) (db_height db) = s"
      using window_restored [OF assms False refl] clear(2-4) by metis
    have "unat (db_height db - 1) = ?n - 1" using False u by (subst unat_sub_le) (auto simp: word_le_nat_alt Suc_le_eq)
    then have lv: "get_hard_fork_version db (db_height db - 1) = Inr (hf_version (heights s0 ! c))"
      using c(1) by (simp add: get_hard_fork_version_def)
    have f: "forward_to (heights t') (hf_version (heights s0 ! c)) = c"
      using assms(1) c(2,4) by (simp add: forward_to_version voting_config_def)
    have "0 < ?n" using False by simp
    then have "\<not> h - 1 \<ge> db_height db" using h1 w unfolding word_le_nat_alt u by linarith
    then have "rescan_from_chain_height ?t db h = Inr (True, s)"
      using h1 c(3,5) lv f unfolding rescan_from_chain_height_def rescan_from_block_height_def clear(1)
      by (simp add: u)
    with i show ?thesis by simp
  qed
qed


lemma grown_prefix:
  assumes "voting_config s0" "grown s0 s db" "k \<le> length (db_blocks db)"
  shows "\<exists>sk m. grown s0 sk \<lparr>db_blocks = take k (db_blocks db), db_versions = m\<rparr>
     \<and> current_fork_index sk \<le> current_fork_index s \<and> (\<forall>j < k. m j = db_versions db j)"
  using assms(2,3)
proof (induction arbitrary: k)
  case empty
  show ?case
    using grown.empty [of s0] by (intro exI [of _ "start_votes s0"] exI [of _ Map.empty]) (simp add: empty_hf_db_def)
next
  case (block s db b s' db')
  let ?db = "db'\<lparr>db_blocks := db_blocks db' @ [b]\<rparr>"
  have st: "current_fork_index s \<le> current_fork_index s'"
    "db' = set_hard_fork_version db (db_height db) (hf_version (heights s ! current_fork_index s))"
    using grown_step [OF grown_inv [OF assms(1) block.hyps(1)] block.hyps(2,3)] by simp_all
  have b: "db_blocks db' = db_blocks db" by (simp add: st(2) set_hard_fork_version_def)
  show ?case
  proof (cases "k \<le> length (db_blocks db)")
    case True
    then obtain sk m where "grown s0 sk \<lparr>db_blocks = take k (db_blocks db), db_versions = m\<rparr>"
      "current_fork_index sk \<le> current_fork_index s" "\<forall>j < k. m j = db_versions db j"
      using block.IH by blast
    moreover have "unat (db_height db) = length (db_blocks db)"
      using block.hyps(2) by (intro unat_db_height) simp
    ultimately show ?thesis
      using st True
      by (intro exI [of _ sk] exI [of _ m]) (auto simp: b set_hard_fork_version_def)
  next
    case False
    then have "take k (db_blocks ?db) = db_blocks ?db" using block.prems b by simp
    moreover have "grown s0 s' \<lparr>db_blocks = db_blocks ?db, db_versions = db_versions ?db\<rparr>"
      using grown.block [OF block.hyps] by (cases db') simp
    ultimately show ?thesis by (intro exI [of _ s'] exI [of _ "db_versions ?db"]) simp
  qed
qed

section \<open>Properties of the voting\<close>

text \<open>C28: The votes are a window over the chain: however a chain is grown, the deque holds exactly the effective
  votes of its last window_size blocks, the 256 counters count them, and the current fork is one of
  the table.\<close>

theorem votes_are_last_window:
  assumes "voting_config s0" "grown s0 s db"
  shows "versions s = last_n (unat (window_size s0)) (map (\<lambda>b. get_effective_version s0 (get_block_vote b)) (db_blocks db))
     \<and> (\<forall>v. last_versions s v = of_nat (count_list (versions s) v))
     \<and> current_fork_index s < length (heights s0)"
proof -
  have i: "remembers s (db_blocks db)" "same_config s0 s" using grown_inv [OF assms] by (simp_all add: grown_inv_def)
  note c = same_configD [OF i(2)]
  have "versions s = last_n (unat (window_size s0)) (votes_of s0 (db_blocks db))"
    using i(1) by (simp add: remembers_def c(2,4))
  moreover have "tallied s" "current_fork_index s < length (heights s0)" using i(1) by (simp_all add: remembers_def c(1))
  ultimately show ?thesis by (simp add: tallied_def votes_of_def)
qed

text \<open>C29: A restart loses nothing of a chain that has only grown: a HardFork object built afresh with the same table and
  initialised from the database of a node whose chain was grown block by block, with none popped, has exactly the
  state the node's object had. After a pop from a chain no longer than the window it has not
  (pop_leaves_stale_votes), until the votes are rebuilt (reorganize_replays).\<close>

theorem init_restores_state:
  assumes "voting_config s0" "grown s0 s db"
  shows "hf_init s0 db = Inr s"
  using assms by (rule init_restores)

text \<open>
  Popping a block gives the window the recorded version of that block, where the window should lose a vote or take in
  that of an older block. So on a chain no longer than the window a popped node counts as many votes as
  before, and a restart on the same database changes its state. Blockchain::pop_blocks, behind the daemon's
  pop_blocks command, ends there; a switch of chains rebuilds the votes.
\<close>

lemma init_votes_length:
  assumes "voting_config s0" "hf_init s0 db = Inr s" "length (db_blocks db) \<le> 2 ^ 61"
  shows "length (versions s) \<le> length (db_blocks db)"
proof -
  have u: "unat (db_height db) = length (db_blocks db)" using assms(3) by (intro unat_db_height) simp
  have raise: "versions (raise_index t h) = versions t" for t h by (simp add: raise_index_def Let_def)
  have scan: "length (versions t) \<le> length (db_blocks db)"
    if "scan_blocks r db [a..<length (db_blocks db)] = Inr t" "versions r = []" for r t a
    using scan_blocks_eq [of "[a..<length (db_blocks db)]" db r] assms(3) that by (auto simp: votes_of_def)
  show ?thesis
    using assms(1,2) scan
    by (auto simp: hf_init_def voting_config_def rescan_from_chain_height_def rescan_from_block_height_def u raise
        clear_votes_def bindr_Inr_iff Let_def split: if_splits)
qed

theorem pop_leaves_stale_votes:
  assumes "voting_config s0" "grown s0 s db" "1 < length (db_blocks db)" "length (db_blocks db) \<le> unat (window_size s0)"
  shows "\<exists>v s'. get_hard_fork_version db (db_height db - 1) = Inr v
     \<and> on_block_popped s (db\<lparr>db_blocks := butlast (db_blocks db)\<rparr>) 1 = Inr s' \<and> versions s' = v # butlast (versions s)
     \<and> hf_init s0 (db\<lparr>db_blocks := butlast (db_blocks db)\<rparr>) \<noteq> Inr s'"
proof -
  let ?n = "length (db_blocks db)" and ?db = "db\<lparr>db_blocks := butlast (db_blocks db)\<rparr>"
  note inv = grown_inv [OF assms(1,2)]
  have n: "?n \<le> 2 ^ 61" using inv by (simp add: grown_inv_def)
  have u: "unat (db_height db) = ?n" "unat (db_height ?db) = ?n - 1"
    using n by (simp_all add: unat_db_height)
  have h: "db_height db - 1 = db_height ?db" "db_height ?db + 1 - 1 = db_height ?db"
    using assms(3) by (cases "db_blocks db" rule: rev_cases) (simp_all add: db_height_def)
  have "db_blocks db \<noteq> []" using assms(3) by auto
  then obtain v where v: "get_hard_fork_version db (db_height db - 1) = Inr v"
    using inv u h by (auto simp: grown_inv_def get_hard_fork_version_def)
  have vs: "length (versions s) = ?n"
    using inv assms(3,4) by (auto simp: grown_inv_def remembers_def votes_of_def last_n_def same_config_def)
  have "db_height ?db \<noteq> 0" using u(2) assms(3) by (metis less_numeral_extra(3) unat_0 zero_less_diff)
  moreover define m where "m = ?n - 1"
  moreover have "get_hard_fork_version ?db (of_nat m) = Inr v"
  proof -
    have "of_nat m = db_height ?db" by (simp add: m_def db_height_def)
    then show ?thesis using v unfolding h(1) by (simp add: get_hard_fork_version_def)
  qed
  moreover have "versions s \<noteq> []" using vs assms(3) by auto
  ultimately obtain s' where s': "on_block_popped s ?db 1 = Inr s'" "versions s' = v # butlast (versions s)"
    unfolding on_block_popped_def Let_def h(2) u(2) m_def [symmetric] by (simp add: Let_def)
  have "length (versions s') = ?n" using s'(2) vs assms(3) by simp
  moreover have "length (versions t) \<le> ?n - 1" if "hf_init s0 ?db = Inr t" for t
    using init_votes_length [OF assms(1) that] n by simp
  ultimately have "hf_init s0 ?db \<noteq> Inr s'" using assms(3) by fastforce
  with v s' show ?thesis by blast
qed

lemma back_to_original:
  assumes "voting_config s0" "original_version s0 \<le> hf_version (hd (heights s0))" "j < length (heights s0)"
  shows "back_to (heights s0) (original_version s0) j = 0"
  using assms(3)
proof (induction j)
  case (Suc j)
  have "fork_table (heights s0)" using assms(1) by (simp add: voting_config_def)
  then have "hf_version (heights s0 ! 0) < hf_version (heights s0 ! Suc j)"
    using Suc.prems by (intro fork_table_version_less) simp_all
  moreover have "original_version s0 \<le> hf_version (heights s0 ! 0)"
    using assms(1,2) by (simp add: voting_config_def hd_conv_nth)
  ultimately show ?case using Suc by simp
qed simp

lemma rescan_start:
  assumes "0 < (w :: u64)" "unat (h :: u64) = k - 1" "0 < k"
  shows "unat (if h \<ge> w - 1 then h - (w - 1) else 0) = k - unat w"
proof -
  have w: "0 < unat w" using assms(1) by (simp add: unat_gt_0)
  have "unat (w - 1) = unat w - 1" using w by (subst unat_sub_le) (simp_all add: word_le_nat_alt)
  then show ?thesis using w assms(2,3) by (simp add: word_le_nat_alt unat_sub_le)
qed

lemma reorganize_eq:
  assumes "k = length (db_blocks db)" "0 < k" "k \<le> 2 ^ 61" "0 < window_size s"
    and "(if k = 1 then Inr (original_version s) else get_hard_fork_version db (of_nat k - 1)) = Inr start"
    and "scan_blocks ((clear_votes s)\<lparr>current_fork_index := back_to (heights s) start (current_fork_index s)\<rparr>) db
           [k - unat (window_size s)..<k] = Inr t"
  shows "reorganize_from_chain_height s db (of_nat k) = Inr (True, raise_index t (of_nat k), db)"
proof -
  have hk: "db_height db = of_nat k" "unat (of_nat k :: u64) = k"
    using assms(1,3) by (simp_all add: db_height_def unat_of_nat_small)
  have k1: "unat ((of_nat k :: u64) - 1) = k - 1"
    using assms(2) hk(2) by (subst unat_sub_le) (simp_all add: word_le_nat_alt)
  have "(of_nat k :: u64) - 1 = 0 \<longleftrightarrow> k = 1"
    using assms(2) k1 by (auto simp flip: unat_eq_zero)
  then have start: "(if (of_nat k :: u64) - 1 = 0 then Inr (original_version s) else get_hard_fork_version db (of_nat k - 1)) = Inr start"
    using assms(5) by simp
  have lt: "\<not> (of_nat k :: u64) - 1 \<ge> of_nat k" using assms(2) by (simp add: word_le_nat_alt k1 hk(2))
  have c: "window_size (clear_votes s) = window_size s" "original_version (clear_votes s) = original_version s"
    "heights (clear_votes s) = heights s" "current_fork_index (clear_votes s) = current_fork_index s"
    by (simp_all add: clear_votes_def)
  have "Suc (unat ((of_nat k :: u64) - 1)) = k" using assms(2) k1 by simp
  then have "reorganize_from_block_height s db (of_nat k - 1) = Inr (True, raise_index t (of_nat k), db)"
    unfolding reorganize_from_block_height_def Let_def hk(1) c rescan_start [OF assms(4) k1 assms(2)] start
    using lt assms(6) hk(2) by simp
  moreover have "(of_nat k :: u64) \<noteq> 0" using hk(2) assms(2) by (metis less_irrefl unat_0)
  ultimately show ?thesis by (simp add: reorganize_from_chain_height_def)
qed

text \<open>The version a rescan starts from, and the fork index it leads back to.\<close>

lemma reorganize_start:
  assumes "voting_config s0" "original_version s0 \<le> hf_version (hd (heights s0))" "original_version s = original_version s0"
    and "i \<le> current_fork_index s" "current_fork_index s < length (heights s0)" "k = 1 \<longrightarrow> i = 0"
    and "0 < k" "k \<le> 2 ^ 61" "db_versions db (k - 1) = Some (hf_version (heights s0 ! i))"
  shows "\<exists>start. (if k = 1 then Inr (original_version s) else get_hard_fork_version db (of_nat k - 1)) = Inr start
     \<and> back_to (heights s0) start (current_fork_index s) = i"
proof (cases "k = 1")
  case True
  then show ?thesis using assms(6) back_to_original [OF assms(1,2,5)] assms(3) by simp
next
  case False
  have "fork_table (heights s0)" using assms(1) by (simp add: voting_config_def)
  moreover have "unat (of_nat k :: u64) = k" using assms(8) by (simp add: unat_of_nat_small)
  then have "unat ((of_nat k :: u64) - 1) = k - 1"
    using assms(7) by (subst unat_sub_le) (simp_all add: word_le_nat_alt)
  ultimately show ?thesis
    using False back_to_version assms(4,5,9) by (simp add: get_hard_fork_version_def)
qed

text \<open>C30: Reorganising is replaying, where the original version is at most that of the first fork in the table: when a
  chain is cut back to its first k blocks, k not 0,
  reorganize_from_chain_height returns true, leaves the database alone, and puts the object in the
  state it has after growing those k blocks alone.\<close>

theorem reorganize_replays:
  assumes "voting_config s0" "original_version s0 \<le> hf_version (hd (heights s0))" "grown s0 s db"
    and "0 < k" "k \<le> length (db_blocks db)"
  shows "\<exists>sk m. reorganize_from_chain_height s (db\<lparr>db_blocks := take k (db_blocks db)\<rparr>) (of_nat k)
       = Inr (True, sk, db\<lparr>db_blocks := take k (db_blocks db)\<rparr>)
     \<and> grown s0 sk \<lparr>db_blocks = take k (db_blocks db), db_versions = m\<rparr>"
proof -
  let ?db = "db\<lparr>db_blocks := take k (db_blocks db)\<rparr>" and ?w = "unat (window_size s0)"
  note inv = grown_inv [OF assms(1,3)]
  obtain sk m where sk: "grown s0 sk \<lparr>db_blocks = take k (db_blocks db), db_versions = m\<rparr>"
    "current_fork_index sk \<le> current_fork_index s" "\<forall>j < k. m j = db_versions db j"
    using grown_prefix [OF assms(1,3,5)] by blast
  let ?dk = "\<lparr>db_blocks = take k (db_blocks db), db_versions = m\<rparr>"
  have len: "length (db_blocks ?dk) = k" "length (db_blocks ?db) = k" "k \<le> 2 ^ 61" "db_blocks ?dk \<noteq> []"
    using assms(4,5) inv by (auto simp: grown_inv_def)
  have blocks: "db_blocks ?db = db_blocks ?dk" by simp
  have sc: "same_config s0 s" using inv by (simp add: grown_inv_def)
  note c = same_configD [OF sc]
  obtain i where i: "db_versions ?dk (length (db_blocks ?dk) - 1) = Some (hf_version (heights s0 ! i))"
    "i < length (heights s0)" "i \<le> current_fork_index sk" "length (db_blocks ?dk) = 1 \<longrightarrow> i = 0"
    "\<forall>u. same_config s0 u \<and> versions u = [] \<and> tallied u \<longrightarrow>
       (\<exists>t. scan_blocks u ?db [length (db_blocks ?dk) - ?w..<length (db_blocks ?dk)] = Inr t
         \<and> heights t = heights s0 \<and> current_fork_index t = current_fork_index u
         \<and> raise_index (t\<lparr>current_fork_index := i\<rparr>) (db_height ?dk) = sk)"
    using window_restored [OF assms(1) sk(1) len(4) blocks] .
  let ?u = "(clear_votes s)\<lparr>current_fork_index := i\<rparr>"
  have "same_config s0 ?u" "versions ?u = []" "tallied ?u"
    using sc by (simp_all add: clear_votes_def tallied_def)
  then obtain t where t: "scan_blocks ?u ?db [k - ?w..<k] = Inr t" "current_fork_index t = i"
    "raise_index (t\<lparr>current_fork_index := i\<rparr>) (of_nat k) = sk"
    using spec [OF i(5), of ?u] len(1) by (auto simp: db_height_def)
  have "t\<lparr>current_fork_index := i\<rparr> = t" using t(2) by (cases t) simp
  with t(3) have raise: "raise_index t (of_nat k) = sk" by simp
  have ib: "i \<le> current_fork_index s" "current_fork_index s < length (heights s0)"
    using i(3) sk(2) inv c by (auto simp: grown_inv_def remembers_def)
  have "db_versions db (k - 1) = Some (hf_version (heights s0 ! i))"
    using i(1) len(1) sk(3) assms(4) by simp
  then have "\<exists>start. (if k = 1 then Inr (original_version s) else get_hard_fork_version ?db (of_nat k - 1)) = Inr start
     \<and> back_to (heights s0) start (current_fork_index s) = i"
    using i(4) len by (intro reorganize_start [OF assms(1,2) c(3) ib _ assms(4)]) simp_all
  then obtain start where start: "(if k = 1 then Inr (original_version s) else get_hard_fork_version ?db (of_nat k - 1)) = Inr start"
    "back_to (heights s0) start (current_fork_index s) = i" by blast
  have "0 < window_size s" using assms(1) c(2) by (simp add: voting_config_def)
  then have "reorganize_from_chain_height s ?db (of_nat k) = Inr (True, raise_index t (of_nat k), ?db)"
    using len(2,3) assms(4) start(1) t(1) by (intro reorganize_eq [where start = start]) (simp_all only: c start(2))
  then show ?thesis using sk(1) raise by blast
qed


text \<open>The votes that count for fork \<open>n\<close>, and what makes it eligible at a height.\<close>

definition fork_support :: "hf_state \<Rightarrow> nat \<Rightarrow> u32" where
  "fork_support s n = sum_list (map (\<lambda>m. last_versions s (hf_version (heights s ! m))) [n..<length (heights s)])"

definition fork_eligible :: "hf_state \<Rightarrow> u64 \<Rightarrow> nat \<Rightarrow> bool" where
  "fork_eligible s height n \<longleftrightarrow> hf_height (heights s ! n) \<le> height
     \<and> ucast ((window_size s * ucast (hf_threshold (heights s ! n)) + 99) div 100) \<le> fork_support s n"

lemma fork_support_step:
  "n < length (heights s) \<Longrightarrow> fork_support s (Suc n) + last_versions s (hf_version (heights s ! n)) = fork_support s n"
  by (simp add: fork_support_def upt_conv_Cons add.commute)

lemma voted_loop_spec:
  "n \<le> length (heights s) \<Longrightarrow>
   voted_loop s h n (fork_support s n) =
     (if \<exists>m < n. fork_eligible s h m then Max {m. m < n \<and> fork_eligible s h m} else current_fork_index s)"
proof (induction n)
  case (Suc n)
  have step: "fork_support s (Suc n) + last_versions s (hf_version (heights s ! n)) = fork_support s n"
    using Suc.prems by (intro fork_support_step) simp
  show ?case
  proof (cases "fork_eligible s h n")
    case True
    have "Max {m. m < Suc n \<and> fork_eligible s h m} = n"
      using True by (intro Max_eqI) auto
    moreover have "voted_loop s h (Suc n) (fork_support s (Suc n)) = n"
      using True step by (simp add: Let_def fork_eligible_def)
    ultimately show ?thesis using True by auto
  next
    case False
    then have e: "{m. m < Suc n \<and> fork_eligible s h m} = {m. m < n \<and> fork_eligible s h m}"
      "(\<exists>m < Suc n. fork_eligible s h m) \<longleftrightarrow> (\<exists>m < n. fork_eligible s h m)"
      by (auto simp: less_Suc_eq)
    have v: "voted_loop s h (Suc n) (fork_support s (Suc n)) = voted_loop s h n (fork_support s n)"
      using False step by (auto simp: Let_def fork_eligible_def)
    have ih: "voted_loop s h n (fork_support s n) =
      (if \<exists>m < n. fork_eligible s h m then Max {m. m < n \<and> fork_eligible s h m} else current_fork_index s)"
      using Suc by simp
    show ?thesis unfolding v e ih ..
  qed
qed simp

text \<open>The fork the votes choose at a height is the highest fork of the table whose height is reached and whose
  votes, counted over it and every later fork, meet its threshold; if no fork qualifies the current
  one stays.\<close>

theorem voted_fork_is_highest_eligible:
  "get_voted_fork_index s height =
     (if \<exists>n < length (heights s). fork_eligible s height n
      then Max {n. n < length (heights s) \<and> fork_eligible s height n} else current_fork_index s)"
  using voted_loop_spec [of "length (heights s)" s height]
  by (simp add: get_voted_fork_index_def fork_support_def)

section \<open>The forks of this chain\<close>

definition XRL_FORK_TIME :: int where
  "XRL_FORK_TIME = 1756944000"

definition mainnet_hard_forks :: "hardfork_t list" where
  "mainnet_hard_forks =
    [\<lparr>hf_version = 1, hf_height = 1, hf_threshold = 0, hf_time = XRL_FORK_TIME\<rparr>,
     \<lparr>hf_version = 16, hf_height = 2, hf_threshold = 0, hf_time = XRL_FORK_TIME + 1\<rparr>]"

definition testnet_hard_forks :: "hardfork_t list" where
  "testnet_hard_forks =
    [\<lparr>hf_version = 1, hf_height = 1, hf_threshold = 0, hf_time = XRL_FORK_TIME\<rparr>,
     \<lparr>hf_version = 16, hf_height = 2, hf_threshold = 0, hf_time = XRL_FORK_TIME + 1\<rparr>]"

definition stagenet_hard_forks :: "hardfork_t list" where
  "stagenet_hard_forks =
    [\<lparr>hf_version = 1, hf_height = 1, hf_threshold = 0, hf_time = XRL_FORK_TIME\<rparr>,
     \<lparr>hf_version = 16, hf_height = 2, hf_threshold = 0, hf_time = XRL_FORK_TIME + 1\<rparr>]"

datatype network = Mainnet | Testnet | Stagenet

text \<open>The construction and the loops of Blockchain::init; add_fork's flag is ignored there.\<close>

fun fork_table_of :: "network \<Rightarrow> hardfork_t list" where
  "fork_table_of Mainnet = mainnet_hard_forks"
| "fork_table_of Testnet = testnet_hard_forks"
| "fork_table_of Stagenet = stagenet_hard_forks"

definition add_forks :: "hardfork_t list \<Rightarrow> hf_state \<Rightarrow> hf_state" where
  "add_forks fs s = foldl (\<lambda>s f. snd (add_fork s (hf_version f) (hf_height f) (hf_threshold f) (hf_time f))) s fs"

definition network_hard_fork :: "network \<Rightarrow> hf_state result" where
  "network_hard_fork net =
     bindr (new_hard_fork 1 0 31557600 15778800 10080 80) (\<lambda>s. Inr (add_forks (fork_table_of net) s))"

lemma network_hard_fork_eq:
  "network_hard_fork net = Inr \<lparr>forked_time = 31557600, update_time = 15778800, window_size = 10080,
     default_threshold_percent = 80, original_version = 1, original_version_till_height = 0,
     heights = mainnet_hard_forks, versions = [], last_versions = (\<lambda>_. 0), current_fork_index = 0\<rparr>"
  by (cases net) (simp_all add: network_hard_fork_def new_hard_fork_def add_forks_def add_fork_def word_le_nat_alt
      mainnet_hard_forks_def testnet_hard_forks_def stagenet_hard_forks_def)

lemma network_config: "network_hard_fork net = Inr s0 \<Longrightarrow> voting_config s0"
  by (auto simp: network_hard_fork_eq voting_config_def fork_table_def fork_below_def mainnet_hard_forks_def
      word_less_nat_alt word_le_nat_alt)

lemma xrl_voted:
  assumes "heights s = mainnet_hard_forks" "window_size s = 10080" "0 < unat h"
  shows "get_voted_fork_index s h = (if 2 \<le> unat h then 1 else 0)"
  using assms
  by (auto simp: get_voted_fork_index_def mainnet_hard_forks_def Let_def word_le_nat_alt unat_div)

lemma xrl_index:
  assumes "network_hard_fork net = Inr s0" "grown s0 s db"
  shows "same_config s0 s \<and> current_fork_index s = (if length (db_blocks db) < 2 then 0 else 1)"
  using assms(2)
proof induction
  case empty
  then show ?case by (simp add: empty_hf_db_def start_votes_def clear_votes_def)
next
  case (block s db b s' db')
  let ?n = "length (db_blocks db)"
  have s0: "heights s0 = mainnet_hard_forks" "window_size s0 = 10080"
    using assms(1) by (auto simp: network_hard_fork_eq)
  obtain vs lv where e: "evict (window_size s) (versions s) (last_versions s) = (vs, lv)"
    by (cases "evict (window_size s) (versions s) (last_versions s)")
  let ?s1 = "push_version (s\<lparr>versions := vs, last_versions := lv\<rparr>) (get_effective_version s (get_block_vote b))"
  note out = add_block_out [OF block.hyps(3) e]
  have c: "heights ?s1 = mainnet_hard_forks" "window_size ?s1 = 10080" "same_config s0 ?s1"
    "current_fork_index ?s1 = current_fork_index s"
    using same_configD [of s0 s] block.IH s0 by simp_all
  have h: "unat (db_height db + 1) = ?n + 1"
    using block.hyps(2) unat_db_height [of db] by (subst unat_add_no_wrap) simp_all
  have "get_voted_fork_index ?s1 (db_height db + 1) = (if 2 \<le> ?n + 1 then 1 else 0)"
    using xrl_voted [OF c(1,2), of "db_height db + 1"] h by simp
  moreover have "raise_index ?s1 (db_height db + 1) = voted_up ?s1 (db_height db + 1)"
    using c s0 block.IH by (intro raise_index_grown [OF network_config [OF assms(1)]]) (auto simp: mainnet_hard_forks_def)
  ultimately have "current_fork_index s' = max (current_fork_index s) (if 2 \<le> ?n + 1 then 1 else 0)" "same_config s0 s'"
    using out c(3,4) by (simp_all add: voted_up_def)
  moreover have "length (db_blocks (db'\<lparr>db_blocks := db_blocks db' @ [b]\<rparr>)) = ?n + 1"
    using out by (simp add: set_hard_fork_version_def)
  ultimately show ?case using block.IH by (cases "db_blocks db") auto
qed

text \<open>The fork schedule of this chain, on each of its networks: blocks 0 and 1 are version 1 and every later
  block is version 16. A chain grown from nothing accepts its next block exactly when the block has
  that version and votes for at least it; votes change nothing, because the thresholds are zero.\<close>

theorem xrl_fork_schedule:
  assumes "network_hard_fork net = Inr s0" "grown s0 s db"
  shows "get_current_version s = (if length (db_blocks db) < 2 then 1 else 16)
     \<and> (fst (add_block s db b (db_height db)) \<longleftrightarrow>
          b_major_version b = get_current_version s \<and> get_current_version s \<le> get_block_vote b)"
proof -
  note x = xrl_index [OF assms]
  have "heights s = mainnet_hard_forks"
    using x assms(1) by (auto simp: network_hard_fork_eq same_config_def)
  then have "get_current_version s = (if length (db_blocks db) < 2 then 1 else 16)"
    using x by (simp add: get_current_version_def mainnet_hard_forks_def)
  moreover have "fst (add_block s db b (db_height db)) \<longleftrightarrow> do_check s (b_major_version b) (get_block_vote b)"
    by (simp add: add_block_def add_versions_def get_block_version_def split: prod.splits)
  ultimately show ?thesis by (auto simp: do_check_def get_current_version_def)
qed

section \<open>Witnesses\<close>

definition xrl_state :: hf_state where
  "xrl_state = \<lparr>forked_time = 31557600, update_time = 15778800, window_size = 10080,
     default_threshold_percent = 80, original_version = 1, original_version_till_height = 0,
     heights = mainnet_hard_forks, versions = [], last_versions = (\<lambda>_. 0), current_fork_index = 0\<rparr>"

lemma xrl_network: "network_hard_fork net = Inr xrl_state"
  by (simp add: network_hard_fork_eq xrl_state_def)

lemma xrl_config: "voting_config xrl_state"
  by (rule network_config [OF xrl_network])

definition v1_block :: hf_block where
  "v1_block = \<lparr>b_major_version = 1, b_minor_version = 16\<rparr>"

definition xrl_one :: "hf_state \<times> hf_db" where
  "xrl_one = (let (_, s, db) = add_block (start_votes xrl_state) empty_hf_db v1_block 0
              in (s, db\<lparr>db_blocks := db_blocks db @ [v1_block]\<rparr>))"

lemma xrl_one_blocks: "db_blocks (snd xrl_one) = [v1_block]"
  by (simp add: xrl_one_def add_block_def add_versions_def start_votes_def clear_votes_def xrl_state_def
      do_check_def v1_block_def get_block_version_def get_block_vote_def mainnet_hard_forks_def
      set_hard_fork_version_def empty_hf_db_def)

lemma xrl_one_grown: "grown xrl_state (fst xrl_one) (snd xrl_one)"
proof -
  obtain ok s db where a: "add_block (start_votes xrl_state) empty_hf_db v1_block 0 = (ok, s, db)"
    by (metis prod_cases3)
  have "ok" using a
    by (auto simp: add_block_def add_versions_def start_votes_def clear_votes_def xrl_state_def
      do_check_def v1_block_def get_block_version_def get_block_vote_def mainnet_hard_forks_def)
  then have "grown xrl_state s (db\<lparr>db_blocks := db_blocks db @ [v1_block]\<rparr>)"
    using a by (intro grown.block [OF grown.empty]) (simp_all add: empty_hf_db_def db_height_def)
  with a show ?thesis by (simp add: xrl_one_def)
qed

theorem votes_are_last_window_witness: "versions (fst xrl_one) = [16]"
  using votes_are_last_window [OF xrl_config xrl_one_grown]
  by (simp add: xrl_one_blocks last_n_def v1_block_def get_block_vote_def get_effective_version_def
      xrl_state_def mainnet_hard_forks_def)

theorem init_restores_state_witness: "hf_init xrl_state (snd xrl_one) = Inr (fst xrl_one)"
  by (rule init_restores_state [OF xrl_config xrl_one_grown])

theorem reorganize_replays_witness:
  "\<exists>sk. reorganize_from_chain_height (fst xrl_one) (snd xrl_one) 1 = Inr (True, sk, snd xrl_one)"
proof -
  have e: "(snd xrl_one)\<lparr>db_blocks := take 1 (db_blocks (snd xrl_one))\<rparr> = snd xrl_one"
    unfolding xrl_one_blocks using xrl_one_blocks by (cases "snd xrl_one") simp
  have "original_version xrl_state \<le> hf_version (hd (heights xrl_state))"
    by (simp add: xrl_state_def mainnet_hard_forks_def)
  from reorganize_replays [OF xrl_config this xrl_one_grown, of 1] show ?thesis
    unfolding e of_nat_1 by (auto simp: xrl_one_blocks)
qed

theorem xrl_fork_schedule_witness: "get_current_version (fst xrl_one) = 1"
  using xrl_fork_schedule [OF xrl_network xrl_one_grown] by (simp add: xrl_one_blocks)

end
