(* ===== verification/RollingMedian.thy ===== *)
theory RollingMedian
  imports Prelude
begin

text \<open>
  vendor/monero/contrib/epee/include/rolling_median.h: the median of the last N values in a double heap around
  the median, at the type \<open>uint64_t\<close> it is used at, and the plain \<open>median\<close> of misc_language.h. The array
  \<open>heap\<close> has indices from - N / 2 to (N - 1) / 2; an access outside, or outside of \<open>data\<close> and \<open>pos\<close>, is
  an error. The code has each loop twice, once for the min heap on the positive indices and once for the max
  heap on the negative ones, with all indices negated and all comparisons reversed; here a loop has the
  heap as an argument and counts its positions from 0.
\<close>

definition get_mid :: "u64 \<Rightarrow> u64 \<Rightarrow> u64" where
  "get_mid a b = a div 2 + b div 2 + ((a - 2 * (a div 2)) + (b - 2 * (b div 2))) div 2"

definition vector_median :: "u64 list \<Rightarrow> u64" where
  "vector_median v =
     (if v = [] then 0
      else if length v = 1 then v ! 0
      else let n = length v div 2; v = sort v in
           if length v mod 2 \<noteq> 0 then v ! n else get_mid (v ! (n - 1)) (v ! n))"

record rolling_median =
  rm_data :: "u64 list"
  rm_pos :: "int list"
  rm_heap :: "nat list"
  rm_N :: nat
  rm_idx :: nat
  minCt :: nat
  maxCt :: nat
  rm_size :: nat

definition heap_index :: "int \<Rightarrow> rolling_median \<Rightarrow> nat result" where
  "heap_index i m =
     (let k = i + int (rm_N m div 2) in if 0 \<le> k \<and> nat k < length (rm_heap m) then Inr (nat k) else Inl OutOfBounds)"

definition heap_at :: "int \<Rightarrow> rolling_median \<Rightarrow> nat result" where
  "heap_at i m = bindr (heap_index i m) (\<lambda>k. Inr (rm_heap m ! k))"

definition set_heap :: "int \<Rightarrow> nat \<Rightarrow> rolling_median \<Rightarrow> rolling_median result" where
  "set_heap i x m = bindr (heap_index i m) (\<lambda>k. Inr (m\<lparr>rm_heap := (rm_heap m)[k := x]\<rparr>))"

definition set_pos :: "nat \<Rightarrow> int \<Rightarrow> rolling_median \<Rightarrow> rolling_median result" where
  "set_pos k i m = (if k < length (rm_pos m) then Inr (m\<lparr>rm_pos := (rm_pos m)[k := i]\<rparr>) else Inl OutOfBounds)"

text \<open>\<open>data[heap[i]]\<close>\<close>

definition value_at :: "int \<Rightarrow> rolling_median \<Rightarrow> u64 result" where
  "value_at i m = bindr (heap_at i m) (nth_r (rm_data m))"

definition mmless :: "int \<Rightarrow> int \<Rightarrow> rolling_median \<Rightarrow> bool result" where
  "mmless i j m = bindr (value_at i m) (\<lambda>a. bindr (value_at j m) (\<lambda>b. Inr (a < b)))"

definition mmexchange :: "int \<Rightarrow> int \<Rightarrow> rolling_median \<Rightarrow> rolling_median result" where
  "mmexchange i j m =
     bindr (heap_at i m) (\<lambda>t. bindr (heap_at j m) (\<lambda>u. bindr (set_heap i u m) (\<lambda>m. bindr (set_heap j t m) (\<lambda>m.
     bindr (heap_at i m) (\<lambda>a. bindr (set_pos a i m) (\<lambda>m. bindr (heap_at j m) (\<lambda>b. set_pos b j m)))))))"

definition mmCmpExch :: "int \<Rightarrow> int \<Rightarrow> rolling_median \<Rightarrow> (bool \<times> rolling_median) result" where
  "mmCmpExch i j m = bindr (mmless i j m) (\<lambda>b.
     if b then bindr (mmexchange i j m) (\<lambda>m. Inr (True, m)) else Inr (False, m))"

text \<open>The two heaps: the sign of a position, the test that the first position belongs before the second, and
  their counts.\<close>

datatype side = MinHeap | MaxHeap

fun at_side :: "side \<Rightarrow> nat \<Rightarrow> int" where
  "at_side MinHeap n = int n"
| "at_side MaxHeap n = - int n"

fun heap_count :: "side \<Rightarrow> rolling_median \<Rightarrow> nat" where
  "heap_count MinHeap m = minCt m"
| "heap_count MaxHeap m = maxCt m"

fun side_less :: "side \<Rightarrow> nat \<Rightarrow> nat \<Rightarrow> rolling_median \<Rightarrow> bool result" where
  "side_less MinHeap n k m = mmless (int n) (int k) m"
| "side_less MaxHeap n k m = mmless (- int k) (- int n) m"

fun side_cmp_exch :: "side \<Rightarrow> nat \<Rightarrow> nat \<Rightarrow> rolling_median \<Rightarrow> (bool \<times> rolling_median) result" where
  "side_cmp_exch MinHeap n k m = mmCmpExch (int n) (int k) m"
| "side_cmp_exch MaxHeap n k m = mmCmpExch (- int k) (- int n) m"

lemma bindr_cong [fundef_cong]: "r = r' \<Longrightarrow> (\<And>x. r' = Inr x \<Longrightarrow> f x = g x) \<Longrightarrow> bindr r f = bindr r' g"
  by (cases r') simp_all

text \<open>\<open>minSortUp\<close> and \<open>maxSortUp\<close>.\<close>

fun sort_up :: "side \<Rightarrow> nat \<Rightarrow> rolling_median \<Rightarrow> (bool \<times> rolling_median) result" where
  "sort_up s i m =
     (if i > 0
      then bindr (side_cmp_exch s i (i div 2) m) (\<lambda>(swapped, m).
             if swapped then sort_up s (i div 2) m else Inr (False, m))
      else Inr (True, m))"

declare sort_up.simps [simp del]

lemma side_cmp_exch_counts:
  assumes "side_cmp_exch s i j m = Inr (True, m')"
  shows "heap_count t m' = heap_count t m" "i \<noteq> j"
proof -
  have e: "minCt m' = minCt m" "maxCt m' = maxCt m" if "mmexchange a b m = Inr m'" for a b
    using that by (auto simp: mmexchange_def bindr_Inr_iff set_heap_def set_pos_def split: if_splits)
  show "heap_count t m' = heap_count t m"
    using assms e by (cases s; cases t) (auto simp: mmCmpExch_def bindr_Inr_iff split: if_splits)
  show "i \<noteq> j"
    using assms by (cases s) (auto simp: mmCmpExch_def mmless_def bindr_Inr_iff split: if_splits)
qed

text \<open>\<open>minSortDown\<close> and \<open>maxSortDown\<close>; called with a position above 0.\<close>

function sort_down :: "side \<Rightarrow> nat \<Rightarrow> rolling_median \<Rightarrow> rolling_median result" where
  "sort_down s i m =
     (let i = 2 * i in
      if i \<le> heap_count s m
      then bindr (if i < heap_count s m then side_less s (i + 1) i m else Inr False) (\<lambda>right.
           let i = (if right then i + 1 else i) in
           bindr (side_cmp_exch s i (i div 2) m) (\<lambda>(swapped, m).
             if swapped then sort_down s i m else Inr m))
      else Inr m)"
  by pat_completeness auto
termination
proof (relation "measure (\<lambda>(s, i, m). heap_count s m - i)")
  fix s i m j b k x swapped m'
  assume a: "j = 2 * i" "j \<le> heap_count s m" "k = (if b then j + 1 else j)" "(swapped, m') = x" swapped
    "side_cmp_exch s k (k div 2) m = Inr x"
    and b: "(if j < heap_count s m then side_less s (j + 1) j m else Inr False) = Inr b"
  then have e: "heap_count s m' = heap_count s m" "k \<noteq> k div 2"
    using side_cmp_exch_counts [of s k "k div 2" m m'] by auto
  have "k \<le> heap_count s m" using a(2,3) b by (auto split: if_splits)
  moreover have "i < k" using e(2) a(1,3) by (cases i) (auto split: if_splits)
  ultimately show "((s, k, m'), s, i, m) \<in> measure (\<lambda>(s, i, m). heap_count s m - i)" using e(1) by simp
qed simp

declare sort_down.simps [simp del]

fun other_side :: "side \<Rightarrow> side" where
  "other_side MinHeap = MaxHeap"
| "other_side MaxHeap = MinHeap"

text \<open>The fill pattern median, max, min, max, ...; the loop counts down.\<close>

definition fill_position :: "nat \<Rightarrow> int" where
  "fill_position k = int ((k + 1) div 2) * (if odd k then - 1 else 1)"

fun fill_loop :: "nat list \<Rightarrow> rolling_median \<Rightarrow> rolling_median result" where
  "fill_loop [] m = Inr m"
| "fill_loop (k # ks) m = bindr (set_pos k (fill_position k) m) (\<lambda>m. bindr (set_heap (fill_position k) k m) (fill_loop ks))"

definition rm_clear :: "rolling_median \<Rightarrow> rolling_median result" where
  "rm_clear m = fill_loop (rev [0..<rm_N m]) (m\<lparr>rm_idx := 0, minCt := 0, maxCt := 0, rm_size := 0\<rparr>)"

text \<open>
  The constructor. The number of bytes to allocate is an \<open>int\<close>: where it does not cover the three arrays,
  because the product wrapped or came out negative, which malloc refuses, the pointers into the block and
  the writes of \<open>clear\<close> are out of bounds. Otherwise malloc leaves the arrays as they are found.
\<close>

definition new_rolling_median :: "u64 \<Rightarrow> u64 list \<Rightarrow> int list \<Rightarrow> nat list \<Rightarrow> rolling_median result" where
  "new_rolling_median N data pos heap =
     (let size = sint (ucast (N * (8 + 4 * 2)) :: 32 word) in
      if size < 16 * uint N then Inl OutOfBounds
      else rm_clear \<lparr>rm_data = data, rm_pos = pos, rm_heap = heap, rm_N = unat N, rm_idx = 0, minCt = 0, maxCt = 0,
        rm_size = 0\<rparr>)"

lemma new_rolling_median_small:
  assumes "unat N < 2 ^ 27"
  shows "new_rolling_median N data pos heap =
    rm_clear \<lparr>rm_data = data, rm_pos = pos, rm_heap = heap, rm_N = unat N, rm_idx = 0, minCt = 0, maxCt = 0, rm_size = 0\<rparr>"
proof -
  have n: "uint N < 2 ^ 27" using assms by (simp add: uint_nat)
  have "uint (N * 16) = uint N * 16" using n uint_mult_lem [of N 16] by simp
  then have "sint (ucast (N * 16) :: 32 word) = uint N * 16"
    using n by (simp add: sint_uint unsigned_ucast_eq take_bit_int_eq_self signed_take_bit_int_eq_self [of 31 "uint N * 16"]
        order_trans [of _ 0 "uint N * 16"])
  then show ?thesis by (simp add: new_rolling_median_def)
qed

lemma new_rolling_median_large:
  assumes "2 ^ 27 \<le> unat N"
  shows "new_rolling_median N data pos heap = Inl OutOfBounds"
proof -
  have "sint (ucast (N * 16) :: 32 word) < 2 ^ 31" using sint_lt [of "ucast (N * 16) :: 32 word"] by simp
  moreover have "2 ^ 27 \<le> uint N" using assms by (simp add: uint_nat)
  ultimately show ?thesis by (simp add: new_rolling_median_def)
qed

text \<open>The end of \<open>insert\<close> for a new item in a heap, and for one at the median.\<close>

definition restore :: "side \<Rightarrow> nat \<Rightarrow> rolling_median \<Rightarrow> rolling_median result" where
  "restore s i m =
     bindr (sort_up s i m) (\<lambda>(top, m).
       if top \<and> (s = MinHeap \<or> minCt m \<noteq> 0)
       then bindr (side_cmp_exch (other_side s) 1 0 m) (\<lambda>(swapped, m).
              if swapped then sort_down (other_side s) 1 m else Inr m)
       else Inr m)"

definition new_root :: "side \<Rightarrow> rolling_median \<Rightarrow> rolling_median result" where
  "new_root s m =
     (if heap_count s m = 0 then Inr m
      else bindr (sort_up s 1 m) (\<lambda>(top, m). if top then sort_down s 1 m else Inr m))"

definition rm_insert :: "u64 \<Rightarrow> rolling_median \<Rightarrow> rolling_median result" where
  "rm_insert v m =
     bindr (nth_r (rm_pos m) (rm_idx m)) (\<lambda>p. bindr (nth_r (rm_data m) (rm_idx m)) (\<lambda>old.
       let m = m\<lparr>rm_data := (rm_data m)[rm_idx m := v], rm_idx := (rm_idx m + 1) mod rm_N m,
                 rm_size := min (rm_size m + 1) (rm_N m)\<rparr> in
       if p > 0
       then if minCt m < (rm_N m - 1) div 2 then restore MinHeap (nat p) (m\<lparr>minCt := minCt m + 1\<rparr>)
            else if v > old then sort_down MinHeap (nat p) m
            else restore MinHeap (nat p) m
       else if p < 0
       then if maxCt m < rm_N m div 2 then restore MaxHeap (nat (- p)) (m\<lparr>maxCt := maxCt m + 1\<rparr>)
            else if v < old then sort_down MaxHeap (nat (- p)) m
            else restore MaxHeap (nat (- p)) m
       else bindr (new_root MaxHeap m) (new_root MinHeap)))"

definition rm_median :: "rolling_median \<Rightarrow> u64 result" where
  "rm_median m =
     bindr (value_at 0 m) (\<lambda>v.
       if minCt m < maxCt m then bindr (value_at (- 1) m) (\<lambda>w. Inr (get_mid v w)) else Inr v)"

section \<open>One heap above its root\<close>

text \<open>Values at the positions of a heap, position 0 being the root it shares with the other. The loops without
  the arrays, for any order.\<close>

fun sift_up :: "('a \<Rightarrow> 'a \<Rightarrow> bool) \<Rightarrow> nat \<Rightarrow> (nat \<Rightarrow> 'a) \<Rightarrow> nat \<times> (nat \<Rightarrow> 'a)" where
  "sift_up lt i f = (if i > 0 \<and> lt (f i) (f (i div 2)) then sift_up lt (i div 2) (f(i := f (i div 2), i div 2 := f i)) else (i, f))"

declare sift_up.simps [simp del]

definition lesser_child :: "('a \<Rightarrow> 'a \<Rightarrow> bool) \<Rightarrow> nat \<Rightarrow> nat \<Rightarrow> (nat \<Rightarrow> 'a) \<Rightarrow> nat" where
  "lesser_child lt ct i f = (if 2 * i < ct \<and> lt (f (2 * i + 1)) (f (2 * i)) then 2 * i + 1 else 2 * i)"

function sift_down :: "('a \<Rightarrow> 'a \<Rightarrow> bool) \<Rightarrow> nat \<Rightarrow> nat \<Rightarrow> (nat \<Rightarrow> 'a) \<Rightarrow> (nat \<Rightarrow> 'a)" where
  "sift_down lt ct i f =
     (let c = lesser_child lt ct i f in
      if 0 < i \<and> 2 * i \<le> ct \<and> lt (f c) (f i) then sift_down lt ct c (f(c := f i, i := f c)) else f)"
  by pat_completeness auto
termination by (relation "measure (\<lambda>(lt, ct, i, f). Suc ct - i)") (auto simp: lesser_child_def)

declare sift_down.simps [simp del]

lemma sift_down_stop: "\<not> (2 * i \<le> ct \<and> lt (f (lesser_child lt ct i f)) (f i)) \<Longrightarrow> sift_down lt ct i f = f"
  by (subst sift_down.simps) (auto simp: Let_def)

definition heap_ok :: "('a \<Rightarrow> 'a \<Rightarrow> bool) \<Rightarrow> nat \<Rightarrow> (nat \<Rightarrow> 'a) \<Rightarrow> bool" where
  "heap_ok lt ct f \<longleftrightarrow> (\<forall>n. 0 < n \<and> n \<le> ct \<longrightarrow> \<not> lt (f n) (f (n div 2)))"

text \<open>A heap but for position \<open>i\<close>, which may be too small, or too large.\<close>

definition heap_but_up :: "('a \<Rightarrow> 'a \<Rightarrow> bool) \<Rightarrow> nat \<Rightarrow> nat \<Rightarrow> (nat \<Rightarrow> 'a) \<Rightarrow> bool" where
  "heap_but_up lt ct i f \<longleftrightarrow> (\<forall>n. 0 < n \<and> n \<le> ct \<longrightarrow>
     (n \<noteq> i \<longrightarrow> \<not> lt (f n) (f (n div 2))) \<and> (0 < i \<and> n div 2 = i \<longrightarrow> \<not> lt (f n) (f (i div 2))))"

definition heap_but_down :: "('a \<Rightarrow> 'a \<Rightarrow> bool) \<Rightarrow> nat \<Rightarrow> nat \<Rightarrow> (nat \<Rightarrow> 'a) \<Rightarrow> bool" where
  "heap_but_down lt ct i f \<longleftrightarrow> (\<forall>n. 0 < n \<and> n \<le> ct \<longrightarrow>
     (n div 2 \<noteq> i \<longrightarrow> \<not> lt (f n) (f (n div 2))) \<and> (n div 2 = i \<longrightarrow> \<not> lt (f n) (f (i div 2))))"

text \<open>A strict total order, ascending for one heap and descending for the other.\<close>

locale heap_order =
  fixes lt :: "'a \<Rightarrow> 'a \<Rightarrow> bool"
  assumes asym: "lt a b \<Longrightarrow> \<not> lt b a"
    and le_trans: "\<not> lt b a \<Longrightarrow> \<not> lt c b \<Longrightarrow> \<not> lt c a"
begin

lemma refl: "\<not> lt a a"
  using asym by blast

lemma sift_up_step:
  assumes "heap_but_up lt ct i f" "0 < i" "lt (f i) (f (i div 2))"
  shows "heap_but_up lt ct (i div 2) (f(i := f (i div 2), i div 2 := f i))"
  unfolding heap_but_up_def
proof (intro allI impI conjI)
  fix n assume n: "0 < n \<and> n \<le> ct"
  have p: "i div 2 < i" using assms(2) by simp
  have ok: "\<not> lt (f n) (f (n div 2))" if "n \<noteq> i" using assms(1) n that by (simp add: heap_but_up_def)
  have down: "\<not> lt (f n) (f (i div 2))" if "n div 2 = i" using assms(1,2) n that by (simp add: heap_but_up_def)
  have flip: "\<not> lt (f (i div 2)) (f i)" using asym [OF assms(3)] .
  show "\<not> lt ((f(i := f (i div 2), i div 2 := f i)) n) ((f(i := f (i div 2), i div 2 := f i)) (n div 2))" if "n \<noteq> i div 2"
    using that ok down flip p le_trans [OF flip, of "f n"] by (cases "n = i") auto
  show "\<not> lt ((f(i := f (i div 2), i div 2 := f i)) n) ((f(i := f (i div 2), i div 2 := f i)) (i div 2 div 2))"
    if "0 < i div 2 \<and> n div 2 = i div 2"
  proof -
    have "i div 2 \<le> ct" "i div 2 \<noteq> i" using that n by auto
    then have up: "\<not> lt (f (i div 2)) (f (i div 2 div 2))" using assms(1) that by (simp add: heap_but_up_def)
    have "i div 2 div 2 \<noteq> i div 2" "i div 2 div 2 \<noteq> i" "n \<noteq> i div 2" using that p by auto
    then show ?thesis using up le_trans [OF up, of "f n"] ok that by (cases "n = i") auto
  qed
qed

lemma sift_up_heap: "heap_but_up lt ct i f \<Longrightarrow> heap_ok lt ct (snd (sift_up lt i f))"
proof (induction i arbitrary: f rule: less_induct)
  case (less i)
  show ?case
  proof (cases "i > 0 \<and> lt (f i) (f (i div 2))")
    case True
    then show ?thesis using less.IH [of "i div 2"] sift_up_step [OF less.prems] by (simp add: sift_up.simps [of lt i])
  next
    case False
    then show ?thesis using less.prems by (auto simp: sift_up.simps [of lt i] heap_but_up_def heap_ok_def)
  qed
qed

text \<open>Where the loop ends: below the root nothing happens to it, and a new root pushes the old one to position 1.\<close>

lemma sift_up_root:
  assumes "0 < i"
  shows "fst (sift_up lt i f) = 0 \<Longrightarrow>
     lt (f i) (f 0) \<and> snd (sift_up lt i f) 0 = f i \<and> snd (sift_up lt i f) 1 = f 0"
    and "fst (sift_up lt i f) \<noteq> 0 \<Longrightarrow> snd (sift_up lt i f) 0 = f 0"
  using assms
proof (induction i arbitrary: f rule: less_induct)
  case (less i)
  {
    case 1
    then have a: "lt (f i) (f (i div 2))" by (auto simp: sift_up.simps [of lt i] split: if_splits)
    show ?case
    proof (cases "i div 2 = 0")
      case True
      then have "i = 1" using 1 by simp
      then show ?thesis using a by (simp add: sift_up.simps [of lt 0] sift_up.simps [of lt "Suc 0"])
    next
      case False
      define g where "g = f(i := f (i div 2), i div 2 := f i)"
      have s: "sift_up lt i f = sift_up lt (i div 2) g" using a 1 by (simp add: sift_up.simps [of lt i] g_def)
      have "g (i div 2) = f i" "g 0 = f 0" using False 1 by (auto simp: g_def)
      then show ?thesis using False 1 less.IH(1) [of "i div 2" g] unfolding s by simp
    qed
  next
    case 2
    show ?case
    proof (cases "lt (f i) (f (i div 2))")
      case True
      then have "i div 2 \<noteq> 0" using 2 by (cases "i = 1") (auto simp: sift_up.simps [of lt 0] sift_up.simps [of lt "Suc 0"])
      define g where "g = f(i := f (i div 2), i div 2 := f i)"
      have s: "sift_up lt i f = sift_up lt (i div 2) g" using True 2 by (simp add: sift_up.simps [of lt i] g_def)
      have "g 0 = f 0" using \<open>i div 2 \<noteq> 0\<close> 2 by (auto simp: g_def)
      then show ?thesis using \<open>i div 2 \<noteq> 0\<close> 2 less.IH(2) [of "i div 2" g] unfolding s by simp
    next
      case False
      then show ?thesis by (simp add: sift_up.simps [of lt i])
    qed
  }
qed

lemma lesser_child_least:
  assumes "0 < i" "2 * i \<le> ct"
  shows "lesser_child lt ct i f \<le> ct" "i < lesser_child lt ct i f" "lesser_child lt ct i f div 2 = i"
    and "n div 2 = i \<Longrightarrow> n \<le> ct \<Longrightarrow> \<not> lt (f n) (f (lesser_child lt ct i f))"
proof -
  show "lesser_child lt ct i f \<le> ct" "i < lesser_child lt ct i f" "lesser_child lt ct i f div 2 = i"
    using assms by (auto simp: lesser_child_def)
  assume n: "n div 2 = i" "n \<le> ct"
  then have "n = 2 * i \<or> n = 2 * i + 1" by linarith
  then show "\<not> lt (f n) (f (lesser_child lt ct i f))"
    using n assms asym refl by (auto simp: lesser_child_def)
qed

lemma sift_down_step:
  assumes h: "heap_but_down lt ct i f" and i: "0 < i" "2 * i \<le> ct" and l: "lt (f c) (f i)"
    and c: "c = lesser_child lt ct i f"
  shows "heap_but_down lt ct c (f(c := f i, i := f c))"
  unfolding heap_but_down_def
proof (intro allI impI conjI)
  fix n assume n: "0 < n \<and> n \<le> ct"
  note k = lesser_child_least [OF i, where f=f, folded c]
  have ok: "\<not> lt (f n) (f (n div 2))" if "n div 2 \<noteq> i" using h n that by (simp add: heap_but_down_def)
  have up: "\<not> lt (f c) (f (i div 2))" using h k(1,3) i by (simp add: heap_but_down_def)
  have j: "i div 2 < i" "c \<noteq> i" "i div 2 \<noteq> c" using i k(2) by auto
  show "\<not> lt ((f(c := f i, i := f c)) n) ((f(c := f i, i := f c)) (n div 2))" if "n div 2 \<noteq> c"
  proof (cases "n div 2 = i")
    case True
    then show ?thesis using k(4) [of n] n asym [OF l] j by auto
  next
    case False
    then show ?thesis using that ok up j k(3) by auto
  qed
  show "\<not> lt ((f(c := f i, i := f c)) n) ((f(c := f i, i := f c)) (c div 2))" if "n div 2 = c"
  proof -
    have "n \<noteq> c" "n \<noteq> i" using that n k(2) by auto
    then show ?thesis using ok that j k(3) by simp
  qed
qed

lemma sift_down_heap: "heap_but_down lt ct i f \<Longrightarrow> 0 < i \<Longrightarrow> \<not> lt (f i) (f (i div 2)) \<Longrightarrow> heap_ok lt ct (sift_down lt ct i f)"
proof (induction "Suc ct - i" arbitrary: i f rule: less_induct)
  case less
  define c where "c = lesser_child lt ct i f"
  show ?case
  proof (cases "2 * i \<le> ct \<and> lt (f c) (f i)")
    case True
    note k = lesser_child_least [of i ct, OF less.prems(2), where f=f, folded c_def]
    have s: "heap_but_down lt ct c (f(c := f i, i := f c))"
      using sift_down_step [OF less.prems(1,2) _ _ c_def] True by simp
    have "i \<noteq> c" "c div 2 = i" "0 < c" "i < c" "c \<le> ct" using k True by auto
    then have "heap_ok lt ct (sift_down lt ct c (f(c := f i, i := f c)))"
      using less.hyps [OF _ s] asym [of "f c" "f i"] True by simp
    then show ?thesis using True less.prems by (simp add: sift_down.simps [of lt ct i] c_def Let_def)
  next
    case False
    have "\<not> lt (f n) (f (n div 2))" if n: "0 < n" "n \<le> ct" for n
    proof (cases "n div 2 = i")
      case True
      then have a: "2 * i \<le> ct" using n by linarith
      then have "\<not> lt (f n) (f c)" "\<not> lt (f c) (f i)"
        using lesser_child_least(4) [of i ct n f] less.prems(2) False True n by (auto simp: c_def)
      then show ?thesis using True le_trans by blast
    next
      case False
      then show ?thesis using less.prems(1) n by (simp add: heap_but_down_def)
    qed
    then show ?thesis using sift_down_stop [of i ct lt f] False by (simp add: c_def heap_ok_def)
  qed
qed

lemma sift_down_above: "j < i \<Longrightarrow> sift_down lt ct i f j = f j"
proof (induction "Suc ct - i" arbitrary: i f rule: less_induct)
  case less
  define c where "c = lesser_child lt ct i f"
  show ?case
  proof (cases "0 < i \<and> 2 * i \<le> ct \<and> lt (f c) (f i)")
    case True
    then have "i < c" "c \<le> ct" using lesser_child_least [of i ct, where f=f] by (auto simp: c_def)
    then show ?thesis using True less.hyps [of c "f(c := f i, i := f c)"] less.prems
      by (simp add: sift_down.simps [of lt ct i] c_def Let_def)
  next
    case False
    then show ?thesis by (subst sift_down.simps) (auto simp: c_def Let_def)
  qed
qed

text \<open>The root is least, and position 1 is least among the rest.\<close>

lemma heap_root: "heap_ok lt ct f \<Longrightarrow> n \<le> ct \<Longrightarrow> \<not> lt (f n) (f 0)"
proof (induction n rule: less_induct)
  case (less n)
  show ?case
  proof (cases "n = 0")
    case False
    then have "\<not> lt (f n) (f (n div 2))" "\<not> lt (f (n div 2)) (f 0)"
      using less by (auto simp: heap_ok_def)
    then show ?thesis using le_trans by blast
  qed (simp add: refl)
qed

lemma heap_first: "heap_ok lt ct f \<Longrightarrow> 0 < n \<Longrightarrow> n \<le> ct \<Longrightarrow> \<not> lt (f n) (f 1)"
proof (induction n rule: less_induct)
  case (less n)
  show ?case
  proof (cases "n = 1")
    case False
    then have "\<not> lt (f n) (f (n div 2))" "\<not> lt (f (n div 2)) (f 1)"
      using less by (auto simp: heap_ok_def)
    then show ?thesis using le_trans by blast
  qed (simp add: refl)
qed

text \<open>One value is replaced, or one is added at the end.\<close>

lemma heap_put_larger:
  assumes "heap_ok lt ct f" "0 < i" "i \<le> ct" "\<not> lt v (f i)"
  shows "heap_but_down lt ct i (f(i := v))" "\<not> lt ((f(i := v)) i) ((f(i := v)) (i div 2))"
proof -
  have h: "\<not> lt (f n) (f (n div 2))" if "0 < n" "n \<le> ct" for n using assms(1) that by (simp add: heap_ok_def)
  have up: "\<not> lt v (f (i div 2))" using le_trans [OF h assms(4)] assms(2,3) by simp
  then show "\<not> lt ((f(i := v)) i) ((f(i := v)) (i div 2))" by (simp add: refl)
  have "\<not> lt ((f(i := v)) n) ((f(i := v)) (n div 2))" if "0 < n" "n \<le> ct" "n div 2 \<noteq> i" for n
    using h [OF that(1,2)] up that(3) by (cases "n = i") auto
  moreover have "\<not> lt ((f(i := v)) n) ((f(i := v)) (i div 2))" if "0 < n" "n \<le> ct" "n div 2 = i" for n
  proof -
    have "\<not> lt (f n) (f i)" "\<not> lt (f i) (f (i div 2))" "n \<noteq> i" using h [OF that(1,2)] h [OF assms(2,3)] that by auto
    then show ?thesis using le_trans that(3) assms(2) by (metis div_less_dividend fun_upd_other one_less_numeral_iff order_less_irrefl semiring_norm(76))
  qed
  ultimately show "heap_but_down lt ct i (f(i := v))" unfolding heap_but_down_def by blast
qed

lemma heap_put_smaller:
  assumes "heap_ok lt ct f" "0 < i" "i \<le> ct" "\<not> lt (f i) v"
  shows "heap_but_up lt ct i (f(i := v))"
proof -
  have h: "\<not> lt (f n) (f (n div 2))" if "0 < n" "n \<le> ct" for n using assms(1) that by (simp add: heap_ok_def)
  have "\<not> lt ((f(i := v)) n) ((f(i := v)) (n div 2))" if "0 < n" "n \<le> ct" "n \<noteq> i" for n
    using h [OF that(1,2)] that(3) le_trans [OF assms(4), of "f n"] by auto
  moreover have "\<not> lt ((f(i := v)) n) ((f(i := v)) (i div 2))" if "0 < n" "n \<le> ct" "n div 2 = i" for n
  proof -
    have "n \<noteq> i" "i div 2 \<noteq> i" using that assms(2) by auto
    then show ?thesis using h [OF that(1,2)] that(3) le_trans [OF h [OF assms(2,3)], of "f n"] by simp
  qed
  ultimately show ?thesis unfolding heap_but_up_def by blast
qed

lemma heap_append: "heap_ok lt (i - 1) f \<Longrightarrow> 0 < i \<Longrightarrow> heap_but_up lt i i (f(i := v))"
  by (auto simp: heap_ok_def heap_but_up_def)

text \<open>When position 1 takes the root's place, the item that comes down is the only one that may be too large.\<close>

lemma root_exchange:
  assumes "\<And>n. 1 < n \<Longrightarrow> n \<le> ct \<Longrightarrow> \<not> lt (f n) (f (n div 2))" "lt (f 1) v"
  shows "heap_ok lt ct (sift_down lt ct 1 (f(1 := v, 0 := f 1)))"
proof (rule sift_down_heap)
  have "\<not> lt ((f(1 := v, 0 := f 1)) n) ((f(1 := v, 0 := f 1)) (n div 2))" if "0 < n" "n \<le> ct" "n div 2 \<noteq> 1" for n
    using that assms(1) [of n] asym [OF assms(2)] by (cases "n = 1") auto
  moreover have "\<not> lt ((f(1 := v, 0 := f 1)) n) ((f(1 := v, 0 := f 1)) (1 div 2))" if "0 < n" "n \<le> ct" "n div 2 = 1" for n
    using that assms(1) [of n] by (cases "n = 1") auto
  ultimately show "heap_but_down lt ct 1 (f(1 := v, 0 := f 1))" unfolding heap_but_down_def by blast
qed (use asym [OF assms(2)] in auto)

lemma heap_new_root: "heap_ok lt ct f \<Longrightarrow> (0 < ct \<Longrightarrow> \<not> lt (f 1) v) \<Longrightarrow> heap_ok lt ct (f(0 := v))"
  unfolding heap_ok_def
proof (intro allI impI)
  fix n assume a: "\<forall>n. 0 < n \<and> n \<le> ct \<longrightarrow> \<not> lt (f n) (f (n div 2))" "0 < ct \<Longrightarrow> \<not> lt (f 1) v" and n: "0 < n \<and> n \<le> ct"
  show "\<not> lt ((f(0 := v)) n) ((f(0 := v)) (n div 2))" using a n by (cases "n = 1") auto
qed

end

fun side_lt :: "side \<Rightarrow> u64 \<Rightarrow> u64 \<Rightarrow> bool" where
  "side_lt MinHeap a b = (a < b)"
| "side_lt MaxHeap a b = (b < a)"

interpretation side: heap_order "side_lt s" for s
  by unfold_locales (cases s; simp; fail)+

lemma side_lt_other [simp]: "side_lt (other_side s) a b = side_lt s b a"
  by (cases s) simp_all

lemma other_other [simp]: "other_side (other_side s) = s"
  by (cases s) simp_all

section \<open>The two arrays\<close>

text \<open>\<open>pos\<close> and \<open>heap\<close> are inverse to each other; \<open>view\<close> is the array of the values.\<close>

definition in_range :: "rolling_median \<Rightarrow> int \<Rightarrow> bool" where
  "in_range m i \<longleftrightarrow> 0 \<le> i + int (rm_N m div 2) \<and> i + int (rm_N m div 2) < int (rm_N m)"

definition occ :: "rolling_median \<Rightarrow> int \<Rightarrow> nat" where
  "occ m i = rm_heap m ! nat (i + int (rm_N m div 2))"

definition shape :: "rolling_median \<Rightarrow> bool" where
  "shape m \<longleftrightarrow> 0 < rm_N m \<and> length (rm_data m) = rm_N m \<and> length (rm_pos m) = rm_N m \<and> length (rm_heap m) = rm_N m
     \<and> (\<forall>k<rm_N m. in_range m (rm_pos m ! k) \<and> occ m (rm_pos m ! k) = k)
     \<and> (\<forall>i. in_range m i \<longrightarrow> occ m i < rm_N m \<and> rm_pos m ! occ m i = i)"

definition view :: "rolling_median \<Rightarrow> int \<Rightarrow> u64" where
  "view m i = (if in_range m i then rm_data m ! occ m i else 0)"

definition active :: "rolling_median \<Rightarrow> int \<Rightarrow> bool" where
  "active m i \<longleftrightarrow> - int (maxCt m) \<le> i \<and> i \<le> int (minCt m)"

definition well_formed :: "rolling_median \<Rightarrow> bool" where
  "well_formed m \<longleftrightarrow> shape m \<and> maxCt m \<le> rm_N m div 2 \<and> minCt m \<le> (rm_N m - 1) div 2"

text \<open>What the loops may do: move items between the slots of the two heaps.\<close>

definition rearranged :: "rolling_median \<Rightarrow> rolling_median \<Rightarrow> bool" where
  "rearranged m m' \<longleftrightarrow> well_formed m' \<and> m' = m\<lparr>rm_pos := rm_pos m', rm_heap := rm_heap m'\<rparr>
     \<and> (\<forall>k<rm_N m. active m (rm_pos m' ! k) = active m (rm_pos m ! k)
          \<and> (\<not> active m (rm_pos m ! k) \<longrightarrow> rm_pos m' ! k = rm_pos m ! k))"

lemma well_formed_shape: "well_formed m \<Longrightarrow> shape m"
  by (simp add: well_formed_def)

lemma active_in_range: "well_formed m \<Longrightarrow> active m i \<Longrightarrow> in_range m i"
  by (auto simp: well_formed_def shape_def active_def in_range_def)

lemma in_range_nat: "in_range m i \<Longrightarrow> nat (i + int (rm_N m div 2)) < rm_N m"
  by (auto simp: in_range_def)

lemma occ_inj: "shape m \<Longrightarrow> in_range m i \<Longrightarrow> in_range m j \<Longrightarrow> occ m i = occ m j \<longleftrightarrow> i = j"
  unfolding shape_def by metis

lemma shape_occ: "shape m \<Longrightarrow> in_range m i \<Longrightarrow> occ m i < rm_N m" "shape m \<Longrightarrow> in_range m i \<Longrightarrow> rm_pos m ! occ m i = i"
  "shape m \<Longrightarrow> k < rm_N m \<Longrightarrow> in_range m (rm_pos m ! k)" "shape m \<Longrightarrow> k < rm_N m \<Longrightarrow> occ m (rm_pos m ! k) = k"
  "shape m \<Longrightarrow> length (rm_data m) = rm_N m" "shape m \<Longrightarrow> length (rm_pos m) = rm_N m" "shape m \<Longrightarrow> length (rm_heap m) = rm_N m"
  by (auto simp: shape_def)

lemma rearranged_refl: "well_formed m \<Longrightarrow> rearranged m m"
  by (simp add: rearranged_def)

lemma rearranged_parts:
  assumes "rearranged m m'"
  shows "well_formed m'" "rm_data m' = rm_data m" "rm_N m' = rm_N m" "rm_idx m' = rm_idx m" "minCt m' = minCt m"
    "maxCt m' = maxCt m" "rm_size m' = rm_size m" "heap_count s m' = heap_count s m" "active m' = active m"
proof -
  have e: "m' = m\<lparr>rm_pos := rm_pos m', rm_heap := rm_heap m'\<rparr>" using assms by (simp add: rearranged_def)
  show "well_formed m'" using assms by (simp add: rearranged_def)
  show a: "rm_data m' = rm_data m" "rm_N m' = rm_N m" "rm_idx m' = rm_idx m" "minCt m' = minCt m"
    "maxCt m' = maxCt m" "rm_size m' = rm_size m" by (subst e; simp)+
  show "heap_count s m' = heap_count s m" by (cases s) (simp_all add: a)
  show "active m' = active m" by (rule ext) (simp add: active_def a)
qed

lemma rearranged_trans: "rearranged m m' \<Longrightarrow> rearranged m' m'' \<Longrightarrow> rearranged m m''"
proof -
  assume a: "rearranged m m'" and b: "rearranged m' m''"
  note p = rearranged_parts [OF a]
  have e: "m' = m\<lparr>rm_pos := rm_pos m', rm_heap := rm_heap m'\<rparr>" using a by (simp add: rearranged_def)
  have "m'' = m'\<lparr>rm_pos := rm_pos m'', rm_heap := rm_heap m''\<rparr>" using b by (simp add: rearranged_def)
  also have "\<dots> = m\<lparr>rm_pos := rm_pos m'', rm_heap := rm_heap m''\<rparr>" by (subst e) simp
  finally have f: "m'' = m\<lparr>rm_pos := rm_pos m'', rm_heap := rm_heap m''\<rparr>" .
  have "active m (rm_pos m'' ! k) = active m (rm_pos m ! k) \<and> (\<not> active m (rm_pos m ! k) \<longrightarrow> rm_pos m'' ! k = rm_pos m ! k)"
    if "k < rm_N m" for k
    using that a b by (simp add: rearranged_def p(3,9))
  then show ?thesis using b f unfolding rearranged_def by blast
qed

lemma heap_at_ok: "shape m \<Longrightarrow> in_range m i \<Longrightarrow> heap_at i m = Inr (occ m i)"
  by (auto simp: heap_at_def heap_index_def in_range_def occ_def shape_def Let_def)

lemma value_at_ok: "shape m \<Longrightarrow> in_range m i \<Longrightarrow> value_at i m = Inr (view m i)"
  by (simp add: value_at_def heap_at_ok view_def shape_occ)

lemma mmless_ok: "shape m \<Longrightarrow> in_range m i \<Longrightarrow> in_range m j \<Longrightarrow> mmless i j m = Inr (view m i < view m j)"
  by (simp add: mmless_def value_at_ok)

definition exchanged :: "int \<Rightarrow> int \<Rightarrow> rolling_median \<Rightarrow> rolling_median" where
  "exchanged i j m =
     m\<lparr>rm_heap := (rm_heap m)[nat (i + int (rm_N m div 2)) := occ m j, nat (j + int (rm_N m div 2)) := occ m i],
       rm_pos := (rm_pos m)[occ m j := i, occ m i := j]\<rparr>"

lemma exchanged_parts [simp]:
  "rm_N (exchanged i j m) = rm_N m" "rm_data (exchanged i j m) = rm_data m" "minCt (exchanged i j m) = minCt m"
  "maxCt (exchanged i j m) = maxCt m" "in_range (exchanged i j m) = in_range m" "active (exchanged i j m) = active m"
  "length (rm_pos (exchanged i j m)) = length (rm_pos m)" "length (rm_heap (exchanged i j m)) = length (rm_heap m)"
  by (auto simp: exchanged_def in_range_def active_def fun_eq_iff)

lemma nat_index_eq: "in_range m i \<Longrightarrow> in_range m j \<Longrightarrow>
    nat (i + int (rm_N m div 2)) = nat (j + int (rm_N m div 2)) \<longleftrightarrow> i = j"
  by (auto simp: in_range_def)

lemma exchanged_occ:
  assumes "shape m" "in_range m i" "in_range m j" "in_range m l"
  shows "occ (exchanged i j m) l = (if l = j then occ m i else if l = i then occ m j else occ m l)"
  using assms nat_index_eq [OF assms(2,4)] nat_index_eq [OF assms(3,4)] in_range_nat
  by (auto simp: occ_def exchanged_def nth_list_update shape_occ)

lemma exchanged_pos:
  assumes "shape m" "in_range m i" "in_range m j" "k < rm_N m"
  shows "rm_pos (exchanged i j m) ! k = (if k = occ m i then j else if k = occ m j then i else rm_pos m ! k)"
  using assms by (auto simp: exchanged_def nth_list_update shape_occ)

lemma exchanged_shape:
  assumes "shape m" "in_range m i" "in_range m j"
  shows "shape (exchanged i j m)"
proof -
  have "in_range m (rm_pos (exchanged i j m) ! k) \<and> occ (exchanged i j m) (rm_pos (exchanged i j m) ! k) = k"
    if "k < rm_N m" for k
  proof -
    have r: "in_range m (rm_pos (exchanged i j m) ! k)"
      using exchanged_pos [OF assms that] assms shape_occ(3) [OF assms(1) that] by simp
    show ?thesis
      using exchanged_occ [OF assms r] exchanged_pos [OF assms that] r assms shape_occ [OF assms(1)] that by auto
  qed
  moreover have "occ (exchanged i j m) l < rm_N m \<and> rm_pos (exchanged i j m) ! occ (exchanged i j m) l = l" if "in_range m l" for l
  proof -
    have r: "occ (exchanged i j m) l < rm_N m"
      using exchanged_occ [OF assms that] assms that shape_occ(1) [OF assms(1)] by simp
    show ?thesis
      using exchanged_occ [OF assms that] exchanged_pos [OF assms r] r assms shape_occ(2) [OF assms(1)] that
        occ_inj [OF assms(1)] by auto
  qed
  ultimately show ?thesis using assms(1) unfolding shape_def by simp
qed

lemma mmexchange_ok:
  assumes "shape m" "in_range m i" "in_range m j"
  shows "mmexchange i j m = Inr (exchanged i j m)"
proof -
  define h where "h = (rm_heap m)[nat (i + int (rm_N m div 2)) := occ m j, nat (j + int (rm_N m div 2)) := occ m i]"
  define m1 where "m1 = m\<lparr>rm_heap := h\<rparr>"
  have idx: "heap_index l (m\<lparr>rm_heap := h'\<rparr>) = Inr (nat (l + int (rm_N m div 2)))" if "in_range m l" "length h' = rm_N m" for l h'
    using that in_range_nat [OF that(1)] by (simp add: heap_index_def in_range_def Let_def)
  have s: "bindr (set_heap i (occ m j) m) (set_heap j (occ m i)) = Inr m1"
    using idx [OF assms(2), of "rm_heap m"] idx [OF assms(3), of "(rm_heap m)[nat (i + int (rm_N m div 2)) := occ m j]"]
      shape_occ(7) [OF assms(1)]
    by (simp add: set_heap_def m1_def h_def)
  then obtain m0 where m0: "set_heap i (occ m j) m = Inr m0" "set_heap j (occ m i) m0 = Inr m1" by (auto simp: bindr_Inr_iff)
  have at: "heap_at l (m1\<lparr>rm_pos := p\<rparr>) = Inr (if l = j then occ m i else occ m j)" if "l = i \<or> l = j" for l p
  proof -
    have "in_range m l" using that assms by blast
    moreover have "h ! nat (l + int (rm_N m div 2)) = (if l = j then occ m i else occ m j)"
      using that assms in_range_nat [OF assms(2)] in_range_nat [OF assms(3)] nat_index_eq [OF assms(2,3)]
      by (auto simp: h_def nth_list_update shape_occ)
    ultimately show ?thesis using idx [of l h] shape_occ(7) [OF assms(1)]
      by (simp add: heap_at_def m1_def h_def heap_index_def)
  qed
  have at1: "heap_at l m1 = Inr (if l = j then occ m i else occ m j)" if "l = i \<or> l = j" for l
    using at [OF that, of "rm_pos m1"] by simp
  have p: "rm_pos m1 = rm_pos m" "length (rm_pos m) = rm_N m" using assms by (simp_all add: m1_def shape_occ)
  show ?thesis
  proof (cases "i = j")
    case True
    then show ?thesis using m0 at1 [of i] at [of i] assms p
      by (simp add: mmexchange_def heap_at_ok set_pos_def shape_occ exchanged_def m1_def h_def)
  next
    case False
    then show ?thesis using m0 at1 [of i] at [of j] assms p
      by (simp add: mmexchange_def heap_at_ok set_pos_def shape_occ exchanged_def m1_def h_def)
  qed
qed

lemma exchanged_view:
  assumes "shape m" "in_range m i" "in_range m j"
  shows "view (exchanged i j m) = (view m)(i := view m j, j := view m i)"
  by (rule ext) (use assms in \<open>simp add: view_def exchanged_occ\<close>)

lemma exchanged_rearranged:
  assumes "well_formed m" "active m i" "active m j"
  shows "rearranged m (exchanged i j m)"
proof -
  note s = well_formed_shape [OF assms(1)] active_in_range [OF assms(1,2)] active_in_range [OF assms(1,3)]
  have "well_formed (exchanged i j m)" using assms(1) exchanged_shape [OF s] by (simp add: well_formed_def)
  moreover have "active m (rm_pos (exchanged i j m) ! k) = active m (rm_pos m ! k)
      \<and> (\<not> active m (rm_pos m ! k) \<longrightarrow> rm_pos (exchanged i j m) ! k = rm_pos m ! k)" if "k < rm_N m" for k
    using exchanged_pos [OF s that] assms(2,3) shape_occ(2) [OF s(1) s(2)] shape_occ(2) [OF s(1) s(3)] by auto
  ultimately show ?thesis by (simp add: rearranged_def) (simp add: exchanged_def)
qed

section \<open>The loops on one side\<close>

definition side_view :: "side \<Rightarrow> rolling_median \<Rightarrow> nat \<Rightarrow> u64" where
  "side_view s m n = view m (at_side s n)"

text \<open>The other side keeps everything above the root.\<close>

definition side_moves :: "side \<Rightarrow> rolling_median \<Rightarrow> rolling_median \<Rightarrow> bool" where
  "side_moves s m m' \<longleftrightarrow> rearranged m m' \<and> (\<forall>n>0. side_view (other_side s) m' n = side_view (other_side s) m n)"

lemma side_moves_refl: "well_formed m \<Longrightarrow> side_moves s m m"
  by (simp add: side_moves_def rearranged_refl)

lemma side_moves_trans: "side_moves s m m' \<Longrightarrow> side_moves s m' m'' \<Longrightarrow> side_moves s m m''"
  by (auto simp: side_moves_def intro: rearranged_trans)

lemma active_side: "n \<le> heap_count s m \<Longrightarrow> active m (at_side s n)"
  by (cases s) (simp_all add: active_def)

lemma at_side_eq [simp]: "at_side s n = at_side s k \<longleftrightarrow> n = k" "at_side (other_side s) n = at_side s k \<longleftrightarrow> n = 0 \<and> k = 0"
  by (cases s; auto)+

lemma side_view_root: "side_view s m 0 = view m 0" "side_view (other_side s) m 0 = side_view s m 0"
  by (cases s; simp add: side_view_def)+

lemma side_less_ok:
  "well_formed m \<Longrightarrow> n \<le> heap_count s m \<Longrightarrow> k \<le> heap_count s m \<Longrightarrow>
     side_less s n k m = Inr (side_lt s (side_view s m n) (side_view s m k))"
  using active_in_range [OF _ active_side, of m n s] active_in_range [OF _ active_side, of m k s]
  by (cases s) (simp_all add: mmless_ok well_formed_shape side_view_def)

lemma side_cmp_exch_ok:
  assumes "well_formed m" "n \<le> heap_count s m" "k \<le> heap_count s m"
  obtains m' where "side_cmp_exch s n k m = Inr (side_lt s (side_view s m n) (side_view s m k), m')" "side_moves s m m'"
    "side_view s m' = (if side_lt s (side_view s m n) (side_view s m k)
       then (side_view s m)(n := side_view s m k, k := side_view s m n) else side_view s m)"
proof (cases "side_lt s (side_view s m n) (side_view s m k)")
  case False
  then have "side_cmp_exch s n k m = Inr (False, m)"
    using side_less_ok [OF assms] by (cases s) (simp_all add: mmCmpExch_def)
  then show ?thesis using that False side_moves_refl [OF assms(1)] by simp
next
  case True
  note a = active_side [OF assms(2)] active_side [OF assms(3)]
  note r = active_in_range [OF assms(1) a(1)] active_in_range [OF assms(1) a(2)]
  note sh = well_formed_shape [OF assms(1)]
  define m' where "m' = (case s of MinHeap \<Rightarrow> exchanged (int n) (int k) m | MaxHeap \<Rightarrow> exchanged (- int k) (- int n) m)"
  have "side_cmp_exch s n k m = Inr (True, m')"
    using side_less_ok [OF assms] True r sh by (cases s) (simp_all add: mmCmpExch_def mmexchange_ok m'_def)
  moreover have v: "view m' = (view m)(at_side s n := view m (at_side s k), at_side s k := view m (at_side s n))"
    using r sh by (cases s) (auto simp: m'_def exchanged_view fun_eq_iff)
  then have "side_view s m' = (side_view s m)(n := side_view s m k, k := side_view s m n)"
    by (simp add: fun_eq_iff side_view_def)
  moreover have "rearranged m m'"
    using exchanged_rearranged [OF assms(1)] a by (cases s) (simp_all add: m'_def)
  then have "side_moves s m m'" using v by (simp add: side_moves_def side_view_def)
  ultimately show ?thesis using that True by simp
qed

lemma side_moves_parts:
  assumes "side_moves s m m'"
  shows "well_formed m'" "heap_count t m' = heap_count t m" "rearranged m m'"
    "0 < n \<Longrightarrow> side_view (other_side s) m' n = side_view (other_side s) m n"
    "side_view (other_side s) m' = (side_view (other_side s) m)(0 := side_view s m' 0)"
  using assms rearranged_parts [of m m'] by (auto simp: side_moves_def fun_eq_iff side_view_root)

lemma sort_up_ok:
  assumes "well_formed m" "i \<le> heap_count s m"
  obtains m' where "sort_up s i m = Inr (fst (sift_up (side_lt s) i (side_view s m)) = 0, m')" "side_moves s m m'"
    "side_view s m' = snd (sift_up (side_lt s) i (side_view s m))"
  using assms
proof (induction i arbitrary: m thesis rule: less_induct)
  case (less i)
  show ?case
  proof (cases "0 < i")
    case False
    then show ?thesis
      by (intro less.prems(1) [OF _ side_moves_refl [OF less.prems(2)]])
        (simp_all add: sort_up.simps [of s 0] sift_up.simps [of _ 0])
  next
    case i: True
    obtain m1 where m1: "side_cmp_exch s i (i div 2) m = Inr (side_lt s (side_view s m i) (side_view s m (i div 2)), m1)"
      "side_moves s m m1" "side_view s m1 = (if side_lt s (side_view s m i) (side_view s m (i div 2))
         then (side_view s m)(i := side_view s m (i div 2), i div 2 := side_view s m i) else side_view s m)"
      by (rule side_cmp_exch_ok [of m i s "i div 2"]) (use less.prems in auto)
    show ?thesis
    proof (cases "side_lt s (side_view s m i) (side_view s m (i div 2))")
      case False
      then show ?thesis using m1 i less.prems(1) by (auto simp: sort_up.simps [of s i] sift_up.simps [of _ i])
    next
      case True
      obtain m2 where m2: "sort_up s (i div 2) m1 = Inr (fst (sift_up (side_lt s) (i div 2) (side_view s m1)) = 0, m2)"
        "side_moves s m1 m2" "side_view s m2 = snd (sift_up (side_lt s) (i div 2) (side_view s m1))"
        by (rule less.IH [of "i div 2" m1]) (use i less.prems side_moves_parts(1,2) [OF m1(2)] in auto)
      show ?thesis
        by (rule less.prems(1) [OF _ side_moves_trans [OF m1(2) m2(2)]])
          (use True i m1 m2 in \<open>simp_all add: sort_up.simps [of s i] sift_up.simps [of _ i]\<close>)
    qed
  qed
qed

lemma sort_down_step:
  assumes "well_formed m" "0 < i" "2 * i \<le> heap_count s m"
    and c: "c = lesser_child (side_lt s) (heap_count s m) i (side_view s m)"
  shows "sort_down s i m = bindr (side_cmp_exch s c i m) (\<lambda>(swapped, m). if swapped then sort_down s c m else Inr m)"
proof -
  have c_if: "(if 2 * i < heap_count s m \<and> side_lt s (side_view s m (2 * i + 1)) (side_view s m (2 * i)) then 2 * i + 1 else 2 * i) = c"
    by (simp add: c lesser_child_def)
  have right: "(if 2 * i < heap_count s m then side_less s (2 * i + 1) (2 * i) m else Inr False)
      = Inr (2 * i < heap_count s m \<and> side_lt s (side_view s m (2 * i + 1)) (side_view s m (2 * i)))"
    using assms(3) side_less_ok [OF assms(1), of "2 * i + 1" s "2 * i"] by simp
  have k: "c div 2 = i" using side.lesser_child_least(3) [of i "heap_count s m" s "side_view s m", OF assms(2,3)] c by simp
  show ?thesis
    using assms(3) unfolding sort_down.simps [of s i] Let_def right bindr_simps c_if k by simp
qed

lemma sort_down_ok:
  assumes "well_formed m" "0 < i"
  obtains m' where "sort_down s i m = Inr m'" "side_moves s m m'"
    "side_view s m' = sift_down (side_lt s) (heap_count s m) i (side_view s m)"
  using assms
proof (induction "Suc (heap_count s m) - i" arbitrary: i m thesis rule: less_induct)
  case less
  define ct where "ct = heap_count s m"
  define c where "c = lesser_child (side_lt s) ct i (side_view s m)"
  show ?case
  proof (cases "2 * i \<le> ct")
    case False
    then show ?thesis using less.prems(1) [OF _ side_moves_refl [OF less.prems(2)]] less.prems(3)
      by (simp add: sort_down.simps [of s i] ct_def Let_def sift_down_stop)
  next
    case True
    note k = side.lesser_child_least [of i ct, OF less.prems(3) True, where f="side_view s m" and s=s, folded c_def]
    note step = sort_down_step [OF less.prems(2,3) True [unfolded ct_def] c_def [unfolded ct_def]]
    obtain m1 where m1: "side_cmp_exch s c i m = Inr (side_lt s (side_view s m c) (side_view s m i), m1)"
      "side_moves s m m1" "side_view s m1 = (if side_lt s (side_view s m c) (side_view s m i)
         then (side_view s m)(c := side_view s m i, i := side_view s m c) else side_view s m)"
      by (rule side_cmp_exch_ok [of m c s i]) (use less.prems True k(1) in \<open>auto simp: ct_def\<close>)
    show ?thesis
    proof (cases "side_lt s (side_view s m c) (side_view s m i)")
      case False
      then show ?thesis using m1 less.prems(1) step by (simp add: sift_down_stop c_def ct_def)
    next
      case swap: True
      obtain m2 where m2: "sort_down s c m1 = Inr m2" "side_moves s m1 m2"
        "side_view s m2 = sift_down (side_lt s) (heap_count s m1) c (side_view s m1)"
        by (rule less.hyps [of m1 c]) (use k(1,2) less.prems side_moves_parts(1,2) [OF m1(2)] in \<open>auto simp: ct_def\<close>)
      have "sift_down (side_lt s) ct i (side_view s m) = sift_down (side_lt s) ct c (side_view s m1)"
        using swap True less.prems(3) m1(3) by (subst sift_down.simps) (simp add: c_def Let_def)
      then show ?thesis
        using less.prems(1) [OF _ side_moves_trans [OF m1(2) m2(2)]] swap m1 m2 side_moves_parts(2) [OF m1(2)] step
        by (simp add: ct_def)
    qed
  qed
qed

definition side_ok :: "side \<Rightarrow> rolling_median \<Rightarrow> bool" where
  "side_ok s m \<longleftrightarrow> heap_ok (side_lt s) (heap_count s m) (side_view s m)"

lemma side_ok_same: "side_moves s m m' \<Longrightarrow> side_view s m' 0 = side_view s m 0 \<Longrightarrow> side_ok (other_side s) m' = side_ok (other_side s) m"
proof -
  assume a: "side_moves s m m'" "side_view s m' 0 = side_view s m 0"
  have "side_view (other_side s) m' = side_view (other_side s) m"
    unfolding side_moves_parts(5) [OF a(1)] a(2) by (simp add: fun_eq_iff side_view_root)
  then show ?thesis using side_moves_parts(2) [OF a(1)] by (simp add: side_ok_def)
qed

lemma side_ok_new_root:
  assumes "side_moves s m m'" "side_ok (other_side s) m"
    "0 < heap_count (other_side s) m \<Longrightarrow> \<not> side_lt (other_side s) (side_view (other_side s) m 1) (side_view s m' 0)"
  shows "side_ok (other_side s) m'"
proof -
  have "heap_ok (side_lt (other_side s)) (heap_count (other_side s) m) ((side_view (other_side s) m)(0 := side_view s m' 0))"
    using assms(2,3) by (intro side.heap_new_root) (simp_all add: side_ok_def)
  then show ?thesis unfolding side_ok_def side_moves_parts(5) [OF assms(1)] side_moves_parts(2) [OF assms(1)] .
qed

text \<open>Above its root a side is a heap; the root and position 1 are put in order, and what comes down sinks.\<close>

definition above_root :: "side \<Rightarrow> rolling_median \<Rightarrow> bool" where
  "above_root s m \<longleftrightarrow> (\<forall>n. 1 < n \<and> n \<le> heap_count s m \<longrightarrow> \<not> side_lt s (side_view s m n) (side_view s m (n div 2)))"

lemma side_ok_above: "side_ok s m \<Longrightarrow> above_root s m"
  by (simp add: side_ok_def heap_ok_def above_root_def)

lemma above_root_cong:
  assumes "above_root s m" "heap_count s m' = heap_count s m" "\<And>n. 0 < n \<Longrightarrow> side_view s m' n = side_view s m n"
  shows "above_root s m'"
proof -
  have "\<not> side_lt s (side_view s m' n) (side_view s m' (n div 2))" if "1 < n" "n \<le> heap_count s m" for n
  proof -
    have "0 < n" "0 < n div 2" using that(1) by auto
    then show ?thesis using assms(1,3) that by (simp add: above_root_def)
  qed
  then show ?thesis by (simp add: above_root_def assms(2))
qed

definition root_ordered :: "side \<Rightarrow> rolling_median \<Rightarrow> rolling_median \<Rightarrow> bool" where
  "root_ordered s m m' \<longleftrightarrow> side_moves s m m' \<and> side_ok s m'
     \<and> (if 0 < heap_count s m \<and> side_lt s (side_view s m 1) (side_view s m 0) then side_view s m' 0 = side_view s m 1
        else side_view s m' = side_view s m)"

lemma order_root:
  assumes w: "well_formed m" "0 < heap_count s m" and above: "above_root s m"
  obtains m' where "bindr (side_cmp_exch s 1 0 m) (\<lambda>(swapped, m). if swapped then sort_down s 1 m else Inr m) = Inr m'"
    "root_ordered s m m'"
proof -
  obtain m1 where m1: "side_cmp_exch s 1 0 m = Inr (side_lt s (side_view s m 1) (side_view s m 0), m1)" "side_moves s m m1"
    "side_view s m1 = (if side_lt s (side_view s m 1) (side_view s m 0)
       then (side_view s m)(1 := side_view s m 0, 0 := side_view s m 1) else side_view s m)"
    by (rule side_cmp_exch_ok [of m 1 s 0]) (use w in auto)
  show ?thesis
  proof (cases "side_lt s (side_view s m 1) (side_view s m 0)")
    case False
    have "\<not> side_lt s (side_view s m n) (side_view s m (n div 2))" if "0 < n" "n \<le> heap_count s m" for n
      using above False that by (cases "n = 1") (auto simp: above_root_def)
    then have "side_ok s m1" using m1(3) False side_moves_parts(2) [OF m1(2)] by (simp add: side_ok_def heap_ok_def)
    then show ?thesis using that [of m1] m1 False by (simp add: root_ordered_def)
  next
    case True
    obtain m2 where m2: "sort_down s 1 m1 = Inr m2" "side_moves s m1 m2"
      "side_view s m2 = sift_down (side_lt s) (heap_count s m1) 1 (side_view s m1)"
      by (rule sort_down_ok [of m1 1 s]) (use side_moves_parts(1) [OF m1(2)] in auto)
    have v: "side_view s m2 = sift_down (side_lt s) (heap_count s m) 1 ((side_view s m)(1 := side_view s m 0, 0 := side_view s m 1))"
      using m1(3) m2(3) True side_moves_parts(2) [OF m1(2)] by simp
    have "side_ok s m2"
      using side.root_exchange [of "heap_count s m" s "side_view s m", OF _ True] above
      unfolding side_ok_def v side_moves_parts(2) [OF side_moves_trans [OF m1(2) m2(2)]] above_root_def by blast
    moreover have "side_view s m2 0 = side_view s m 1" unfolding v by (subst side.sift_down_above) simp_all
    ultimately have "root_ordered s m m2" using side_moves_trans [OF m1(2) m2(2)] True w(2) by (simp add: root_ordered_def)
    then show ?thesis using that m1(1) m2(1) True by simp
  qed
qed

lemma sort_up_first: "sort_up s 1 m = side_cmp_exch s 1 0 m"
  by (cases "side_cmp_exch s 1 0 m") (auto simp: sort_up.simps [of s "Suc 0"] sort_up.simps [of s 0])

lemma new_root_ok:
  assumes w: "well_formed m" and above: "above_root s m"
  obtains m' where "new_root s m = Inr m'" "root_ordered s m m'"
proof (cases "heap_count s m = 0")
  case True
  then have "root_ordered s m m" using side_moves_refl [OF w] by (simp add: root_ordered_def side_ok_def heap_ok_def)
  then show ?thesis using that [of m] True by (simp add: new_root_def)
next
  case False
  then have "0 < heap_count s m" by simp
  from order_root [OF w this above] False that show ?thesis
    unfolding new_root_def sort_up_first by auto
qed

text \<open>A new root that was pushed up from one side meets the other.\<close>

lemma meet_other:
  assumes m1: "side_moves s m m1" "side_ok s m1" and top: "side_view s m1 1 = side_view s m 0"
    and other: "side_ok (other_side s) m" and c: "0 < heap_count (other_side s) m"
  obtains m2 where "bindr (side_cmp_exch (other_side s) 1 0 m1) (\<lambda>(swapped, m).
      if swapped then sort_down (other_side s) 1 m else Inr m) = Inr m2"
    "rearranged m1 m2" "side_ok s m2" "side_ok (other_side s) m2"
proof -
  have up: "above_root (other_side s) m1"
    by (rule above_root_cong [OF side_ok_above [OF other]]) (use side_moves_parts [OF m1(1)] in auto)
  have c1: "0 < heap_count (other_side s) m1" using c side_moves_parts(2) [OF m1(1)] by simp
  obtain m2 where m2: "bindr (side_cmp_exch (other_side s) 1 0 m1) (\<lambda>(swapped, m).
      if swapped then sort_down (other_side s) 1 m else Inr m) = Inr m2" "root_ordered (other_side s) m1 m2"
    by (rule order_root [OF side_moves_parts(1) [OF m1(1)] c1 up])
  then have mv: "side_moves (other_side s) m1 m2" "side_ok (other_side s) m2" by (simp_all add: root_ordered_def)
  have r: "side_view (other_side s) m2 0 = (if side_lt (other_side s) (side_view (other_side s) m1 1) (side_view (other_side s) m1 0)
      then side_view (other_side s) m1 1 else side_view (other_side s) m1 0)"
    using m2(2) c1 by (simp add: root_ordered_def split: if_splits)
  have "side_view (other_side s) m1 1 = side_view (other_side s) m 1" using side_moves_parts(4) [OF m1(1)] by simp
  moreover have "\<not> side_lt (other_side s) (side_view (other_side s) m 1) (side_view s m 0)"
    using c other side.heap_root [of "other_side s" "heap_count (other_side s) m" "side_view (other_side s) m" 1]
    by (simp add: side_ok_def side_view_root)
  moreover have "\<not> side_lt s (side_view s m1 1) (side_view s m1 0)" if "0 < heap_count s m1"
    using that m1(2) side.heap_root [of s "heap_count s m1" "side_view s m1" 1] by (simp add: side_ok_def)
  ultimately have "\<not> side_lt s (side_view s m1 1) (side_view (other_side s) m2 0)" if "0 < heap_count s m1"
    using that r top by (auto simp: side_view_root split: if_splits)
  then have "side_ok s m2" using side_ok_new_root [OF mv(1), unfolded other_other, OF m1(2)] by simp
  then show ?thesis using that m2(1) mv side_moves_parts(3) [OF mv(1)] by blast
qed

text \<open>A new item at position \<open>i\<close> of one side that may be too small there.\<close>

lemma restore_ok:
  assumes w: "well_formed m" "0 < i" "i \<le> heap_count s m"
    and up: "heap_but_up (side_lt s) (heap_count s m) i (side_view s m)"
    and other: "side_ok (other_side s) m" and some: "s = MinHeap \<Longrightarrow> 0 < maxCt m"
  obtains m' where "restore s i m = Inr m'" "rearranged m m'" "side_ok s m'" "side_ok (other_side s) m'"
proof -
  obtain m1 where m1: "sort_up s i m = Inr (fst (sift_up (side_lt s) i (side_view s m)) = 0, m1)" "side_moves s m m1"
    "side_view s m1 = snd (sift_up (side_lt s) i (side_view s m))"
    by (rule sort_up_ok [OF w(1,3)])
  have ok1: "side_ok s m1"
    using side.sift_up_heap [OF up] m1(3) side_moves_parts(2) [OF m1(2)] by (simp add: side_ok_def)
  show ?thesis
  proof (cases "fst (sift_up (side_lt s) i (side_view s m)) = 0")
    case False
    then have "side_view s m1 0 = side_view s m 0" using side.sift_up_root(2) [OF w(2), of s "side_view s m"] m1(3) by simp
    then have "side_ok (other_side s) m1" using side_ok_same [OF m1(2)] other by simp
    then show ?thesis using that m1 ok1 side_moves_parts(3) [OF m1(2)] False by (simp add: restore_def)
  next
    case True
    note top = side.sift_up_root(1) [OF w(2) True, folded m1(3)]
    have guard: "s = MinHeap \<or> minCt m1 \<noteq> 0 \<longleftrightarrow> heap_count (other_side s) m \<noteq> 0"
      using some side_moves_parts(2) [OF m1(2), of MinHeap] by (cases s) auto
    show ?thesis
    proof (cases "heap_count (other_side s) m = 0")
      case c: True
      then have "side_ok (other_side s) m1" using side_moves_parts(2) [OF m1(2)] by (simp add: side_ok_def heap_ok_def)
      then show ?thesis using that m1 ok1 side_moves_parts(3) [OF m1(2)] True guard c by (simp add: restore_def)
    next
      case c: False
      then have "0 < heap_count (other_side s) m" by simp
      from meet_other [OF m1(2) ok1 _ other this] top obtain m2 where m2: "bindr (side_cmp_exch (other_side s) 1 0 m1)
          (\<lambda>(swapped, m). if swapped then sort_down (other_side s) 1 m else Inr m) = Inr m2"
        "rearranged m1 m2" "side_ok s m2" "side_ok (other_side s) m2" by blast
      have "restore s i m = Inr m2" using m1(1) True guard c m2(1) by (simp add: restore_def)
      then show ?thesis using that m2 rearranged_trans [OF side_moves_parts(3) [OF m1(2)] m2(2)] by blast
    qed
  qed
qed

end
