(* ===== verification/MedianWindow.thy ===== *)
theory MedianWindow
  imports RollingMedian
begin

section \<open>The fill pattern\<close>

lemma fill_position_range: "k < N \<Longrightarrow> 0 \<le> fill_position k + int (N div 2) \<and> fill_position k + int (N div 2) < int N"
  by (auto simp: fill_position_def elim!: oddE evenE)

lemma fill_position_active:
  "0 < n \<Longrightarrow> - int (n div 2) \<le> fill_position k \<and> fill_position k \<le> int ((n - 1) div 2) \<longleftrightarrow> k < n"
  by (cases "odd k"; cases "odd n") (auto simp: fill_position_def elim!: oddE evenE)

lemma fill_position_inj: "fill_position k = fill_position l \<longleftrightarrow> k = l"
  by (auto simp: fill_position_def split: if_splits; presburger)

lemma fill_position_onto:
  assumes "0 \<le> i + int (N div 2)" "i + int (N div 2) < int N"
  obtains k where "k < N" "fill_position k = i"
proof (cases "0 \<le> i")
  case True
  then show ?thesis using that [of "2 * nat i"] assms by (auto simp: fill_position_def)
next
  case False
  then have "fill_position (2 * nat (- i) - 1) = i" by (cases "nat (- i)") (auto simp: fill_position_def)
  moreover have "2 * nat (- i) - 1 < N" using False assms by linarith
  ultimately show ?thesis using that by blast
qed

lemma fill_loop_ok:
  assumes "distinct ks" "set ks \<subseteq> {..<rm_N m}" "length (rm_pos m) = rm_N m" "length (rm_heap m) = rm_N m"
  obtains m' where "fill_loop ks m = Inr m'" "m' = m\<lparr>rm_pos := rm_pos m', rm_heap := rm_heap m'\<rparr>"
    "length (rm_pos m') = rm_N m" "length (rm_heap m') = rm_N m"
    "\<forall>k<rm_N m. rm_pos m' ! k = (if k \<in> set ks then fill_position k else rm_pos m ! k)"
    "\<forall>k<rm_N m. occ m' (fill_position k) = (if k \<in> set ks then k else occ m (fill_position k))"
  using assms
proof (induction ks arbitrary: m thesis)
  case Nil
  then show ?case by simp
next
  case (Cons k ks)
  note r = fill_position_range
  have k: "k < rm_N m" using Cons.prems by auto
  define m1 where "m1 = m\<lparr>rm_pos := (rm_pos m)[k := fill_position k],
      rm_heap := (rm_heap m)[nat (fill_position k + int (rm_N m div 2)) := k]\<rparr>"
  have s: "bindr (set_pos k (fill_position k) m) (\<lambda>m. bindr (set_heap (fill_position k) k m) (fill_loop ks)) = fill_loop ks m1"
    using k r [OF k] Cons.prems(4,5) by (simp add: set_pos_def set_heap_def heap_index_def m1_def nat_less_iff)
  obtain m' where m': "fill_loop ks m1 = Inr m'" "m' = m1\<lparr>rm_pos := rm_pos m', rm_heap := rm_heap m'\<rparr>"
    "length (rm_pos m') = rm_N m1" "length (rm_heap m') = rm_N m1"
    "\<forall>k<rm_N m1. rm_pos m' ! k = (if k \<in> set ks then fill_position k else rm_pos m1 ! k)"
    "\<forall>k<rm_N m1. occ m' (fill_position k) = (if k \<in> set ks then k else occ m1 (fill_position k))"
    by (rule Cons.IH [of m1]) (use Cons.prems in \<open>auto simp: m1_def\<close>)
  have "m' = m\<lparr>rm_pos := rm_pos m', rm_heap := rm_heap m'\<rparr>" by (subst m'(2)) (simp add: m1_def)
  moreover have "occ m1 (fill_position l) = (if l = k then k else occ m (fill_position l))" if "l < rm_N m" for l
    using r [OF that] r [OF k] Cons.prems(5) fill_position_inj [of l k]
    by (auto simp: occ_def m1_def nth_list_update nat_less_iff)
  ultimately show ?case using m' Cons.prems(2,4,5) s k
    by (intro Cons.prems(1) [of m']) (auto simp: m1_def)
qed

section \<open>Insertion\<close>

text \<open>What a structure of \<open>N\<close> items keeps of the values \<open>hist\<close> inserted into it, but for the order of its heaps.\<close>

definition books :: "nat \<Rightarrow> u64 list \<Rightarrow> rolling_median \<Rightarrow> bool" where
  "books N hist m \<longleftrightarrow> well_formed m \<and> rm_N m = N \<and> rm_idx m = length hist mod N \<and> rm_size m = min (length hist) N
     \<and> minCt m = (rm_size m - 1) div 2 \<and> maxCt m = rm_size m div 2
     \<and> (\<forall>k<N. rm_size m \<le> k \<longrightarrow> rm_pos m ! k = fill_position k)
     \<and> (0 < rm_size m \<longrightarrow> (\<forall>k<N. k < rm_size m \<longleftrightarrow> active m (rm_pos m ! k)))
     \<and> (\<forall>t. length hist - N \<le> t \<and> t < length hist \<longrightarrow> rm_data m ! (t mod N) = hist ! t)"

definition rolling :: "nat \<Rightarrow> u64 list \<Rightarrow> rolling_median \<Rightarrow> bool" where
  "rolling N hist m \<longleftrightarrow> books N hist m \<and> (\<forall>s. side_ok s m)"

lemma books_shape: "books N hist m \<Longrightarrow> shape m" "books N hist m \<Longrightarrow> 0 < N" "books N hist m \<Longrightarrow> rm_N m = N"
  "books N hist m \<Longrightarrow> rm_idx m < N"
  by (auto simp: books_def well_formed_def shape_def)

lemma books_slots:
  assumes "books N hist m" "k < N"
  shows "0 < rm_size m \<Longrightarrow> active m (rm_pos m ! k) \<longleftrightarrow> k < rm_size m" "rm_size m \<le> k \<Longrightarrow> rm_pos m ! k = fill_position k"
  using assms unfolding books_def by blast+

lemma books_rearranged:
  assumes b: "books N hist m" and r: "rearranged m m'" and n: "0 < rm_size m"
  shows "books N hist m'"
proof -
  note p = rearranged_parts [OF r]
  have a: "active m (rm_pos m' ! k) = active m (rm_pos m ! k)" "\<not> active m (rm_pos m ! k) \<Longrightarrow> rm_pos m' ! k = rm_pos m ! k"
    if "k < rm_N m" for k
    using r that by (auto simp: rearranged_def)
  have "rm_pos m' ! k = fill_position k" if "k < N" "rm_size m \<le> k" for k
    using that a(2) [of k] books_slots [OF b that(1)] n books_shape(3) [OF b] by auto
  moreover have "active m' (rm_pos m' ! k) \<longleftrightarrow> k < rm_size m'" if "k < N" for k
    using that a(1) [of k] books_slots [OF b that] n b p by (simp add: books_def)
  ultimately show ?thesis using b p unfolding books_def by simp
qed

text \<open>The state after the first lines of \<open>insert\<close> and the update of a count.\<close>

definition placed :: "u64 \<Rightarrow> rolling_median \<Rightarrow> rolling_median" where
  "placed v m = m\<lparr>rm_data := (rm_data m)[rm_idx m := v], rm_idx := (rm_idx m + 1) mod rm_N m,
     rm_size := min (rm_size m + 1) (rm_N m), minCt := (min (rm_size m + 1) (rm_N m) - 1) div 2,
     maxCt := min (rm_size m + 1) (rm_N m) div 2\<rparr>"

lemma placed_parts [simp]:
  "rm_pos (placed v m) = rm_pos m" "rm_heap (placed v m) = rm_heap m" "rm_N (placed v m) = rm_N m"
  "occ (placed v m) = occ m" "in_range (placed v m) = in_range m" "rm_data (placed v m) = (rm_data m)[rm_idx m := v]"
  "rm_size (placed v m) = min (rm_size m + 1) (rm_N m)" "rm_idx (placed v m) = (rm_idx m + 1) mod rm_N m"
  "minCt (placed v m) = (min (rm_size m + 1) (rm_N m) - 1) div 2" "maxCt (placed v m) = min (rm_size m + 1) (rm_N m) div 2"
  by (auto simp: placed_def occ_def in_range_def fun_eq_iff)

lemma view_placed:
  assumes "books N hist m"
  shows "view (placed v m) = (view m)(rm_pos m ! rm_idx m := v)"
proof
  fix i
  note s = books_shape [OF assms]
  show "view (placed v m) i = ((view m)(rm_pos m ! rm_idx m := v)) i"
    using s shape_occ [OF s(1)] by (auto simp: view_def nth_list_update)
qed

lemma placed_data:
  assumes b: "books N hist m" and t: "length hist + 1 - N \<le> t" "t < length hist + 1"
  shows "(rm_data m)[rm_idx m := v] ! (t mod N) = (hist @ [v]) ! t"
proof -
  note s = books_shape [OF b]
  have i: "rm_idx m = length hist mod N" "length (rm_data m) = N" using b s shape_occ(5) by (auto simp: books_def)
  show ?thesis
  proof (cases "t = length hist")
    case False
    have "t mod N \<noteq> length hist mod N"
    proof
      assume "t mod N = length hist mod N"
      then have "N dvd length hist - t" using t by (metis less_Suc_eq_le Suc_eq_plus1 mod_eq_dvd_iff_nat)
      then show False using False t by (auto dest: dvd_imp_le)
    qed
    moreover have "rm_data m ! (t mod N) = hist ! t" using b t False by (simp add: books_def)
    ultimately show ?thesis using i t False by (simp add: nth_append)
  qed (use i s in simp)
qed

lemma books_placed:
  assumes b: "books N hist m"
  shows "books N (hist @ [v]) (placed v m)"
proof -
  note s = books_shape [OF b]
  have n: "min (length hist + 1) N = min (rm_size m + 1) N" using b s by (auto simp: books_def)
  have fill: "rm_pos m ! k = fill_position k" if "k < N" "rm_size m \<le> k" for k using b that by (simp add: books_def)
  have act: "active (placed v m) (rm_pos m ! k) \<longleftrightarrow> k < min (rm_size m + 1) N" if k: "k < N" for k
  proof (cases "rm_size m \<le> k")
    case True
    then show ?thesis using fill_position_active [of "min (rm_size m + 1) N" k] fill [OF k] s(2,3)
      by (simp add: active_def)
  next
    case False
    then have "active m (rm_pos m ! k)" using books_slots(1) [OF b k] by simp
    moreover have "maxCt m \<le> maxCt (placed v m)" "minCt m \<le> minCt (placed v m)"
      using b s(3) by (auto simp: books_def intro!: div_le_mono)
    ultimately have "active (placed v m) (rm_pos m ! k)" unfolding active_def by linarith
    then show ?thesis using False k by simp
  qed
  have "well_formed (placed v m)"
    using s unfolding well_formed_def shape_def by (auto intro!: div_le_mono)
  moreover have "(length hist mod N + 1) mod N = (length hist + 1) mod N" by (simp add: mod_Suc_eq)
  ultimately show ?thesis
    using b s act fill placed_data [OF b, of _ v] n by (auto simp: books_def)
qed

lemma side_of_position:
  obtains s n where "i = at_side s n"
  using that [of MinHeap "nat i"] that [of MaxHeap "nat (- i)"] by (cases "0 \<le> i") simp_all

lemma filling_position:
  assumes b: "books N hist m" and f: "rm_size m < N"
  shows "rm_pos m ! rm_idx m = at_side (if odd (rm_size m) then MaxHeap else MinHeap) ((rm_size m + 1) div 2)"
proof -
  have "rm_idx m = rm_size m" using b f by (auto simp: books_def)
  then show ?thesis using books_slots(2) [OF b f] by (auto simp: fill_position_def)
qed

lemma filling_side:
  assumes b: "books N hist m" and f: "rm_size m < N" and p: "rm_pos m ! rm_idx m = at_side s n" "0 < n"
  shows "n = (rm_size m + 1) div 2" "s = (if odd (rm_size m) then MaxHeap else MinHeap)"
  using p filling_position [OF b f] by (cases s; simp split: if_splits)+

text \<open>The first lines of \<open>insert\<close>, without the counts.\<close>

definition written :: "u64 \<Rightarrow> rolling_median \<Rightarrow> rolling_median" where
  "written v m = m\<lparr>rm_data := (rm_data m)[rm_idx m := v], rm_idx := (rm_idx m + 1) mod rm_N m,
     rm_size := min (rm_size m + 1) (rm_N m)\<rparr>"

lemma written_counts [simp]: "minCt (written v m) = minCt m" "maxCt (written v m) = maxCt m" "rm_N (written v m) = rm_N m"
  by (simp_all add: written_def)

lemma written_placed:
  assumes b: "books N hist m"
  shows "rm_size m = N \<Longrightarrow> written v m = placed v m"
    and "rm_size m < N \<Longrightarrow> rm_pos m ! rm_idx m = int n \<Longrightarrow> 0 < n \<Longrightarrow> written v m\<lparr>minCt := minCt m + 1\<rparr> = placed v m"
    and "rm_size m < N \<Longrightarrow> rm_pos m ! rm_idx m = - int n \<Longrightarrow> 0 < n \<Longrightarrow> written v m\<lparr>maxCt := maxCt m + 1\<rparr> = placed v m"
    and "rm_size m < N \<Longrightarrow> rm_pos m ! rm_idx m = 0 \<Longrightarrow> written v m = placed v m"
proof -
  have c: "minCt m = (rm_size m - 1) div 2" "maxCt m = rm_size m div 2" "rm_N m = N" using b by (simp_all add: books_def)
  show "written v m = placed v m" if "rm_size m = N"
    using c that by (simp add: placed_def written_def)
  show "written v m\<lparr>minCt := minCt m + 1\<rparr> = placed v m" if f: "rm_size m < N" and p: "rm_pos m ! rm_idx m = int n" "0 < n"
  proof -
    have "n = (rm_size m + 1) div 2" "even (rm_size m)"
      using filling_side [OF b f, of MinHeap n] p by (simp_all split: if_splits)
    then have "(rm_size m - 1) div 2 + 1 = rm_size m div 2" "(rm_size m + 1) div 2 = rm_size m div 2" using p(2) by presburger+
    then show ?thesis using c f by (simp add: placed_def written_def)
  qed
  show "written v m\<lparr>maxCt := maxCt m + 1\<rparr> = placed v m" if f: "rm_size m < N" and p: "rm_pos m ! rm_idx m = - int n" "0 < n"
  proof -
    have "odd (rm_size m)" using filling_side [OF b f, of MaxHeap n] p by (simp split: if_splits)
    then have "rm_size m div 2 + 1 = (rm_size m + 1) div 2" "(rm_size m - 1) div 2 = rm_size m div 2" by presburger+
    then show ?thesis using c f by (simp add: placed_def written_def)
  qed
  show "written v m = placed v m" if f: "rm_size m < N" and p: "rm_pos m ! rm_idx m = 0"
  proof -
    have "rm_size m = 0" using filling_position [OF b f] p by (simp split: if_splits) presburger+
    then show ?thesis using c f by (simp add: placed_def written_def)
  qed
qed

lemma counts_full:
  assumes b: "books N hist m"
  shows "rm_size m = N \<Longrightarrow> \<not> minCt m < (rm_N m - 1) div 2 \<and> \<not> maxCt m < rm_N m div 2"
    and "rm_size m < N \<Longrightarrow> rm_pos m ! rm_idx m = int n \<Longrightarrow> 0 < n \<Longrightarrow> minCt m < (rm_N m - 1) div 2"
    and "rm_size m < N \<Longrightarrow> rm_pos m ! rm_idx m = - int n \<Longrightarrow> 0 < n \<Longrightarrow> maxCt m < rm_N m div 2"
proof -
  have c: "minCt m = (rm_size m - 1) div 2" "maxCt m = rm_size m div 2" "rm_N m = N" using b by (simp_all add: books_def)
  show "\<not> minCt m < (rm_N m - 1) div 2 \<and> \<not> maxCt m < rm_N m div 2" if "rm_size m = N"
    using c that by simp
  show "minCt m < (rm_N m - 1) div 2" if f: "rm_size m < N" and p: "rm_pos m ! rm_idx m = int n" "0 < n"
  proof -
    have "n = (rm_size m + 1) div 2" "even (rm_size m)"
      using filling_side [OF b f, of MinHeap n] p by (simp_all split: if_splits)
    then show ?thesis unfolding c using f p(2) by presburger
  qed
  show "maxCt m < rm_N m div 2" if f: "rm_size m < N" and p: "rm_pos m ! rm_idx m = - int n" "0 < n"
    using filling_side [OF b f, of MaxHeap n] p c f by (auto split: if_splits elim!: oddE)
qed

lemma insert_written:
  assumes b: "books N hist m"
  shows "rm_insert v m =
     (let p = rm_pos m ! rm_idx m; old = rm_data m ! rm_idx m; m = written v m in
       if p > 0
       then if minCt m < (rm_N m - 1) div 2 then restore MinHeap (nat p) (m\<lparr>minCt := minCt m + 1\<rparr>)
            else if v > old then sort_down MinHeap (nat p) m
            else restore MinHeap (nat p) m
       else if p < 0
       then if maxCt m < rm_N m div 2 then restore MaxHeap (nat (- p)) (m\<lparr>maxCt := maxCt m + 1\<rparr>)
            else if v < old then sort_down MaxHeap (nat (- p)) m
            else restore MaxHeap (nat (- p)) m
       else bindr (new_root MaxHeap m) (new_root MinHeap))"
proof -
  note sh = books_shape [OF b]
  have reads: "nth_r (rm_pos m) (rm_idx m) = Inr (rm_pos m ! rm_idx m)" "nth_r (rm_data m) (rm_idx m) = Inr (rm_data m ! rm_idx m)"
    using sh shape_occ(5,6) [OF sh(1)] by simp_all
  show ?thesis unfolding rm_insert_def reads bindr_simps Let_def written_def ..
qed

lemma insert_at_side:
  assumes b: "books N hist m" and p: "rm_pos m ! rm_idx m = at_side s n" "0 < n"
  shows "rm_insert v m =
     (if rm_size m = N \<and> side_lt s (rm_data m ! rm_idx m) v then sort_down s n (placed v m) else restore s n (placed v m))"
proof (cases "rm_size m = N")
  case True
  show ?thesis
    using p counts_full(1) [OF b True] True books_shape(3) [OF b] unfolding insert_written [OF b] Let_def written_counts written_placed(1) [OF b True]
    by (cases s) simp_all
next
  case False
  then have f: "rm_size m < N" using b by (auto simp: books_def)
  show ?thesis
    using p counts_full(2,3) [OF b f] written_placed(2,3) [OF b f] False unfolding insert_written [OF b] Let_def written_counts
    by (cases s) simp_all
qed

lemma insert_at_root:
  assumes b: "books N hist m" and p: "rm_pos m ! rm_idx m = 0"
  shows "rm_insert v m = bindr (new_root MaxHeap (placed v m)) (new_root MinHeap)"
proof -
  have "written v m = placed v m"
    using written_placed(1,4) [OF b] p b by (cases "rm_size m = N") (auto simp: books_def)
  then show ?thesis using p unfolding insert_written [OF b] by simp
qed

lemma side_view_placed:
  assumes "books N hist m" "rm_pos m ! rm_idx m = at_side s n"
  shows "side_view s (placed v m) = (side_view s m)(n := v)"
    and "0 < n \<Longrightarrow> side_view (other_side s) (placed v m) = side_view (other_side s) m"
  using assms by (simp_all add: side_view_def view_placed fun_eq_iff)

lemma side_view_item:
  assumes "books N hist m" "rm_pos m ! k = at_side s n" "k < N"
  shows "side_view s m n = rm_data m ! k"
  using assms shape_occ(3,4) [OF books_shape(1) [OF assms(1)], of k] books_shape(3) [OF assms(1)]
  by (simp add: side_view_def view_def)

lemma count_placed_full:
  assumes "books N hist m" "rm_size m = N \<or> rm_pos m ! rm_idx m = 0"
  shows "heap_count s (placed v m) = heap_count s m"
proof -
  have "rm_size m \<le> N" using assms(1) by (simp add: books_def)
  then have "written v m = placed v m" using written_placed(1,4) [OF assms(1), of v] assms(2) by (cases "rm_size m = N") auto
  from written_counts [of v m, unfolded this] show ?thesis by (cases s) (simp_all del: placed_parts)
qed

lemma full_position:
  assumes "books N hist m" "rm_size m = N" "rm_pos m ! rm_idx m = at_side s n"
  shows "n \<le> heap_count s m"
  using books_slots(1) [OF assms(1) books_shape(4) [OF assms(1)]] books_shape [OF assms(1)] assms(2,3)
  by (cases s) (auto simp: active_def)

lemma count_filling:
  assumes "books N hist m" "rm_size m < N" "rm_pos m ! rm_idx m = at_side s n" "0 < n"
  shows "heap_count s (placed v m) = n" "heap_count s m = n - 1"
    "heap_count (other_side s) (placed v m) = heap_count (other_side s) m"
proof -
  have c: "minCt m = (rm_size m - 1) div 2" "maxCt m = rm_size m div 2" "rm_N m = N" using assms(1) by (simp_all add: books_def)
  have "min (rm_size m + 1) N = rm_size m + 1" using assms(2) by simp
  note c = c this
  note e = filling_side [OF assms]
  show "heap_count s (placed v m) = n" unfolding e using c by (cases "odd (rm_size m)") simp_all
  show "heap_count s m = n - 1" unfolding e using c by (cases "odd (rm_size m)") (auto elim!: oddE evenE)
  show "heap_count (other_side s) (placed v m) = heap_count (other_side s) m"
    unfolding e(2) using c assms(4) e(1) by (cases "odd (rm_size m)") (auto elim!: oddE evenE)
qed

text \<open>A larger item in the place of the oldest one sinks.\<close>

lemma insert_larger:
  assumes r: "rolling N hist m" and p: "rm_pos m ! rm_idx m = at_side s n" "0 < n"
    and full: "rm_size m = N" and up: "side_lt s (rm_data m ! rm_idx m) v"
  obtains m' where "rm_insert v m = Inr m'" "rearranged (placed v m) m'" "side_ok s m'" "side_ok (other_side s) m'"
proof -
  have b: "books N hist m" and ok: "side_ok s m" "side_ok (other_side s) m" using r by (simp_all add: rolling_def)
  note sv = side_view_placed [OF b p(1), of v] and c = count_placed_full [OF b disjI1 [OF full], of _ v]
  have w: "well_formed (placed v m)" using books_placed [OF b] by (simp add: books_def)
  note h = side.heap_put_larger [OF ok(1) [unfolded side_ok_def] p(2) full_position [OF b full p(1)],
      unfolded side_view_item [OF b p(1) books_shape(4) [OF b]], OF side.asym [OF up]]
  obtain m' where m': "sort_down s n (placed v m) = Inr m'" "side_moves s (placed v m) m'"
    "side_view s m' = sift_down (side_lt s) (heap_count s (placed v m)) n (side_view s (placed v m))"
    by (rule sort_down_ok [OF w p(2)])
  have "side_ok s m'"
    unfolding side_ok_def m'(3) side_moves_parts(2) [OF m'(2)] c sv(1) by (rule side.sift_down_heap [OF h(1) p(2) h(2)])
  moreover have "side_view s m' 0 = side_view s (placed v m) 0"
    unfolding m'(3) by (rule side.sift_down_above [OF p(2)])
  moreover have "side_ok (other_side s) (placed v m)" using ok(2) c sv(2) p(2) by (simp add: side_ok_def)
  ultimately show ?thesis
    using that m' side_moves_parts(3) [OF m'(2)] side_ok_same [OF m'(2)] full up insert_at_side [OF b p, of v] by simp
qed

text \<open>A smaller one, or one more item, rises.\<close>

lemma insert_rises:
  assumes r: "rolling N hist m" and p: "rm_pos m ! rm_idx m = at_side s n" "0 < n"
    and less: "rm_size m = N \<Longrightarrow> \<not> side_lt s (rm_data m ! rm_idx m) v"
  shows "n \<le> heap_count s (placed v m)" "side_ok (other_side s) (placed v m)" "s = MinHeap \<longrightarrow> 0 < maxCt (placed v m)"
    "heap_but_up (side_lt s) (heap_count s (placed v m)) n (side_view s (placed v m))"
proof -
  have b: "books N hist m" and ok: "side_ok s m" "side_ok (other_side s) m" using r by (simp_all add: rolling_def)
  note sv = side_view_placed [OF b p(1), of v]
  have sz: "rm_size m \<le> N" "minCt m = (rm_size m - 1) div 2" "maxCt m = rm_size m div 2" using b by (simp_all add: books_def)
  show n: "n \<le> heap_count s (placed v m)"
    and other: "side_ok (other_side s) (placed v m)"
    and up: "heap_but_up (side_lt s) (heap_count s (placed v m)) n (side_view s (placed v m))"
  proof -
    consider (full) "rm_size m = N" | (filling) "rm_size m < N" using sz(1) by linarith
    then have "n \<le> heap_count s (placed v m) \<and> side_ok (other_side s) (placed v m)
      \<and> heap_but_up (side_lt s) (heap_count s (placed v m)) n (side_view s (placed v m))"
    proof cases
      case full
      note c = count_placed_full [OF b disjI1 [OF full], of _ v] and q = full_position [OF b full p(1)]
      have "side_ok (other_side s) (placed v m)" using ok(2) c sv(2) p(2) by (simp add: side_ok_def)
      moreover have "heap_but_up (side_lt s) (heap_count s (placed v m)) n (side_view s (placed v m))"
        unfolding sv(1) c using less [OF full] side_view_item [OF b p(1) books_shape(4) [OF b]]
        by (intro side.heap_put_smaller [OF ok(1) [unfolded side_ok_def] p(2) q]) simp
      ultimately show ?thesis using q c by simp
    next
      case filling
      note c = count_filling [OF b filling p]
      have "side_ok (other_side s) (placed v m)" using ok(2) c sv(2) p(2) by (simp add: side_ok_def)
      moreover have "heap_but_up (side_lt s) (heap_count s (placed v m)) n (side_view s (placed v m))"
        using ok(1) unfolding sv(1) c side_ok_def by (rule side.heap_append) (rule p(2))
      ultimately show ?thesis using c(1) by simp
    qed
    then show "n \<le> heap_count s (placed v m)" "side_ok (other_side s) (placed v m)"
      "heap_but_up (side_lt s) (heap_count s (placed v m)) n (side_view s (placed v m))" by blast+
  qed
  have "minCt (placed v m) \<le> maxCt (placed v m)" using sz by (simp add: div_le_mono)
  then show "s = MinHeap \<longrightarrow> 0 < maxCt (placed v m)" using n p(2) by auto
qed

lemma insert_beside_root:
  assumes r: "rolling N hist m" and p: "rm_pos m ! rm_idx m = at_side s n" "0 < n"
  obtains m' where "rm_insert v m = Inr m'" "rearranged (placed v m) m'" "side_ok s m'" "side_ok (other_side s) m'"
proof (cases "rm_size m = N \<and> side_lt s (rm_data m ! rm_idx m) v")
  case True
  then show ?thesis using insert_larger [OF r p] that by blast
next
  case False
  have b: "books N hist m" using r by (simp add: rolling_def)
  have w: "well_formed (placed v m)" using books_placed [OF b] by (simp add: books_def)
  have less: "rm_size m = N \<Longrightarrow> \<not> side_lt s (rm_data m ! rm_idx m) v" using False by blast
  note e = insert_rises [OF r p less]
  obtain m' where m': "restore s n (placed v m) = Inr m'" "rearranged (placed v m) m'" "side_ok s m'" "side_ok (other_side s) m'"
    by (rule restore_ok [OF w p(2) e(1,4,2)]) (use e(3) in blast)+
  moreover have "rm_insert v m = restore s n (placed v m)" unfolding insert_at_side [OF b p] using False by (rule if_not_P)
  ultimately show ?thesis using that by simp
qed

lemma firsts_ordered:
  assumes "side_ok s m" "side_ok (other_side s) m" "0 < heap_count s m" "0 < heap_count (other_side s) m"
  shows "\<not> side_lt s (side_view s m 1) (side_view (other_side s) m 1)"
proof -
  have "\<not> side_lt s (side_view s m 1) (side_view s m 0)"
    using assms(1,3) side.heap_root [of s "heap_count s m" "side_view s m" 1] by (simp add: side_ok_def)
  moreover have "\<not> side_lt s (side_view s m 0) (side_view (other_side s) m 1)"
    using assms(2,4) side.heap_root [of "other_side s" "heap_count (other_side s) m" "side_view (other_side s) m" 1]
    by (simp add: side_ok_def side_view_root)
  ultimately show ?thesis by (rule side.le_trans [rotated])
qed

lemma roots_fit:
  assumes m2: "root_ordered MaxHeap m1 m2" and m3: "root_ordered MinHeap m2 m3"
    and first: "0 < heap_count MaxHeap m1 \<Longrightarrow> 0 < heap_count MinHeap m1
      \<Longrightarrow> \<not> side_lt MaxHeap (side_view MaxHeap m1 1) (side_view MinHeap m1 1)"
    and pos: "0 < heap_count MaxHeap m2"
  shows "\<not> side_lt MaxHeap (side_view MaxHeap m2 1) (side_view MinHeap m3 0)"
proof (cases "0 < heap_count MinHeap m2 \<and> side_lt MinHeap (side_view MinHeap m2 1) (side_view MinHeap m2 0)")
  case False
  then have "side_view MinHeap m3 0 = side_view MinHeap m2 0" using m3 by (simp add: root_ordered_def split: if_splits)
  then show ?thesis
    using m2 pos side.heap_root [of MaxHeap "heap_count MaxHeap m2" "side_view MaxHeap m2" 1]
    by (simp add: root_ordered_def side_ok_def side_view_root)
next
  case True
  have mv: "side_moves MaxHeap m1 m2" using m2 by (simp add: root_ordered_def)
  have f: "side_view MinHeap m2 1 = side_view MinHeap m1 1" "side_view MinHeap m2 0 = side_view MaxHeap m2 0"
    using side_moves_parts(4) [OF mv, of 1] by (simp_all add: side_view_root)
  have o: "\<not> side_lt MaxHeap (side_view MaxHeap m1 1) (side_view MinHeap m1 1)"
    using first pos True side_moves_parts(2) [OF mv] by simp
  then have "side_view MaxHeap m2 = side_view MaxHeap m1"
    using m2 True f by (auto simp: root_ordered_def split: if_splits)
  then show ?thesis using o m3 True f by (simp add: root_ordered_def)
qed

lemma insert_in_root:
  assumes r: "rolling N hist m" and p: "rm_pos m ! rm_idx m = 0"
  obtains m' where "rm_insert v m = Inr m'" "rearranged (placed v m) m'" "side_ok MinHeap m'" "side_ok MaxHeap m'"
proof -
  have b: "books N hist m" and ok: "\<And>s. side_ok s m" using r by (simp_all add: rolling_def)
  have w: "well_formed (placed v m)" using books_placed [OF b] by (simp add: books_def)
  note c = count_placed_full [OF b disjI2 [OF p], of _ v]
  have sv: "side_view s (placed v m) = (side_view s m)(0 := v)" for s
    using side_view_placed(1) [OF b, of s 0 v] p by (cases s) simp_all
  have up: "above_root s (placed v m)" for s
    by (rule above_root_cong [OF side_ok_above [OF ok]]) (use c sv in auto)
  obtain m2 where m2: "new_root MaxHeap (placed v m) = Inr m2" "root_ordered MaxHeap (placed v m) m2"
    by (rule new_root_ok [OF w up [of MaxHeap]])
  then have mv2: "side_moves MaxHeap (placed v m) m2" "side_ok MaxHeap m2" by (simp_all add: root_ordered_def)
  have up2: "above_root MinHeap m2"
    by (rule above_root_cong [OF up]) (use side_moves_parts(2,4) [OF mv2(1)] in auto)
  obtain m3 where m3: "new_root MinHeap m2 = Inr m3" "root_ordered MinHeap m2 m3"
    by (rule new_root_ok [OF side_moves_parts(1) [OF mv2(1)] up2])
  then have mv3: "side_moves MinHeap m2 m3" "side_ok MinHeap m3" by (simp_all add: root_ordered_def)
  have first: "\<not> side_lt MaxHeap (side_view MaxHeap (placed v m) 1) (side_view MinHeap (placed v m) 1)"
    if "0 < heap_count MaxHeap (placed v m)" "0 < heap_count MinHeap (placed v m)"
    using firsts_ordered [OF ok [of MaxHeap]] ok [of MinHeap] that c sv by simp
  note fit = roots_fit [OF m2(2) m3(2) first]
  have "side_ok MaxHeap m3" using side_ok_new_root [OF mv3(1)] mv2(2) fit by simp
  then show ?thesis
    using that m3(1) mv3(2) m2(1) rearranged_trans [OF side_moves_parts(3) [OF mv2(1)] side_moves_parts(3) [OF mv3(1)]]
    by (simp add: insert_at_root [OF b p])
qed

lemma rm_insert_rolling:
  assumes "rolling N hist m"
  obtains m' where "rm_insert v m = Inr m'" "rolling N (hist @ [v]) m'"
proof -
  have b: "books N hist m" using assms by (simp add: rolling_def)
  obtain s n where p: "rm_pos m ! rm_idx m = at_side s n" by (rule side_of_position)
  have "\<exists>m'. rm_insert v m = Inr m' \<and> rearranged (placed v m) m' \<and> side_ok s m' \<and> side_ok (other_side s) m'"
  proof (cases "0 < n")
    case True
    show ?thesis by (rule insert_beside_root [OF assms p True]) blast
  next
    case False
    have "at_side s 0 = 0" by (cases s) simp_all
    then have root: "rm_pos m ! rm_idx m = 0" using p False by simp
    obtain m' where m': "rm_insert v m = Inr m'" "rearranged (placed v m) m'" "side_ok MinHeap m'" "side_ok MaxHeap m'"
      by (rule insert_in_root [OF assms root])
    then have "side_ok t m'" for t by (cases t) simp_all
    then show ?thesis using m' by blast
  qed
  then obtain m' where m': "rm_insert v m = Inr m'" "rearranged (placed v m) m'" "side_ok s m'" "side_ok (other_side s) m'"
    by blast
  have "0 < rm_size (placed v m)" using books_shape [OF b] by simp
  then have "books N (hist @ [v]) m'" using books_rearranged [OF books_placed [OF b] m'(2)] by simp
  moreover have "side_ok t m'" for t using m'(3,4) by (cases s; cases t) simp_all
  ultimately show ?thesis using that m'(1) by (simp add: rolling_def)
qed

section \<open>The median of the window\<close>

text \<open>\<open>get_mid\<close> is the average rounded down, computed without overflow.\<close>

lemma halves_add: "x div 2 + y div 2 + (x mod 2 + y mod 2) div 2 = (x + y) div (2 :: nat)"
proof -
  have "x + y = (x mod 2 + y mod 2) + 2 * (x div 2 + y div 2)"
    by (simp add: algebra_simps)
  then have "(x + y) div 2 = ((x mod 2 + y mod 2) + 2 * (x div 2 + y div 2)) div 2" by simp
  then show ?thesis by (simp only: div_mult_self2)
qed

lemma get_mid_average: "unat (get_mid a b) = (unat a + unat b) div 2"
proof -
  have m: "x - 2 * (x div 2) = x mod 2" for x :: u64 by (rule minus_mult_div_eq_mod)
  have d: "unat (x div 2) = unat x div 2" "unat (x mod 2) = unat x mod 2" for x :: u64
    by (simp_all add: unat_div unat_mod)
  have b: "unat x div 2 < 9223372036854775808" for x :: u64 using unat_u64_less [of x] by (simp add: less_mult_imp_div_less)
  have "unat (a mod 2 + b mod 2) = unat a mod 2 + unat b mod 2" by (subst unat_add_no_wrap) (simp_all add: d)
  then have "unat ((a mod 2 + b mod 2) div 2) = (unat a mod 2 + unat b mod 2) div 2" by (simp add: d)
  moreover have "unat (a div 2 + b div 2) = unat a div 2 + unat b div 2"
    using b [of a] b [of b] by (subst unat_add_no_wrap) (simp_all add: d)
  moreover have "unat a div 2 + unat b div 2 + (unat a mod 2 + unat b mod 2) div 2 = (unat a + unat b) div 2"
    by (rule halves_add)
  moreover have "(unat a + unat b) div 2 < 18446744073709551616" using unat_u64_less [of a] unat_u64_less [of b] by linarith
  ultimately show ?thesis unfolding get_mid_def m by (subst unat_add_no_wrap) simp_all
qed

lemma get_mid_commute: "get_mid a b = get_mid b a"
  by (simp add: word_unat_eq_iff get_mid_average add.commute)

lemma vector_median_sorted:
  "v \<noteq> [] \<Longrightarrow> vector_median v =
     (if odd (length v) then sort v ! (length v div 2) else get_mid (sort v ! (length v div 2 - 1)) (sort v ! (length v div 2)))"
  by (cases v; cases "length v = 1") (auto simp: vector_median_def Let_def even_iff_mod_2_eq_zero simp del: One_nat_def)

lemma mset_ring:
  assumes "0 < n"
  shows "mset (map (\<lambda>t. f (t mod n)) [a..<a + n]) = mset (map f [0..<n])"
proof (induction a)
  case 0
  show ?case by (intro arg_cong [of _ _ mset] map_cong) auto
next
  case (Suc a)
  have "[Suc a..<Suc a + n] = [Suc a..<a + n] @ [a + n]" "[a..<a + n] = a # [Suc a..<a + n]"
    using assms by (simp_all add: upt_conv_Cons)
  then show ?case using Suc.IH by simp
qed

lemma window_items:
  assumes b: "books N hist m"
  shows "mset (last_n N hist) = mset (map ((!) (rm_data m)) [0..<rm_size m])"
proof -
  have d: "rm_data m ! (t mod N) = hist ! t" if "length hist - N \<le> t" "t < length hist" for t
    using b that by (simp add: books_def)
  have sz: "rm_size m = min (length hist) N" using b by (simp add: books_def)
  have w: "last_n N hist = map ((!) hist) [length hist - N..<length hist]"
    by (rule nth_equalityI) (simp_all add: last_n_def)
  also have "\<dots> = map (\<lambda>t. rm_data m ! (t mod N)) [length hist - N..<length hist]" using d by simp
  finally have e: "last_n N hist = map (\<lambda>t. rm_data m ! (t mod N)) [length hist - N..<length hist]" .
  show ?thesis
  proof (cases "length hist \<le> N")
    case True
    have a: "map (\<lambda>t. rm_data m ! (t mod N)) [0..<length hist] = map ((!) (rm_data m)) [0..<length hist]"
      using True by (intro map_cong) auto
    have "length hist - N = 0" "rm_size m = length hist" using True sz by simp_all
    then show ?thesis unfolding e by (simp only: a)
  next
    case False
    then show ?thesis using e sz mset_ring [of N "(!) (rm_data m)" "length hist - N"] books_shape(2) [OF b] by simp
  qed
qed

text \<open>The slots of the heaps hold the window.\<close>

lemma slots_items:
  assumes b: "books N hist m" and n: "0 < rm_size m"
  shows "mset (map ((!) (rm_data m)) [0..<rm_size m]) = image_mset (view m) (mset_set {- int (maxCt m)..int (minCt m)})"
proof -
  note sh = books_shape [OF b]
  have le: "rm_size m \<le> N" and w: "well_formed m" using b by (simp_all add: books_def)
  have item: "view m (rm_pos m ! k) = rm_data m ! k" if "k < rm_size m" for k
    using shape_occ(3,4) [OF sh(1), of k] that le sh(3) by (simp add: view_def)
  have inj: "inj_on ((!) (rm_pos m)) {0..<rm_size m}"
    using shape_occ(4) [OF sh(1)] le sh(3) by (intro inj_on_inverseI [of _ "occ m"]) auto
  have "(!) (rm_pos m) ` {0..<rm_size m} = {- int (maxCt m)..int (minCt m)}"
  proof (intro equalityI subsetI)
    fix i assume "i \<in> (!) (rm_pos m) ` {0..<rm_size m}"
    then obtain k where k: "i = rm_pos m ! k" "k < rm_size m" by auto
    then have "active m i" using books_slots(1) [OF b _ n, of k] le by simp
    then show "i \<in> {- int (maxCt m)..int (minCt m)}" by (simp add: active_def)
  next
    fix i assume "i \<in> {- int (maxCt m)..int (minCt m)}"
    then have a: "active m i" by (simp add: active_def)
    note r = active_in_range [OF w a]
    have "occ m i < rm_size m"
      using books_slots(1) [OF b _ n, of "occ m i"] shape_occ(1,2) [OF sh(1) r] sh(3) a by simp
    then show "i \<in> (!) (rm_pos m) ` {0..<rm_size m}" using shape_occ(2) [OF sh(1) r] by force
  qed
  then have "mset_set {- int (maxCt m)..int (minCt m)} = image_mset ((!) (rm_pos m)) (mset_set {0..<rm_size m})"
    using image_mset_mset_set [OF inj] by simp
  then have "image_mset (view m) (mset_set {- int (maxCt m)..int (minCt m)})
      = image_mset (\<lambda>k. view m (rm_pos m ! k)) (mset_set {0..<rm_size m})" by (simp add: multiset.map_comp comp_def)
  also have "\<dots> = image_mset ((!) (rm_data m)) (mset_set {0..<rm_size m})" using item by (intro image_mset_cong) simp
  finally show ?thesis by simp
qed

definition above :: "side \<Rightarrow> rolling_median \<Rightarrow> u64 list" where
  "above s m = map (side_view s m) [1..<Suc (heap_count s m)]"

lemma above_iff: "x \<in> set (above s m) \<longleftrightarrow> (\<exists>k>0. k \<le> heap_count s m \<and> x = side_view s m k)"
  by (auto simp: above_def image_iff less_Suc_eq_le Suc_le_eq simp del: upt_Suc)

lemma split_slots:
  "image_mset f (mset_set {- int a..int b}) = mset (map (\<lambda>n. f (- int n)) [1..<Suc a]) + {# f 0 #} + mset (map (\<lambda>n. f (int n)) [1..<Suc b])"
proof -
  have "{- int a..int b} = {- int a..-1} \<union> ({0} \<union> {1..int b})" by auto
  moreover have "{- int a..-1} \<inter> ({0} \<union> {1..int b}) = {}" "{0} \<inter> {1..int b} = {}" by auto
  ultimately have "mset_set {- int a..int b} = mset_set {- int a..-1} + (mset_set {0} + mset_set {1..int b})"
    by (simp only: mset_set_Union finite_atLeastAtMost_int finite_Un finite.emptyI finite.insertI)
  moreover have "mset_set {- int a..-1} = image_mset (\<lambda>n. - int n) (mset_set {1..<Suc a})"
  proof -
    have "(\<lambda>n. - int n) ` {1..<Suc a} = {- int a..-1}"
    proof (intro equalityI subsetI)
      fix i assume "i \<in> {- int a..-1}"
      then show "i \<in> (\<lambda>n. - int n) ` {1..<Suc a}" by (intro image_eqI [of _ _ "nat (- i)"]) auto
    qed auto
    moreover have "inj_on (\<lambda>n. - int n) {1..<Suc a}" by (simp add: inj_on_def)
    ultimately show ?thesis by (metis image_mset_mset_set)
  qed
  moreover have "mset_set {1..int b} = image_mset int (mset_set {1..<Suc b})"
  proof -
    have "int ` {1..<Suc b} = {1..int b}"
    proof (intro equalityI subsetI)
      fix i assume "i \<in> {1..int b}"
      then show "i \<in> int ` {1..<Suc b}" by (intro image_eqI [of _ _ "nat i"]) auto
    qed auto
    then show ?thesis by (metis image_mset_mset_set inj_on_of_nat)
  qed
  ultimately show ?thesis by (simp add: multiset.map_comp comp_def del: upt_Suc)
qed

lemma sorted_window:
  assumes r: "rolling N hist m" and n: "0 < rm_size m"
  shows "sort (last_n N hist) = sort (above MaxHeap m) @ view m 0 # sort (above MinHeap m)"
proof (rule properties_for_sort)
  have b: "books N hist m" and ok: "\<And>s. side_ok s m" using r by (simp_all add: rolling_def)
  show "mset (sort (above MaxHeap m) @ view m 0 # sort (above MinHeap m)) = mset (last_n N hist)"
    unfolding window_items [OF b] slots_items [OF b n] split_slots
    by (simp add: above_def side_view_def [abs_def] comp_def del: upt_Suc)
  have "\<not> side_lt s x (view m 0)" if x: "x \<in> set (above s m)" for s x
  proof -
    obtain k where "x = side_view s m k" "k \<le> heap_count s m" using x by (auto simp: above_iff)
    then show ?thesis using side.heap_root [of s "heap_count s m" "side_view s m" k] ok [of s]
      by (simp add: side_ok_def side_view_root)
  qed
  from this [where s=MinHeap] this [where s=MaxHeap]
  have "\<And>x. x \<in> set (above MinHeap m) \<Longrightarrow> view m 0 \<le> x" "\<And>x. x \<in> set (above MaxHeap m) \<Longrightarrow> x \<le> view m 0" by fastforce+
  then show "sorted (sort (above MaxHeap m) @ view m 0 # sort (above MinHeap m))"
    by (auto simp: sorted_append intro: order_trans)
qed

lemma lower_middle:
  assumes "side_ok MaxHeap m" "0 < maxCt m"
  shows "sort (above MaxHeap m) ! (maxCt m - 1) = side_view MaxHeap m 1"
proof -
  define l where "l = sort (above MaxHeap m)"
  have len: "length l = maxCt m" by (simp add: l_def above_def del: upt_Suc)
  have "x \<le> side_view MaxHeap m 1" if x: "x \<in> set l" for x
  proof -
    obtain k where "x = side_view MaxHeap m k" "0 < k" "k \<le> maxCt m" using x by (auto simp: l_def above_iff)
    then show ?thesis using side.heap_first [of MaxHeap "maxCt m" "side_view MaxHeap m" k] assms(1) by (simp add: side_ok_def)
  qed
  then have "l ! (maxCt m - 1) \<le> side_view MaxHeap m 1" using len assms(2) by simp
  moreover have "side_view MaxHeap m 1 \<in> set l" using assms(2) by (auto simp: l_def above_iff intro!: exI [of _ 1])
  then obtain k where "k < maxCt m" "l ! k = side_view MaxHeap m 1" using len by (auto simp: in_set_conv_nth)
  moreover have "sorted l" by (simp add: l_def)
  then have "l ! k \<le> l ! (maxCt m - 1)" if "k < maxCt m" for k using that len by (intro sorted_nth_mono) auto
  ultimately show ?thesis by (metis l_def order_antisym)
qed

lemma rm_median_rolling:
  assumes r: "rolling N hist m" and h: "hist \<noteq> []"
  shows "rm_median m = Inr (vector_median (last_n N hist))"
proof -
  have b: "books N hist m" and ok: "\<And>s. side_ok s m" using r by (simp_all add: rolling_def)
  have n: "0 < rm_size m" "rm_size m = length (last_n N hist)" using b h books_shape(2) [OF b] by (auto simp: books_def last_n_def)
  have c: "minCt m = (rm_size m - 1) div 2" "maxCt m = rm_size m div 2" using b by (simp_all add: books_def)
  note w = sorted_window [OF r n(1)]
  have len: "length (sort (above MaxHeap m)) = maxCt m" by (simp add: above_def del: upt_Suc)
  have root: "sort (last_n N hist) ! maxCt m = view m 0" unfolding w using len by (simp add: nth_append)
  have ranges: "in_range m 0" "0 < maxCt m \<Longrightarrow> in_range m (- 1)"
    using b active_in_range [of m] by (auto simp: books_def active_def)
  have v: "value_at 0 m = Inr (view m 0)" "0 < maxCt m \<Longrightarrow> value_at (- 1) m = Inr (view m (- 1))"
    using ranges value_at_ok [OF books_shape(1) [OF b]] by blast+
  have ne: "last_n N hist \<noteq> []" using n by auto
  show ?thesis
  proof (cases "odd (rm_size m)")
    case True
    then have "\<not> minCt m < maxCt m" using c by (auto elim!: oddE)
    then show ?thesis using True root v(1) n(2) c(2) by (simp add: rm_median_def vector_median_sorted [OF ne])
  next
    case False
    then have lt: "minCt m < maxCt m" "0 < maxCt m" using c n(1) by (auto elim!: evenE)
    have "sort (last_n N hist) ! (maxCt m - 1) = view m (- 1)"
      unfolding w using len lt lower_middle [OF ok lt(2)] by (simp add: nth_append side_view_def)
    then show ?thesis using False root v lt n(2) c(2)
      by (simp add: rm_median_def vector_median_sorted [OF ne] get_mid_commute)
  qed
qed

section \<open>A fresh structure\<close>

lemma rm_clear_rolling:
  assumes "0 < rm_N m" "length (rm_data m) = rm_N m" "length (rm_pos m) = rm_N m" "length (rm_heap m) = rm_N m"
  obtains m' where "rm_clear m = Inr m'" "rolling (rm_N m) [] m'"
proof -
  define m0 where "m0 = m\<lparr>rm_idx := 0, minCt := 0, maxCt := 0, rm_size := 0\<rparr>"
  obtain m' where m': "fill_loop (rev [0..<rm_N m0]) m0 = Inr m'" "m' = m0\<lparr>rm_pos := rm_pos m', rm_heap := rm_heap m'\<rparr>"
    "length (rm_pos m') = rm_N m0" "length (rm_heap m') = rm_N m0"
    "\<forall>k<rm_N m0. rm_pos m' ! k = (if k \<in> set (rev [0..<rm_N m0]) then fill_position k else rm_pos m0 ! k)"
    "\<forall>k<rm_N m0. occ m' (fill_position k) = (if k \<in> set (rev [0..<rm_N m0]) then k else occ m0 (fill_position k))"
    by (rule fill_loop_ok [of "rev [0..<rm_N m0]" m0]) (use assms in \<open>auto simp: m0_def\<close>)
  have parts: "rm_N m' = rm_N m" "rm_data m' = rm_data m" "rm_idx m' = 0" "minCt m' = 0" "maxCt m' = 0" "rm_size m' = 0"
    by (subst m'(2); simp add: m0_def)+
  have pos: "rm_pos m' ! k = fill_position k" "occ m' (fill_position k) = k" if "k < rm_N m" for k
    using m'(5,6) that by (simp_all add: m0_def)
  have "occ m' i < rm_N m \<and> rm_pos m' ! occ m' i = i" if "in_range m' i" for i
  proof -
    have "0 \<le> i + int (rm_N m div 2)" "i + int (rm_N m div 2) < int (rm_N m)"
      using that parts(1) by (simp_all add: in_range_def)
    then obtain k where "k < rm_N m" "fill_position k = i" by (rule fill_position_onto)
    then show ?thesis using pos [of k] by auto
  qed
  moreover have "in_range m' (rm_pos m' ! k) \<and> occ m' (rm_pos m' ! k) = k" if "k < rm_N m" for k
    using pos [OF that] fill_position_range [OF that] parts(1) by (simp add: in_range_def)
  moreover have "length (rm_pos m') = rm_N m" "length (rm_heap m') = rm_N m" using m'(3,4) by (simp_all add: m0_def)
  ultimately have "shape m'" using assms parts unfolding shape_def by simp
  then have "books (rm_N m) [] m'" using parts pos by (simp add: books_def well_formed_def)
  moreover have "side_ok s m'" for s using parts by (cases s) (simp_all add: side_ok_def heap_ok_def)
  ultimately show ?thesis using that m'(1) by (simp add: rolling_def rm_clear_def m0_def)
qed

fun rm_insert_all :: "u64 list \<Rightarrow> rolling_median \<Rightarrow> rolling_median result" where
  "rm_insert_all [] m = Inr m"
| "rm_insert_all (v # vs) m = bindr (rm_insert v m) (rm_insert_all vs)"

lemma rm_insert_all_rolling:
  assumes "rolling N hist m"
  obtains m' where "rm_insert_all vs m = Inr m'" "rolling N (hist @ vs) m'"
  using assms
proof (induction vs arbitrary: hist m thesis)
  case Nil
  then show ?case by simp
next
  case (Cons v vs)
  obtain m1 where m1: "rm_insert v m = Inr m1" "rolling N (hist @ [v]) m1" by (rule rm_insert_rolling [OF Cons.prems(2)])
  obtain m2 where "rm_insert_all vs m1 = Inr m2" "rolling N ((hist @ [v]) @ vs) m2" by (rule Cons.IH [OF _ m1(2)])
  then show ?case using Cons.prems(1) m1(1) by simp
qed

text \<open>C22: The rolling median is right: a structure for 1 to 2^27 - 1 items, built on whatever its memory held, takes any
  number of values, none included, without ever leaving its arrays; its size is then the number of the last N values,
  and after at least one value its \<open>median\<close> is what the plain \<open>median\<close>, which sorts a vector, gives for them. For more items
  the constructor's \<open>int\<close> byte count overflows and its arrays are out of bounds; the node's window has 100000.\<close>

theorem rolling_median_is_window_median:
  assumes "0 < N" "length data = unat N" "length pos = unat N" "length heap = unat N"
  shows "if unat N < 2 ^ 27
    then \<exists>m0 m. new_rolling_median N data pos heap = Inr m0 \<and> rm_insert_all hist m0 = Inr m
       \<and> rm_size m = length (last_n (unat N) hist)
       \<and> (hist = [] \<or> rm_median m = Inr (vector_median (last_n (unat N) hist)))
    else new_rolling_median N data pos heap = Inl OutOfBounds"
proof (cases "unat N < 2 ^ 27")
  case True
  obtain m0 where m0: "new_rolling_median N data pos heap = Inr m0" "rolling (unat N) [] m0"
    using rm_clear_rolling [of "\<lparr>rm_data = data, rm_pos = pos, rm_heap = heap, rm_N = unat N, rm_idx = 0, minCt = 0,
        maxCt = 0, rm_size = 0\<rparr>"] assms by (auto simp: new_rolling_median_small [OF True] word_less_nat_alt)
  obtain m where m: "rm_insert_all hist m0 = Inr m" "rolling (unat N) ([] @ hist) m" by (rule rm_insert_all_rolling [OF m0(2)])
  have "rm_size m = length (last_n (unat N) hist)" using m(2) by (simp add: rolling_def books_def last_n_def min_def)
  then show ?thesis using True m0 m rm_median_rolling [of "unat N" hist m] by auto
qed (simp add: new_rolling_median_large)

lemma demo_window_median: "vector_median (last_n 3 [5, 1, 9, 7]) = 7"
  by (simp add: last_n_def vector_median_def Let_def)

theorem rolling_median_is_window_median_witness:
  "\<exists>m0 m. new_rolling_median 3 [0, 0, 0] [0, 0, 0] [0, 0, 0] = Inr m0 \<and> rm_insert_all [5, 1, 9, 7] m0 = Inr m \<and> rm_median m = Inr 7"
proof -
  have "length [0, 0, 0 :: u64] = 3" "length [0, 0, 0 :: int] = 3" "length [0, 0, 0 :: nat] = 3" by simp_all
  then show ?thesis
    using rolling_median_is_window_median [of 3 "[0, 0, 0]" "[0, 0, 0]" "[0, 0, 0]" "[5, 1, 9, 7]"] demo_window_median by auto
qed

end
