(* ===== verification/Difficulty.thy ===== *)
theory Difficulty
  imports Bytes
begin

text \<open>
  vendor/monero/src/cryptonote_basic/difficulty.cpp and the 128-bit arithmetic of
  contrib/epee/include/int-util.h: the proof-of-work test and the difficulty rule of the production
  node. \<open>uint64_t\<close> is \<open>u64\<close>; boost's fixed-width unsigned integers are words of their width
  (\<open>difficulty_type\<close> is a 128-bit word), whose arithmetic wraps as boost's unchecked types do. Both
  variants of \<open>mul\<close> are modelled, the one for x86-64 and the portable one. Asserts are left out, as in
  a release build; indexing is checked.
\<close>

type_synonym u128 = "128 word"
type_synonym u256 = "256 word"
type_synonym u512 = "512 word"

section \<open>Double-width multiplication and division\<close>

definition hi_dword :: "u64 \<Rightarrow> u64" where
  "hi_dword val = drop_bit 32 val"

definition lo_dword :: "u64 \<Rightarrow> u64" where
  "lo_dword val = val AND 0xFFFFFFFF"

text \<open>The product's low word and, in the out-parameter, its high word.\<close>

definition mul128 :: "u64 \<Rightarrow> u64 \<Rightarrow> u64 \<times> u64" where
  "mul128 multiplier multiplicand =
     (let a = hi_dword multiplier; b = lo_dword multiplier;
          c = hi_dword multiplicand; d = lo_dword multiplicand;
          ac = a * c; ad = a * d; bc = b * c; bd = b * d;
          adbc = ad + bc;
          adbc_carry = (if adbc < ad then 1 else 0);
          product_lo = bd + push_bit 32 adbc;
          product_lo_carry = (if product_lo < bd then 1 else 0);
          product_hi = ac + drop_bit 32 adbc + push_bit 32 adbc_carry + product_lo_carry
      in (product_lo, product_hi))"

definition mul_portable :: "u64 \<Rightarrow> u64 \<Rightarrow> u64 \<times> u64" where
  "mul_portable a b =
     (let aLow = a AND 0xFFFFFFFF; aHigh = drop_bit 32 a; bLow = b AND 0xFFFFFFFF; bHigh = drop_bit 32 b;
          res = aLow * bLow; lowRes1 = res AND 0xFFFFFFFF; carry = drop_bit 32 res;
          res = aHigh * bLow + carry; highResHigh1 = drop_bit 32 res; highResLow1 = res AND 0xFFFFFFFF;
          res = aLow * bHigh; lowRes2 = res AND 0xFFFFFFFF; carry = drop_bit 32 res;
          res = aHigh * bHigh + carry; highResHigh2 = drop_bit 32 res; highResLow2 = res AND 0xFFFFFFFF;
          r = highResLow1 + lowRes2; carry = drop_bit 32 r; low = push_bit 32 r OR lowRes1;
          r = highResHigh1 + highResLow2 + carry; d3 = r AND 0xFFFFFFFF; carry = drop_bit 32 r;
          r = highResHigh2 + carry
      in (low, d3 OR push_bit 32 r))"

text \<open>One step of the long division: the quotient and the new remainder.\<close>

definition div_with_reminder :: "u64 \<Rightarrow> u32 \<Rightarrow> u32 \<Rightarrow> u64 \<times> u32" where
  "div_with_reminder dividend divisor remainder =
     (let dividend = dividend OR push_bit 32 (ucast remainder)
      in (dividend div ucast divisor, ucast (dividend mod ucast divisor)))"

definition div128_32 :: "u64 \<Rightarrow> u64 \<Rightarrow> u32 \<Rightarrow> u32 \<times> u64 \<times> u64" where
  "div128_32 dividend_hi dividend_lo divisor =
     (let (q3, remainder) = div_with_reminder (hi_dword dividend_hi) divisor 0;
          (q2, remainder) = div_with_reminder (lo_dword dividend_hi) divisor remainder;
          (q1, remainder) = div_with_reminder (hi_dword dividend_lo) divisor remainder;
          (q0, remainder) = div_with_reminder (lo_dword dividend_lo) divisor remainder
      in (remainder, push_bit 32 q3 OR q2, push_bit 32 q1 OR q0))"

definition add64clamp :: "u64 \<Rightarrow> u64 \<Rightarrow> u64" where
  "add64clamp value add = (if value > - 1 - add then - 1 else value + add)"

definition sub64clamp :: "u64 \<Rightarrow> u64 \<Rightarrow> u64" where
  "sub64clamp value sub = (if value < sub then 0 else value - sub)"

section \<open>The proof-of-work test\<close>

definition cadd :: "u64 \<Rightarrow> u64 \<Rightarrow> bool" where
  "cadd a b \<longleftrightarrow> a + b < a"

definition cadc :: "u64 \<Rightarrow> u64 \<Rightarrow> bool \<Rightarrow> bool" where
  "cadc a b c \<longleftrightarrow> a + b < a \<or> (c \<and> a + b = - 1)"

definition load_u64_from_hash :: "bytes \<Rightarrow> nat \<Rightarrow> u64" where
  "load_u64_from_hash h index = le_to_word (take 8 (drop (index * 8) h))"

text \<open>The multiplication is a parameter: \<open>mul128\<close> on x86-64, \<open>mul_portable\<close> elsewhere.\<close>

definition check_hash_64 :: "(u64 \<Rightarrow> u64 \<Rightarrow> u64 \<times> u64) \<Rightarrow> bytes \<Rightarrow> u64 \<Rightarrow> bool" where
  "check_hash_64 mul h difficulty =
     (let (top, high) = mul (load_u64_from_hash h 3) difficulty in
      if high \<noteq> 0 then False
      else let (low, cur) = mul (load_u64_from_hash h 0) difficulty;
               (low, high) = mul (load_u64_from_hash h 1) difficulty;
               carry = cadd cur low;
               cur = high;
               (low, high) = mul (load_u64_from_hash h 2) difficulty;
               carry = cadc cur low carry;
               carry = cadc high top carry
           in \<not> carry)"

definition max64bit :: u128 where "max64bit = ucast (- 1 :: u64)"
definition max128bit :: u256 where "max128bit = ucast (- 1 :: u128)"
definition max256bit :: u512 where "max256bit = ucast (- 1 :: u256)"

definition check_hash_128 :: "bytes \<Rightarrow> u128 \<Rightarrow> bool" where
  "check_hash_128 h difficulty =
     (let hashVal = foldl (\<lambda>v i. push_bit 64 v OR ucast (load_u64_from_hash h (3 - i))) (0 :: u512) [0, 1, 2, 3]
      in hashVal * ucast difficulty \<le> max256bit)"

definition check_hash :: "(u64 \<Rightarrow> u64 \<Rightarrow> u64 \<times> u64) \<Rightarrow> bytes \<Rightarrow> u128 \<Rightarrow> bool" where
  "check_hash mul h difficulty =
     (if difficulty \<le> max64bit then check_hash_64 mul h (ucast difficulty) else check_hash_128 h difficulty)"

section \<open>The difficulty rule\<close>

definition DIFFICULTY_WINDOW :: nat where "DIFFICULTY_WINDOW = 720"
definition DIFFICULTY_CUT :: nat where "DIFFICULTY_CUT = 60"

definition resize_vec :: "nat \<Rightarrow> 'a::zero list \<Rightarrow> 'a list" where
  "resize_vec n xs = take n xs @ replicate (n - length xs) 0"

definition cut_range :: "nat \<Rightarrow> nat \<times> nat" where
  "cut_range len =
     (if len \<le> DIFFICULTY_WINDOW - 2 * DIFFICULTY_CUT then (0, len)
      else let cut_begin = (len - (DIFFICULTY_WINDOW - 2 * DIFFICULTY_CUT) + 1) div 2
           in (cut_begin, cut_begin + (DIFFICULTY_WINDOW - 2 * DIFFICULTY_CUT)))"

definition next_difficulty_64 ::
  "(u64 \<Rightarrow> u64 \<Rightarrow> u64 \<times> u64) \<Rightarrow> u64 list \<Rightarrow> u64 list \<Rightarrow> u64 \<Rightarrow> u64 result" where
  "next_difficulty_64 mul timestamps cumulative_difficulties target_seconds =
     (let (timestamps, cumulative_difficulties) =
            (if length timestamps > DIFFICULTY_WINDOW
             then (resize_vec DIFFICULTY_WINDOW timestamps, resize_vec DIFFICULTY_WINDOW cumulative_difficulties)
             else (timestamps, cumulative_difficulties));
          len = length timestamps
      in if len \<le> 1 then Inr 1
         else let timestamps = sort timestamps; (cut_begin, cut_end) = cut_range len in
           bindr (nth_r timestamps (cut_end - 1)) (\<lambda>t1. bindr (nth_r timestamps cut_begin) (\<lambda>t0.
           let time_span = (if t1 - t0 = 0 then 1 else t1 - t0) in
           bindr (nth_r cumulative_difficulties (cut_end - 1)) (\<lambda>d1.
           bindr (nth_r cumulative_difficulties cut_begin) (\<lambda>d0.
           let (low, high) = mul (d1 - d0) target_seconds in
           if high \<noteq> 0 \<or> low + time_span - 1 < low then Inr 0
           else Inr ((low + time_span - 1) div time_span))))))"

definition next_difficulty :: "u64 list \<Rightarrow> u128 list \<Rightarrow> u64 \<Rightarrow> u128 result" where
  "next_difficulty timestamps cumulative_difficulties target_seconds =
     (let (timestamps, cumulative_difficulties) =
            (if length timestamps > DIFFICULTY_WINDOW
             then (resize_vec DIFFICULTY_WINDOW timestamps, resize_vec DIFFICULTY_WINDOW cumulative_difficulties)
             else (timestamps, cumulative_difficulties));
          len = length timestamps
      in if len \<le> 1 then Inr 1
         else let timestamps = sort timestamps; (cut_begin, cut_end) = cut_range len in
           bindr (nth_r timestamps (cut_end - 1)) (\<lambda>t1. bindr (nth_r timestamps cut_begin) (\<lambda>t0.
           let time_span = (if t1 - t0 = 0 then 1 else t1 - t0) in
           bindr (nth_r cumulative_difficulties (cut_end - 1)) (\<lambda>d1.
           bindr (nth_r cumulative_difficulties cut_begin) (\<lambda>d0.
           let total_work = d1 - d0;
               res = ((ucast total_work :: u256) * ucast target_seconds + ucast time_span - 1) div ucast time_span
           in if res > max128bit then Inr 0 else Inr (ucast res))))))"

text \<open>\<open>while (v > 0)\<close>: the digits pushed, least significant first.\<close>

function hex_digits :: "u128 \<Rightarrow> string" where
  "hex_digits v = (if v > 0 then hex_char (unat (v AND 0xF)) # hex_digits (drop_bit 4 v) else [])"
  by pat_completeness auto
termination
proof (relation "measure unat")
  fix v :: u128 assume "0 < v"
  then have "0 < unat v" by (simp add: unat_gt_0)
  then have "unat v div 16 < unat v" by simp
  then show "(drop_bit 4 v, v) \<in> measure unat" by (simp add: drop_bit_eq_div unat_div)
qed simp

declare hex_digits.simps [simp del]

definition hex_of_difficulty :: "u128 \<Rightarrow> string" where
  "hex_of_difficulty v =
     (let s = hex_digits v; s = (if s = [] then s @ ''0'' else s) in ''0x'' @ rev s)"


section \<open>Both multiplications give the whole product\<close>

lemma unat_hi [word_nat]: "unat (drop_bit 32 (x :: u64)) = unat x div 2 ^ 32"
  by (simp add: drop_bit_eq_div unat_div)

lemma unat_lo [word_nat]: "unat ((x :: u64) AND 0xFFFFFFFF) = unat x mod 2 ^ 32"
proof -
  have m: "(0xFFFFFFFF :: u64) = mask 32" by (simp add: mask_eq_exp_minus_1)
  have "unat (x AND 0xFFFFFFFF) = unat (take_bit 32 x)" unfolding m take_bit_eq_mask ..
  also have "\<dots> = take_bit 32 (unat x)" by (rule unsigned_take_bit_eq)
  also have "\<dots> = unat x mod 2 ^ 32" by (rule take_bit_eq_mod)
  finally show ?thesis .
qed

lemma unat_push [word_nat]: "unat (push_bit 32 (x :: u64)) = (unat x mod 2 ^ 32) * 2 ^ 32"
proof -
  have "unat (push_bit 32 x) = (unat x * 2 ^ 32) mod 2 ^ 64"
    by (simp add: push_bit_eq_mult unat_word_ariths mult.commute)
  also have "\<dots> = (unat x mod 2 ^ 32) * 2 ^ 32"
    using mult_mod_right [of "2 ^ 32 :: nat" "unat x" "2 ^ 32"] by (simp add: mult.commute)
  finally show ?thesis .
qed

lemma unat_push_or:
  fixes r l :: u64
  assumes "unat l < 2 ^ 32"
  shows "unat (push_bit 32 r OR l) = (unat r mod 2 ^ 32) * 2 ^ 32 + unat l"
proof -
  have "l = take_bit 32 l"
    using assms by (simp add: word_unat_eq_iff unsigned_take_bit_eq take_bit_nat_eq_self)
  then have lb: "bit l n \<Longrightarrow> n < 32" for n by (metis bit_take_bit_iff)
  have "push_bit 32 r + l = push_bit 32 r OR l"
    by (rule disjunctive_add) (auto simp: bit_push_bit_iff dest: lb)
  moreover have "(unat r mod 2 ^ 32) * 2 ^ 32 + unat l < 2 ^ 64"
  proof -
    have "unat r mod 2 ^ 32 \<le> 2 ^ 32 - 1" by (simp add: less_eq_iff_succ_less)
    then have "(unat r mod 2 ^ 32) * 2 ^ 32 \<le> (2 ^ 32 - 1) * 2 ^ 32" by (rule mult_right_mono) simp
    with assms show ?thesis by simp
  qed
  ultimately show ?thesis by (simp add: unat_add_no_wrap unat_push flip: \<open>push_bit 32 r + l = _\<close>)
qed

text \<open>Products of 32-bit halves, with a carry, fit 64 bits.\<close>

lemma half_product: "a < 2 ^ 32 \<Longrightarrow> b < 2 ^ 32 \<Longrightarrow> a * b \<le> (2 ^ 32 - 1) * (2 ^ 32 - 1 :: nat)"
  by (rule mult_mono) simp_all

lemma unat_half_mult:
  "unat (x :: u64) < 2 ^ 32 \<Longrightarrow> unat (y :: u64) < 2 ^ 32 \<Longrightarrow> unat (x * y) = unat x * unat y"
  using half_product [of "unat x" "unat y"] by (intro unat_mult_no_wrap) simp

lemma carry_unat: "unat ((a :: u64) + b) + (if a + b < a then 2 ^ 64 else 0) = unat a + unat b"
  using unat_u64_less [of a] unat_u64_less [of b]
  by (auto simp: word_less_nat_alt unat_word_ariths mod_if)

definition exact_product :: "(u64 \<Rightarrow> u64 \<Rightarrow> u64 \<times> u64) \<Rightarrow> bool" where
  "exact_product mul \<longleftrightarrow> (\<forall>a b. unat (fst (mul a b)) + 2 ^ 64 * unat (snd (mul a b)) = unat a * unat b)"

lemma split32: "n = n mod 2 ^ 32 + 2 ^ 32 * (n div 2 ^ 32)" for n :: nat
  by simp

lemma halves_of:
  "unat (x :: u64) = unat (x AND 0xFFFFFFFF) + 2 ^ 32 * unat (drop_bit 32 x)"
  "unat (drop_bit 32 x) < 2 ^ 32" "unat (x AND 0xFFFFFFFF) < 2 ^ 32"
  unfolding unat_hi unat_lo using unat_u64_less [of x] by (auto simp: less_mult_imp_div_less)

lemma high_half_fits:
  assumes "n + 2 ^ 64 * H = unat (x :: u64) * unat (y :: u64)"
  shows "H < 2 ^ 64"
proof -
  have "unat x * unat y < 2 ^ 64 * 2 ^ 64"
    using unat_u64_less [of x] unat_u64_less [of y] by (intro mult_strict_mono) simp_all
  then have "2 ^ 64 * H < 2 ^ 64 * (2 ^ 64 :: nat)" using assms by linarith
  then show ?thesis by simp
qed

lemma cross_terms_add_up:
  fixes a :: nat
  assumes "s + 2 ^ 64 * k = a * d + b * c" "lo + 2 ^ 64 * m = b * d + (s mod 2 ^ 32) * 2 ^ 32"
  shows "lo + 2 ^ 64 * (a * c + s div 2 ^ 32 + k * 2 ^ 32 + m) = (b + 2 ^ 32 * a) * (d + 2 ^ 32 * c)"
proof -
  have "(b + 2 ^ 32 * a) * (d + 2 ^ 32 * c) = b * d + 2 ^ 32 * (a * d + b * c) + 2 ^ 64 * (a * c)"
    by (simp add: algebra_simps)
  also have "\<dots> = b * d + 2 ^ 32 * s + 2 ^ 96 * k + 2 ^ 64 * (a * c)"
    by (simp flip: assms(1) add: algebra_simps)
  also have "2 ^ 32 * s = 2 ^ 32 * (s mod 2 ^ 32) + 2 ^ 64 * (s div 2 ^ 32)"
    using arg_cong [OF split32 [of s], of "\<lambda>n. 2 ^ 32 * n"] by (simp only: distrib_left) simp
  finally show ?thesis using assms(2) by (simp add: algebra_simps)
qed

lemma mul128_exact: "unat (fst (mul128 x y)) + 2 ^ 64 * unat (snd (mul128 x y)) = unat x * unat y"
proof -
  define a b c d where abcd: "a = hi_dword x" "b = lo_dword x" "c = hi_dword y" "d = lo_dword y"
  note whole_of = halves_of(1) [of x] halves_of(1) [of y]
  note small = halves_of(2,3) [of x] halves_of(2,3) [of y]
  note xy = whole_of [folded hi_dword_def lo_dword_def, folded abcd]
  note lt = small [folded hi_dword_def lo_dword_def, folded abcd]
  note p = unat_half_mult [OF lt(1,3)] unat_half_mult [OF lt(1,4)] unat_half_mult [OF lt(2,3)]
    unat_half_mult [OF lt(2,4)]
  define s where "s = a * d + b * c"
  define k :: nat where "k = (if s < a * d then 1 else 0)"
  have s: "unat s + 2 ^ 64 * k = unat a * unat d + unat b * unat c"
    using carry_unat [of "a * d" "b * c"] p by (simp add: s_def k_def split: if_splits)
  define lo where "lo = b * d + push_bit 32 s"
  define m :: nat where "m = (if lo < b * d then 1 else 0)"
  have lo: "unat lo + 2 ^ 64 * m = unat b * unat d + (unat s mod 2 ^ 32) * 2 ^ 32"
    using carry_unat [of "b * d" "push_bit 32 s"] p by (simp add: lo_def m_def unat_push split: if_splits)
  define H where "H = unat a * unat c + unat s div 2 ^ 32 + k * 2 ^ 32 + m"
  have whole: "unat lo + 2 ^ 64 * H = unat x * unat y"
    unfolding H_def xy by (rule cross_terms_add_up [OF s lo])
  define kw mw :: u64 where kw: "kw = (if s < a * d then 1 else 0)" and mw: "mw = (if lo < b * d then 1 else 0)"
  have kwn: "unat (push_bit 32 kw) = k * 2 ^ 32" "unat mw = m"
    by (simp_all add: kw mw k_def m_def unat_push)
  have "unat (a * c + drop_bit 32 s + push_bit 32 kw + mw) = H"
    using high_half_fits [OF whole] p kwn unfolding H_def by (simp add: unat_add_no_wrap unat_hi)
  moreover have "mul128 x y = (lo, a * c + drop_bit 32 s + push_bit 32 kw + mw)"
    unfolding mul128_def Let_def abcd [symmetric] s_def [symmetric] lo_def [symmetric] kw mw ..
  ultimately show ?thesis using whole by simp
qed

lemma columns_add_up:
  fixes ab :: nat
  assumes "r1 = m1 + 4294967296 * q1" "r2 = m2 + 4294967296 * q2" "r3 = m3 + 4294967296 * q3"
    "r4 = m4 + 4294967296 * q4" "s1 = t1 + 4294967296 * u1" "s2 = t2 + 4294967296 * u2"
    and "r1 = ab" "r2 = Ab + q1" "r3 = aB" "r4 = AB + q3" "s1 = m2 + m3" "s2 = q2 + m4 + u1" "s3 = q4 + u2"
    and "low = t1 * 4294967296 + m1"
  shows "ab + 4294967296 * (Ab + aB) + 18446744073709551616 * AB
     = low + 18446744073709551616 * (4294967296 * s3 + t2)"
proof -
  have e: "Ab + q1 = m2 + 4294967296 * q2" "AB + q3 = m4 + 4294967296 * q4"
    "m2 + m3 = t1 + 4294967296 * u1" "q2 + m4 + u1 = t2 + 4294967296 * u2" using assms by simp_all
  have "ab + 4294967296 * (Ab + aB) + 18446744073709551616 * AB
     = m1 + 4294967296 * (Ab + q1) + 4294967296 * m3 + 18446744073709551616 * (AB + q3)" using assms by simp
  also have "\<dots> = m1 + 4294967296 * (m2 + m3) + 18446744073709551616 * (q2 + m4 + 4294967296 * q4)"
    unfolding e(1,2) by simp
  also have "\<dots> = low + 18446744073709551616 * (q2 + m4 + u1 + 4294967296 * q4)"
    unfolding e(3) using assms(14) by simp
  also have "\<dots> = low + 18446744073709551616 * (4294967296 * s3 + t2)"
    unfolding e(4) using assms(13) by simp
  finally show ?thesis .
qed

lemma halves_unique:
  fixes l :: nat
  assumes "l + 2 ^ 64 * h = l' + 2 ^ 64 * h'" "l < 2 ^ 64" "l' < 2 ^ 64"
  shows "l = l' \<and> h = h'"
proof -
  have "(l + 2 ^ 64 * h) mod 2 ^ 64 = l" "(l' + 2 ^ 64 * h') mod 2 ^ 64 = l'" using assms(2,3) by simp_all
  then have "l = l'" using assms(1) by metis
  with assms(1) show ?thesis by simp
qed

text \<open>The portable variant in natural numbers: every intermediate sum fits its word.\<close>

lemma half_mult_carry:
  assumes "unat (u :: u64) < 2 ^ 32" "unat v < 2 ^ 32"
  shows "unat (u * v + drop_bit 32 w) = unat u * unat v + unat w div 2 ^ 32"
proof -
  have "unat w div 2 ^ 32 \<le> 2 ^ 32 - 1"
    using unat_u64_less [of w] by (simp add: less_mult_imp_div_less less_Suc_eq_le [symmetric])
  then have "unat (u * v) + unat (drop_bit 32 w) < 2 ^ 64"
    using half_product [OF assms] unat_half_mult [OF assms] by (simp add: unat_hi)
  then show ?thesis using unat_half_mult [OF assms] by (simp add: unat_add_no_wrap unat_hi)
qed

lemma unat_half_sum:
  assumes "unat (u :: u64) < 2 ^ 32" "unat v < 2 ^ 32" "unat w < 2 ^ 32"
  shows "unat (u + v + w) = unat u + unat v + unat w" "unat (u + v) = unat u + unat v"
proof -
  show "unat (u + v) = unat u + unat v" using assms by (subst unat_add_no_wrap) simp_all
  then show "unat (u + v + w) = unat u + unat v + unat w" using assms by (subst unat_add_no_wrap) simp_all
qed

lemma columns_of_product:
  fixes a :: nat
  assumes "r1 = a * b" "r2 = A * b + r1 div 2 ^ 32" "r3 = a * B" "r4 = A * B + r3 div 2 ^ 32"
    and "s1 = r2 mod 2 ^ 32 + r3 mod 2 ^ 32" "s2 = r2 div 2 ^ 32 + r4 mod 2 ^ 32 + s1 div 2 ^ 32"
    and "s3 = r4 div 2 ^ 32 + s2 div 2 ^ 32" "low = (s1 mod 2 ^ 32) * 2 ^ 32 + r1 mod 2 ^ 32"
  shows "low + 2 ^ 64 * (2 ^ 32 * s3 + s2 mod 2 ^ 32) = (a + 2 ^ 32 * A) * (b + 2 ^ 32 * B)"
proof -
  have d: "n = n mod 4294967296 + 4294967296 * (n div 4294967296)" for n :: nat by simp
  have "(a + 2 ^ 32 * A) * (b + 2 ^ 32 * B) = a * b + 2 ^ 32 * (A * b + a * B) + 2 ^ 64 * (A * B)"
    by (simp add: algebra_simps)
  also have "\<dots> = low + 2 ^ 64 * (2 ^ 32 * s3 + s2 mod 2 ^ 32)"
    using columns_add_up [OF d d d d d d assms(1) assms(2) [simplified] assms(3) assms(4) [simplified]
        assms(5) [simplified] assms(6) [simplified] assms(7) [simplified] assms(8) [simplified]]
    by simp
  finally show ?thesis by simp
qed

lemma mul_portable_exact: "unat (fst (mul_portable x y)) + 2 ^ 64 * unat (snd (mul_portable x y)) = unat x * unat y"
proof -
  define A a B b where xy: "A = drop_bit 32 x" "a = x AND 0xFFFFFFFF" "B = drop_bit 32 y" "b = y AND 0xFFFFFFFF"
  note n = halves_of(1) [of x, folded xy] halves_of(1) [of y, folded xy]
  note small = halves_of(2,3) [of x, folded xy] halves_of(2,3) [of y, folded xy]
  define r1 r2 r3 r4 where r: "r1 = a * b" "r2 = A * b + drop_bit 32 r1" "r3 = a * B" "r4 = A * B + drop_bit 32 r3"
  have rn: "unat r1 = unat a * unat b" "unat r2 = unat A * unat b + unat r1 div 2 ^ 32"
    "unat r3 = unat a * unat B" "unat r4 = unat A * unat B + unat r3 div 2 ^ 32"
    unfolding r using small by (simp_all only: half_mult_carry unat_half_mult)
  define s1 where "s1 = (r2 AND 0xFFFFFFFF) + (r3 AND 0xFFFFFFFF)"
  have s1: "unat s1 = unat r2 mod 2 ^ 32 + unat r3 mod 2 ^ 32"
    unfolding s1_def unat_half_sum(2) [OF halves_of(3) halves_of(3) halves_of(3)] unat_lo ..
  define s2 where "s2 = drop_bit 32 r2 + (r4 AND 0xFFFFFFFF) + drop_bit 32 s1"
  have s2: "unat s2 = unat r2 div 2 ^ 32 + unat r4 mod 2 ^ 32 + unat s1 div 2 ^ 32"
    unfolding s2_def unat_half_sum(1) [OF halves_of(2,3,2)] unat_lo unat_hi ..
  define s3 where "s3 = drop_bit 32 r4 + drop_bit 32 s2"
  have s3: "unat s3 = unat r4 div 2 ^ 32 + unat s2 div 2 ^ 32"
    unfolding s3_def unat_half_sum(2) [OF halves_of(2) halves_of(2) halves_of(2)] unat_hi ..
  define low where "low = push_bit 32 s1 OR (r1 AND 0xFFFFFFFF)"
  define high where "high = (s2 AND 0xFFFFFFFF) OR push_bit 32 s3"
  have m: "mul_portable x y = (low, high)"
    unfolding mul_portable_def Let_def xy [symmetric] r [symmetric] s1_def [symmetric] s2_def [symmetric]
      s3_def [symmetric] low_def high_def ..
  have low: "unat low = (unat s1 mod 2 ^ 32) * 2 ^ 32 + unat r1 mod 2 ^ 32"
    unfolding low_def by (subst unat_push_or) (simp_all add: unat_lo)
  have high: "unat high = (unat s3 mod 2 ^ 32) * 2 ^ 32 + unat s2 mod 2 ^ 32"
    unfolding high_def or.commute [of "s2 AND 0xFFFFFFFF"] by (subst unat_push_or) (simp_all add: unat_lo)
  have whole: "unat low + 2 ^ 64 * (2 ^ 32 * unat s3 + unat s2 mod 2 ^ 32) = unat x * unat y"
    unfolding n using rn s1 s2 s3 low by (rule columns_of_product)
  have "2 ^ 32 * unat s3 + unat s2 mod 2 ^ 32 < 2 ^ 32 * (2 ^ 32 :: nat)" using high_half_fits [OF whole] by simp
  then have "unat s3 mod 2 ^ 32 = unat s3" by simp
  with whole m high show ?thesis by (simp add: mult.commute)
qed

text \<open>Both multiplications are exact: the one for x86-64 and the portable one each return the two halves of
  the full 128-bit product, for every pair of factors, so they agree.\<close>

theorem multiplications_exact:
  "exact_product mul128 \<and> exact_product mul_portable \<and> mul128 a b = mul_portable a b"
proof -
  have low: "fst (mul128 a b) = fst (mul_portable a b) \<and> snd (mul128 a b) = snd (mul_portable a b)"
  proof -
    have "unat (fst (mul128 a b)) + 2 ^ 64 * unat (snd (mul128 a b))
        = unat (fst (mul_portable a b)) + 2 ^ 64 * unat (snd (mul_portable a b))"
      unfolding mul128_exact mul_portable_exact ..
    from halves_unique [OF this] show ?thesis
      using unat_u64_less [of "fst (mul128 a b)"] unat_u64_less [of "fst (mul_portable a b)"]
      by (simp add: word_unat_eq_iff)
  qed
  then have "mul128 a b = mul_portable a b" by (simp add: prod_eq_iff)
  then show ?thesis using mul128_exact mul_portable_exact by (simp add: exact_product_def)
qed

section \<open>The test against the target\<close>

lemma le_nat_append: "le_nat (xs @ ys) = le_nat xs + 256 ^ length xs * le_nat ys"
  by (induction xs) (simp_all add: algebra_simps)

lemma load_words:
  assumes "arr32 h"
  shows "le_nat h = unat (load_u64_from_hash h 0) + 2 ^ 64 * unat (load_u64_from_hash h 1)
     + 2 ^ 128 * unat (load_u64_from_hash h 2) + 2 ^ 192 * unat (load_u64_from_hash h 3)"
proof -
  have w: "unat (load_u64_from_hash h i) = le_nat (take 8 (drop (8 * i) h))" for i
    unfolding load_u64_from_hash_def by (subst unat_le_to_word) (simp_all add: mult.commute)
  have l: "length h = 32" using assms by (simp add: arr32_def)
  have split: "le_nat (drop k h) = le_nat (take 8 (drop k h)) + 256 ^ 8 * le_nat (drop (8 + k) h)"
    if "k + 8 \<le> 32" for k
  proof -
    have "le_nat (drop k h) = le_nat (take 8 (drop k h) @ drop 8 (drop k h))" by (simp only: append_take_drop_id)
    also have "\<dots> = le_nat (take 8 (drop k h)) + 256 ^ length (take 8 (drop k h)) * le_nat (drop 8 (drop k h))"
      by (rule le_nat_append)
    finally show ?thesis using that l by simp
  qed
  have "le_nat h = le_nat (take 8 (drop 0 h)) + 256 ^ 8 * (le_nat (take 8 (drop 8 h))
      + 256 ^ 8 * (le_nat (take 8 (drop 16 h)) + 256 ^ 8 * (le_nat (take 8 (drop 24 h)) + 256 ^ 8 * le_nat (drop 32 h))))"
    using split [of 0] split [of 8] split [of 16] split [of 24] by simp
  also have "drop 32 h = []" using l by simp
  finally show ?thesis by (simp add: w algebra_simps)
qed

lemma cadd_unat: "cadd a b \<longleftrightarrow> 2 ^ 64 \<le> unat a + unat b"
  using carry_unat [of a b] unat_u64_less [of "a + b"] unat_u64_less [of a]
  by (auto simp: cadd_def word_less_nat_alt unat_word_ariths split: if_splits)

lemma cadc_unat: "cadc a b c \<longleftrightarrow> 2 ^ 64 \<le> unat a + unat b + of_bool c"
proof -
  have m: "a + b = - 1 \<longleftrightarrow> unat (a + b) = 2 ^ 64 - 1"
    by (simp add: word_unat_eq_iff unsigned_minus_1_eq_mask mask_eq_exp_minus_1)
  show ?thesis
    unfolding cadc_def m cadd_def [symmetric] cadd_unat
    using unat_u64_less [of a] unat_u64_less [of b] carry_unat [of a b] cadd_unat [of a b]
    by (auto simp: cadd_def split: if_splits)
qed


lemma hash_carry_chain:
  fixes P :: nat
  assumes "P = l0 + X * c0 + X * (l1 + X * h1) + X * X * (l2 + X * h2) + X * X * X * t"
    and "l0 < X" "r1 < X" "r2 < X" "r3 < X"
    and "c0 + l1 = r1 + X * k1" "h1 + l2 + k1 = r2 + X * k2" "h2 + t + k2 = r3 + X * k3"
  shows "P < X * X * X * X \<longleftrightarrow> k3 = 0"
proof -
  let ?low = "l0 + X * (r1 + X * (r2 + X * r3))"
  have "P = l0 + X * (c0 + l1) + X * X * (h1 + l2) + X * X * X * (h2 + t)"
    unfolding assms(1) by (simp add: algebra_simps)
  also have "\<dots> = l0 + X * r1 + X * X * (h1 + l2 + k1) + X * X * X * (h2 + t)"
    unfolding assms(6) by (simp add: algebra_simps)
  also have "\<dots> = l0 + X * r1 + X * X * r2 + X * X * X * (h2 + t + k2)"
    unfolding assms(7) by (simp add: algebra_simps)
  also have "\<dots> = ?low + X * X * X * X * k3"
    unfolding assms(8) by (simp add: algebra_simps)
  finally have P: "P = ?low + X * X * X * X * k3" .
  have step: "a < X \<Longrightarrow> b < Y \<Longrightarrow> a + X * b < X * (Y :: nat)" for a b Y
  proof -
    assume "a < X" "b < Y"
    then have "a + X * b < X * Suc b" by simp
    also have "\<dots> \<le> X * Y" using \<open>b < Y\<close> by (intro mult_le_mono2) simp
    finally show "a + X * b < X * Y" .
  qed
  have "?low < X * (X * (X * X))" using assms(2-5) by (intro step)
  then have low: "?low < X * X * X * X" by (simp add: mult.assoc)
  show ?thesis
  proof
    assume "P < X * X * X * X"
    then have "X * X * X * X * k3 < X * X * X * X" using P by linarith
    then show "k3 = 0" by simp
  qed (use P low in simp)
qed

lemma carry_bit:
  fixes n :: nat
  assumes "n \<le> 2 * X - 1" "0 < X"
  obtains r where "r < X" "n = r + X * of_bool (X \<le> n)"
  using assms by (cases "X \<le> n") (auto intro: that [of "n - X"] that [of n])

lemma carry_chain_words:
  fixes l0 c0 l1 h1 l2 h2 t :: u64
  defines "k1 \<equiv> cadd c0 l1" and "k2 \<equiv> cadc h1 l2 (cadd c0 l1)"
  assumes "P = unat l0 + 2 ^ 64 * unat c0 + 2 ^ 64 * (unat l1 + 2 ^ 64 * unat h1)
     + 2 ^ 64 * 2 ^ 64 * (unat l2 + 2 ^ 64 * unat h2) + 2 ^ 64 * 2 ^ 64 * 2 ^ 64 * unat t"
  shows "P < 2 ^ 256 \<longleftrightarrow> \<not> cadc h2 t k2"
proof -
  let ?X = "2 ^ 64 :: nat"
  define k3 where "k3 = cadc h2 t k2"
  have lt: "unat x < ?X" for x :: u64 using unat_u64_less [of x] by simp
  have two: "unat x + unat y + k \<le> 2 * ?X - 1" if "k \<le> 1" for x y :: u64 and k
    using lt [of x] lt [of y] that by simp
  obtain r1 where r1: "r1 < ?X" "unat c0 + unat l1 = r1 + ?X * of_bool k1"
    using carry_bit [of "unat c0 + unat l1" ?X] two [of 0 c0 l1] unfolding k1_def cadd_unat by auto
  obtain r2 where r2: "r2 < ?X" "unat h1 + unat l2 + of_bool k1 = r2 + ?X * of_bool k2"
    using carry_bit [of "unat h1 + unat l2 + of_bool k1" ?X] two [of "of_bool k1" h1 l2]
    unfolding k2_def cadc_unat k1_def by auto
  obtain r3 where r3: "r3 < ?X" "unat h2 + unat t + of_bool k2 = r3 + ?X * of_bool k3"
    using carry_bit [of "unat h2 + unat t + of_bool k2" ?X] two [of "of_bool k2" h2 t]
    unfolding k3_def cadc_unat by auto
  have "P < ?X * ?X * ?X * ?X \<longleftrightarrow> of_bool k3 = (0 :: nat)"
    by (rule hash_carry_chain [OF assms(3) lt r1(1) r2(1) r3(1) r1(2) r2(2) r3(2)])
  then show ?thesis by (simp add: k3_def)
qed

lemma check_hash_64_iff:
  assumes "exact_product mul" "arr32 h"
  shows "check_hash_64 mul h d \<longleftrightarrow> le_nat h * unat d < 2 ^ 256"
proof -
  define w where "w i = unat (load_u64_from_hash h i)" for i
  obtain l0 c0 l1 h1 l2 h2 t h3 where
    m: "mul (load_u64_from_hash h 0) d = (l0, c0)" "mul (load_u64_from_hash h 1) d = (l1, h1)"
       "mul (load_u64_from_hash h 2) d = (l2, h2)" "mul (load_u64_from_hash h 3) d = (t, h3)"
    by (metis surj_pair)
  let ?X = "2 ^ 64 :: nat" and ?d = "unat d"
  have e: "unat (fst (mul a b)) + ?X * unat (snd (mul a b)) = unat a * unat b" for a b
    using assms(1) by (simp add: exact_product_def)
  have p: "w 0 * ?d = unat l0 + ?X * unat c0" "w 1 * ?d = unat l1 + ?X * unat h1"
    "w 2 * ?d = unat l2 + ?X * unat h2" "w 3 * ?d = unat t + ?X * unat h3"
    using e [of "load_u64_from_hash h 0" d] e [of "load_u64_from_hash h 1" d]
      e [of "load_u64_from_hash h 2" d] e [of "load_u64_from_hash h 3" d]
    unfolding m w_def fst_conv snd_conv by (simp_all only:)
  have P: "le_nat h * ?d = w 0 * ?d + ?X * (w 1 * ?d) + ?X * ?X * (w 2 * ?d) + ?X * ?X * ?X * (w 3 * ?d)"
    unfolding load_words [OF assms(2)] w_def [symmetric] by (simp add: algebra_simps)
  show ?thesis
  proof (cases "h3 = 0")
    case False
    then have "1 \<le> unat h3" by (simp add: Suc_le_eq unat_gt_0)
    then have "?X * 1 \<le> w 3 * ?d" unfolding p(4) by (intro trans_le_add2 mult_le_mono2)
    then have "?X * ?X * ?X * (?X * 1) \<le> ?X * ?X * ?X * (w 3 * ?d)" by (rule mult_le_mono2)
    moreover have "(2 :: nat) ^ 256 = ?X * ?X * ?X * (?X * 1)" by simp
    ultimately have "\<not> le_nat h * ?d < 2 ^ 256" unfolding P not_less by (simp only: trans_le_add2)
    with False show ?thesis by (simp add: check_hash_64_def m)
  next
    case True
    then have "le_nat h * ?d < 2 ^ 256 \<longleftrightarrow> \<not> cadc h2 t (cadc h1 l2 (cadd c0 l1))"
      unfolding P p by (intro carry_chain_words) simp
    with True show ?thesis by (simp add: check_hash_64_def m m(2) [simplified] Let_def)
  qed
qed

lemma unat_push64_or:
  fixes v :: u512 and x :: u64
  assumes "unat v < 2 ^ 448"
  shows "unat (push_bit 64 v OR ucast x) = unat v * 2 ^ 64 + unat x"
proof -
  have lb: "bit (ucast x :: u512) n \<Longrightarrow> n < 64" for n by (auto simp: bit_ucast_iff dest: bit_imp_le_length)
  have "push_bit 64 v + ucast x = push_bit 64 v OR ucast x"
    by (rule disjunctive_add) (auto simp: bit_push_bit_iff dest: lb)
  moreover have p: "unat (push_bit 64 v) = unat v * 2 ^ 64"
    using assms by (simp add: push_bit_eq_mult unat_mult_no_wrap mult.commute)
  moreover have x: "unat (ucast x :: u512) = unat x" by (rule unat_ucast_up) simp
  moreover have "unat v * 2 ^ 64 + unat x < 2 ^ 512"
  proof -
    have "unat v + 1 \<le> 2 ^ 448" using assms by simp
    then have "(unat v + 1) * 2 ^ 64 \<le> 2 ^ 448 * 2 ^ 64" by (rule mult_right_mono) simp
    with unat_u64_less [of x] show ?thesis by simp
  qed
  ultimately show ?thesis
    using unat_add_no_wrap [of "push_bit 64 v" "ucast x"] by simp
qed


lemma unat_max_bits: "unat max64bit = 2 ^ 64 - 1" "unat max128bit = 2 ^ 128 - 1" "unat max256bit = 2 ^ 256 - 1"
  by (simp_all add: max64bit_def max128bit_def max256bit_def unat_ucast_up unsigned_minus_1_eq_mask mask_eq_exp_minus_1)

lemma check_hash_128_iff:
  assumes "arr32 h"
  shows "check_hash_128 h d \<longleftrightarrow> le_nat h * unat d < 2 ^ 256"
proof -
  define w where "w i = load_u64_from_hash h i" for i
  define v1 v2 v3 v4 :: u512 where
    v: "v1 = push_bit 64 0 OR ucast (w 3)" "v2 = push_bit 64 v1 OR ucast (w 2)"
       "v3 = push_bit 64 v2 OR ucast (w 1)" "v4 = push_bit 64 v3 OR ucast (w 0)"
  have b: "unat (w i) < 2 ^ 64" for i using unat_u64_less [of "w i"] by simp
  have n1: "unat v1 = unat (w 3)" unfolding v by (subst unat_push64_or) simp_all
  have n2: "unat v2 = unat (w 3) * 2 ^ 64 + unat (w 2)"
    unfolding v(2) using b [of 3] by (subst unat_push64_or) (simp_all add: n1)
  have n3: "unat v3 = (unat (w 3) * 2 ^ 64 + unat (w 2)) * 2 ^ 64 + unat (w 1)"
    unfolding v(3) using b [of 3] b [of 2] by (subst unat_push64_or) (simp_all add: n2)
  have n4: "unat v4 = ((unat (w 3) * 2 ^ 64 + unat (w 2)) * 2 ^ 64 + unat (w 1)) * 2 ^ 64 + unat (w 0)"
    unfolding v(4) using b [of 3] b [of 2] b [of 1] by (subst unat_push64_or) (simp_all add: n3)
  have h: "unat v4 = le_nat h"
    unfolding load_words [OF assms] n4 w_def by (simp add: algebra_simps)
  have lt: "le_nat h < 2 ^ 256"
    using le_nat_bound [of h] assms by (simp add: arr32_def)
  have d: "unat d < 2 ^ 128" using unsigned_less [of d, where ?'a = nat] by simp
  have "le_nat h * unat d < 2 ^ 256 * 2 ^ 128"
    using lt d by (intro mult_strict_mono) simp_all
  then have "unat (v4 * ucast d) = le_nat h * unat d"
    by (subst unat_mult_no_wrap) (simp_all add: h unat_ucast_up)
  moreover have "check_hash_128 h d \<longleftrightarrow> v4 * ucast d \<le> max256bit"
    by (simp add: check_hash_128_def Let_def v w_def)
  ultimately show ?thesis unfolding word_le_nat_alt unat_max_bits by (simp add: less_eq_iff_succ_less)
qed

text \<open>C18: The proof-of-work test is the documented one. For every hash and difficulty, on both platforms, check_hash
  accepts exactly when hash times difficulty, the hash read as a little-endian 256-bit number, is less than
  2^256; the fast path by word products with carries and the 512-bit path decide the same predicate.\<close>

theorem check_hash_spec:
  assumes "mul = mul128 \<or> mul = mul_portable" "arr32 h"
  shows "(check_hash mul h d \<longleftrightarrow> le_nat h * unat d < 2 ^ 256)
     \<and> (check_hash_128 h (ucast d64) \<longleftrightarrow> check_hash_64 mul h d64)"
proof -
  have mul: "exact_product mul"
    using assms(1) mul128_exact mul_portable_exact by (auto simp: exact_product_def)
  have e: "unat (ucast d64 :: u128) = unat d64" by (rule unat_ucast_up) simp
  have "unat (ucast d :: u64) = unat d" if "d \<le> max64bit"
  proof -
    have "unat d < 2 ^ 64" using that by (simp add: word_le_nat_alt unat_max_bits)
    then show ?thesis by (simp add: unsigned_ucast_eq take_bit_nat_eq_self)
  qed
  then show ?thesis
    using check_hash_64_iff [OF mul assms(2)] check_hash_128_iff [OF assms(2)] e by (simp add: check_hash_def)
qed

theorem check_hash_spec_witness:
  "check_hash mul128 zeros32 12345 \<longleftrightarrow> le_nat zeros32 * unat (12345 :: u128) < 2 ^ 256"
  using check_hash_spec [of mul128 zeros32 12345 1] by simp

section \<open>The difficulty rule\<close>

text \<open>
  The rule as arithmetic: sort the timestamps, cut both ends, and divide the work done between the
  cuts, times the target, by the time between them, rounding up.
\<close>

text \<open>Of more than 600 blocks the 600 in the middle are left, the odd one going from the old end.\<close>

definition central :: "'a list \<Rightarrow> 'a list" where
  "central xs = take 600 (drop ((length xs - 599) div 2) xs)"

definition cut_span :: "u64 list \<Rightarrow> nat" where
  "cut_span ts = max 1 (unat (last (central (sort ts))) - unat (hd (central (sort ts))))"

definition cut_work :: "u128 list \<Rightarrow> u128" where
  "cut_work cds = last (central cds) - hd (central cds)"

lemma cut_range_bounds:
  "2 \<le> n \<Longrightarrow> n \<le> 720 \<Longrightarrow> fst (cut_range n) < snd (cut_range n) - 1 \<and> snd (cut_range n) - 1 < n"
  by (auto simp: cut_range_def DIFFICULTY_WINDOW_def DIFFICULTY_CUT_def Let_def)

lemma central_ends:
  assumes "2 \<le> length xs" "length xs \<le> 720" "cut_range (length xs) = (b, e)"
  shows "hd (central xs) = xs ! b \<and> last (central xs) = xs ! (e - 1)"
proof -
  have be: "b = (length xs - 599) div 2" "e = b + min 600 (length xs)"
    using assms by (auto simp: cut_range_def DIFFICULTY_WINDOW_def DIFFICULTY_CUT_def Let_def split: if_splits)
  have le: "b + min 600 (length xs) \<le> length xs" unfolding be(1) using assms(1,2) by (auto simp: min_def)
  have c: "central xs = take (min 600 (length xs)) (drop b xs)"
    using le by (auto simp: central_def be(1) min_def)
  have l: "length (central xs) = min 600 (length xs)" using le unfolding c by simp
  then have ne: "central xs \<noteq> []" using assms(1) by (metis length_greater_0_conv list.size(3) min_less_iff_conj not_numeral_le_zero zero_less_numeral neq0_conv)
  have "hd (central xs) = xs ! b" using ne le assms(1) unfolding hd_conv_nth [OF ne] by (simp add: c)
  moreover have "last (central xs) = xs ! (e - 1)"
  proof -
    have "min 600 (length xs) - 1 < min 600 (length xs)" using assms(1) by (auto simp: min_def)
    moreover from this have "b + (min 600 (length xs) - 1) = e - 1" unfolding be(2) by simp
    ultimately show ?thesis using le unfolding last_conv_nth [OF ne] l unfolding c by simp
  qed
  ultimately show ?thesis ..
qed

lemma cut_eqs:
  assumes "2 \<le> n" "n \<le> 720" "cut_range n = (b, e)"
  shows "length ts = n \<Longrightarrow> cut_span ts = max 1 (unat (sort ts ! (e - 1)) - unat (sort ts ! b))"
    and "length cds = n \<Longrightarrow> cut_work cds = cds ! (e - 1) - cds ! b"
  using central_ends [of "sort ts" b e] central_ends [of cds b e] assms by (auto simp: cut_span_def cut_work_def)

lemma span_sorted:
  assumes "b < e" "e < length ts"
  shows "unat (if sort ts ! e - sort ts ! b = 0 then 1 else sort ts ! e - sort ts ! b :: u64)
     = max 1 (unat (sort ts ! e) - unat (sort ts ! b))"
proof -
  have le: "sort ts ! b \<le> sort ts ! e" using assms by (intro sorted_nth_mono) auto
  then have u: "unat (sort ts ! e - sort ts ! b) = unat (sort ts ! e) - unat (sort ts ! b)" by (rule unat_sub_le)
  show ?thesis
  proof (cases "sort ts ! e - sort ts ! b = 0")
    case True
    then have "unat (sort ts ! e) - unat (sort ts ! b) = 0" using u by (metis unat_0)
    with True show ?thesis by simp
  next
    case False
    then have "0 < unat (sort ts ! e - sort ts ! b)" by (simp add: unat_gt_0)
    with False u show ?thesis by simp
  qed
qed

lemma ceil_div_256:
  fixes work :: u128 and target span :: u64
  assumes "0 < unat span"
  shows "unat (((ucast work :: u256) * ucast target + ucast span - 1) div ucast span)
     = (unat work * unat target + unat span - 1) div unat span"
proof -
  have b: "unat work < 2 ^ 128" "unat target < 2 ^ 64" "unat span < 2 ^ 64"
    using unsigned_less [of work, where ?'a = nat] unat_u64_less [of target] unat_u64_less [of span] by simp_all
  have p: "unat work * unat target < 2 ^ 128 * 2 ^ 64" using b by (intro mult_strict_mono) simp_all
  have u: "unat (ucast work :: u256) = unat work" "unat (ucast target :: u256) = unat target"
    "unat (ucast span :: u256) = unat span" by (simp_all add: unat_ucast_up)
  have m: "unat ((ucast work :: u256) * ucast target) = unat work * unat target"
    using p by (subst unat_mult_no_wrap) (simp_all add: u)
  have a: "unat ((ucast work :: u256) * ucast target + ucast span) = unat work * unat target + unat span"
    using p b by (subst unat_add_no_wrap) (simp_all add: m u)
  then have "unat ((ucast work :: u256) * ucast target + ucast span - 1) = unat work * unat target + unat span - 1"
    using assms by (subst unat_sub_le) (simp_all add: word_le_nat_alt)
  then show ?thesis by (simp add: unat_div u)
qed

lemma next_difficulty_eq:
  assumes "length ts = length cds" "2 \<le> length ts" "length ts \<le> 720"
  shows "next_difficulty ts cds target =
     (let q = (unat (cut_work cds) * unat target + cut_span ts - 1) div cut_span ts
      in Inr (if q < 2 ^ 128 then of_nat q else 0))"
proof -
  obtain b e where be: "cut_range (length ts) = (b, e)" by (cases "cut_range (length ts)")
  have be2: "cut_range (length cds) = (b, e)" using be assms(1) by simp
  have r: "b < e - 1" "e - 1 < length ts" using cut_range_bounds [of "length ts"] assms be by simp_all
  define span where "span = (if sort ts ! (e - 1) - sort ts ! b = 0 then 1 else sort ts ! (e - 1) - sort ts ! b)"
  have span: "unat span = cut_span ts"
    unfolding span_def span_sorted [OF r] using cut_eqs(1) [OF assms(2,3) be] by simp
  have work: "cut_work cds = cds ! (e - 1) - cds ! b" using cut_eqs(2) [OF assms(2,3) be] assms(1) by simp
  define q where "q = (unat (cut_work cds) * unat target + cut_span ts - 1) div cut_span ts"
  define res :: u256 where "res = (ucast (cut_work cds) * ucast target + ucast span - 1) div ucast span"
  have res: "unat res = q"
    unfolding res_def q_def span [symmetric]
    by (rule ceil_div_256) (simp add: span cut_span_def)
  have "next_difficulty ts cds target = Inr (if res > max128bit then 0 else ucast res)"
    using r assms unfolding next_difficulty_def res_def work span_def Let_def
    by (simp add: be be2 DIFFICULTY_WINDOW_def)
  moreover have "res > max128bit \<longleftrightarrow> \<not> q < 2 ^ 128"
    unfolding word_less_nat_alt unat_max_bits res by auto
  moreover have "(ucast res :: u128) = of_nat q"
    by (simp add: word_unat_eq_iff unsigned_ucast_eq unsigned_of_nat res)
  ultimately show ?thesis by (simp add: Let_def q_def)
qed


text \<open>C17: The difficulty rule of the vendored node, which runs the production chain, for two to 720 blocks. README.md and
  the roadmap call it an LWMA over 720 blocks, but it weights no solve time and keeps at most 600 of them. The
  difficulty is the work across the central 600 blocks (all of them, when no more are left) times the target, divided
  by the time across them and rounded up, or 0 if that exceeds 128 bits. Only the multiset of timestamps matters, so a
  miner cannot move the difficulty by reordering them.\<close>

theorem next_difficulty_spec:
  assumes "length ts = length cds" "2 \<le> length ts" "length ts \<le> 720"
  shows "next_difficulty ts cds target =
       Inr (if (unat (cut_work cds) * unat target + cut_span ts - 1) div cut_span ts < 2 ^ 128
            then of_nat ((unat (cut_work cds) * unat target + cut_span ts - 1) div cut_span ts) else 0)
     \<and> (mset ts' = mset ts \<longrightarrow> next_difficulty ts' cds target = next_difficulty ts cds target)"
proof
  show e: "next_difficulty ts cds target =
       Inr (if (unat (cut_work cds) * unat target + cut_span ts - 1) div cut_span ts < 2 ^ 128
            then of_nat ((unat (cut_work cds) * unat target + cut_span ts - 1) div cut_span ts) else 0)"
    using next_difficulty_eq [OF assms] by (simp only: Let_def)
  show "mset ts' = mset ts \<longrightarrow> next_difficulty ts' cds target = next_difficulty ts cds target"
  proof
    assume m: "mset ts' = mset ts"
    then have "length ts' = length ts" by (rule mset_eq_length)
    moreover from m have "sort ts' = sort ts" by (metis properties_for_sort mset_sort sorted_sort)
    ultimately have "cut_span ts' = cut_span ts" by (simp add: cut_span_def)
    moreover have "next_difficulty ts' cds target =
       Inr (if (unat (cut_work cds) * unat target + cut_span ts' - 1) div cut_span ts' < 2 ^ 128
            then of_nat ((unat (cut_work cds) * unat target + cut_span ts' - 1) div cut_span ts') else 0)"
      using next_difficulty_eq [of ts' cds target] assms \<open>length ts' = length ts\<close> by (simp only: Let_def)
    ultimately show "next_difficulty ts' cds target = next_difficulty ts cds target" using e by simp
  qed
qed

theorem next_difficulty_spec_witness:
  "next_difficulty [300, 0] [5, 9] 150 = next_difficulty [0, 300] [5, 9] 150 \<and> next_difficulty [0, 300] [5, 9] 150 = Inr 2"
proof -
  note p = next_difficulty_spec [of "[0, 300]" "[5, 9]" 150 "[300, 0]"]
  have "cut_span [0, 300] = 300" "cut_work [5, 9] = 4"
    by (simp_all add: cut_span_def cut_work_def central_def)
  with p show ?thesis by (simp add: add_mset_commute)
qed

lemma sort_steady:
  assumes "unat t0 + n * unat T < 2 ^ 64" "ts = map (\<lambda>i. t0 + of_nat i * T :: u64) [0..<n]"
  shows "sort ts = ts \<and> (\<forall>i < n. unat (ts ! i) = unat t0 + i * unat T)"
proof -
  have u: "unat (t0 + of_nat i * T) = unat t0 + i * unat T" if "i < n" for i
  proof (cases "T = 0")
    case False
    then have T: "1 \<le> unat T" by (simp add: Suc_le_eq unat_gt_0)
    have le: "i * unat T \<le> n * unat T" using that by (intro mult_le_mono1) simp
    then have lt: "unat t0 + i * unat T < 2 ^ 64" using assms(1) by linarith
    have "i \<le> i * unat T" using T by simp
    then have "i < 2 ^ 64" using lt by linarith
    then have i: "unat (of_nat i :: u64) = i" by (simp add: unat_of_nat_small)
    have "unat (of_nat i * T) = i * unat T" using lt i by (subst unat_mult_no_wrap) simp_all
    with lt show ?thesis by (subst unat_add_no_wrap) simp_all
  qed simp
  then have "sorted ts"
    unfolding sorted_iff_nth_mono assms(2) by (simp add: word_le_nat_alt)
  then show ?thesis using u assms(2) by (simp add: sort_key_id_if_sorted)
qed

text \<open>A chain on schedule keeps its difficulty: if the blocks in the window arrive exactly the target time
  apart and each carries the same work, the next difficulty is that work, whatever part of the window
  the cuts leave.\<close>

theorem steady_chain_keeps_difficulty:
  assumes "2 \<le> n" "n \<le> 720" "T \<noteq> 0" "unat t0 + n * unat T < 2 ^ 64" "unat d < 2 ^ 118"
  shows "next_difficulty (map (\<lambda>i. t0 + of_nat i * T) [0..<n]) (map (\<lambda>i. c0 + of_nat i * d) [0..<n]) T = Inr d"
proof -
  let ?ts = "map (\<lambda>i. t0 + of_nat i * T) [0..<n]" and ?cds = "map (\<lambda>i. c0 + of_nat i * d) [0..<n]"
  obtain b e where be: "cut_range n = (b, e)" by (cases "cut_range n")
  have r: "b < e - 1" "e - 1 < n" using cut_range_bounds [OF assms(1,2)] be by simp_all
  define m where "m = e - 1 - b"
  have m: "0 < m" "m < 720" "e - 1 = b + m" using r assms(2) by (simp_all add: m_def)
  note s = sort_steady [OF assms(4) refl]
  have T: "0 < unat T" using assms(3) by (simp add: unat_gt_0)
  have "unat (?ts ! (e - 1)) - unat (?ts ! b) = m * unat T"
    using s r m(3) by (simp only: m(3)) (simp add: algebra_simps)
  then have span: "cut_span ?ts = m * unat T"
    using cut_eqs(1) [OF assms(1,2) be, of ?ts] s m T by (simp add: Suc_le_eq max_def)
  have "?cds ! (b + m) - ?cds ! b = of_nat m * d"
    using r unfolding m(3) by (simp add: algebra_simps)
  then have "?cds ! (e - 1) - ?cds ! b = of_nat m * d" unfolding m(3) .
  then have "cut_work ?cds = of_nat m * d" using cut_eqs(2) [OF assms(1,2) be, of ?cds] by simp
  moreover have "m * unat d < 1024 * 2 ^ 118" using m assms(5) by (intro mult_strict_mono) simp_all
  then have "unat (of_nat m * d) = m * unat d"
    using m by (subst unat_mult_no_wrap) (simp_all add: unat_of_nat_small)
  ultimately have work: "unat (cut_work ?cds) = m * unat d" by simp
  have "(m * unat d * unat T + m * unat T - 1) div (m * unat T) = unat d"
  proof -
    have pos: "0 < m * unat T" using m T by simp
    have "m * unat d * unat T + m * unat T - 1 = (m * unat T - 1) + unat d * (m * unat T)"
      using pos by (simp add: algebra_simps)
    also have "\<dots> div (m * unat T) = unat d"
      unfolding div_mult_self1 [OF pos [THEN gr_implies_not0]] using pos by simp
    finally show ?thesis .
  qed
  then have "next_difficulty ?ts ?cds T = Inr (if unat d < 2 ^ 128 then of_nat (unat d) else 0)"
    using next_difficulty_eq [of ?ts ?cds T] assms(1,2) by (simp add: work span)
  then show ?thesis using assms(5) by simp
qed

theorem steady_chain_keeps_difficulty_witness:
  "next_difficulty (map (\<lambda>i. 1788461926 + of_nat i * 150) [0..<720]) (map (\<lambda>i. 1 + of_nat i * 4321) [0..<720]) 150
   = Inr 4321"
  by (rule steady_chain_keeps_difficulty) simp_all

lemma hex_run_snoc:
  "\<forall>c \<in> set xs. hex_val c \<noteq> None \<Longrightarrow> k < 16 \<Longrightarrow> hex_run (xs @ [hex_char k]) acc = 16 * hex_run xs acc + k"
  by (induction xs arbitrary: acc) auto

lemma nibble: "unat ((v :: u128) AND 0xF) = unat v mod 16" "unat (drop_bit 4 v) = unat v div 16"
proof -
  have m: "(0xF :: u128) = mask 4" by (simp add: mask_eq_exp_minus_1)
  have "unat (v AND 0xF) = unat (take_bit 4 v)" unfolding m take_bit_eq_mask ..
  also have "\<dots> = take_bit 4 (unat v)" by (rule unsigned_take_bit_eq)
  finally show "unat (v AND 0xF) = unat v mod 16" by (simp add: take_bit_eq_mod)
  show "unat (drop_bit 4 v) = unat v div 16" by (simp add: drop_bit_eq_div unat_div)
qed

lemma hex_digits_value:
  "(\<forall>c \<in> set (hex_digits v). hex_val c \<noteq> None) \<and> hex_run (rev (hex_digits v)) 0 = unat v"
proof (induction v rule: hex_digits.induct)
  case (1 v)
  show ?case
  proof (cases "v > 0")
    case True
    let ?k = "unat (v AND 0xF)"
    have k: "?k < 16" by (simp add: nibble)
    have d: "hex_digits v = hex_char ?k # hex_digits (drop_bit 4 v)" using True by (subst hex_digits.simps) simp
    note ih = 1 [OF True]
    then have "hex_run (rev (hex_digits (drop_bit 4 v)) @ [hex_char ?k]) 0 = 16 * unat (drop_bit 4 v) + ?k"
      using hex_run_snoc [of "rev (hex_digits (drop_bit 4 v))" ?k 0] k by simp
    also have "\<dots> = unat v" unfolding nibble by simp
    finally show ?thesis using ih k by (simp add: d)
  next
    case False
    then have "v = 0" by (simp add: word_gt_0)
    then show ?thesis by (subst (1 2) hex_digits.simps) simp
  qed
qed

text \<open>Printing a difficulty in hexadecimal loses nothing: reading the digits after the 0x prefix gives the
  difficulty back, so distinct difficulties print differently.\<close>

theorem hex_difficulty_roundtrip:
  "take 2 (hex_of_difficulty v) = ''0x'' \<and> hex_run (drop 2 (hex_of_difficulty v)) 0 = unat v
   \<and> (hex_of_difficulty v = hex_of_difficulty v' \<longleftrightarrow> v = v')"
proof -
  have r: "take 2 (hex_of_difficulty v) = ''0x'' \<and> hex_run (drop 2 (hex_of_difficulty v)) 0 = unat v" for v
  proof (cases "hex_digits v = []")
    case True
    then have "unat v = 0" using hex_digits_value [of v] by simp
    with True show ?thesis by (simp add: hex_of_difficulty_def Let_def hex_val_def)
  next
    case False
    then show ?thesis using hex_digits_value [of v] by (simp add: hex_of_difficulty_def)
  qed
  then have "hex_of_difficulty v = hex_of_difficulty v' \<longleftrightarrow> v = v'" by (metis word_unat_eq_iff)
  with r show ?thesis by blast
qed

section \<open>The 64-bit rule\<close>

text \<open>The quotient rounded up, from a product in two words: the carry test is the overflow test.\<close>

lemma ceil_quotient_64:
  assumes "unat lo + 2 ^ 64 * unat hi = A" "unat span = c" "0 < c"
  shows "(if hi \<noteq> 0 \<or> lo + span - 1 < lo then 0 else (lo + span - 1) div span) =
     (if A + c - 1 < 2 ^ 64 then of_nat ((A + c - 1) div c) else (0 :: u64))"
proof -
  have s1: "unat (span - 1) = c - 1" using assms(2,3) by (subst unat_sub_le) (simp_all add: word_le_nat_alt)
  have e: "lo + span - 1 = lo + (span - 1)" by simp
  show ?thesis
  proof (cases "A + c - 1 < 2 ^ 64")
    case True
    then have "2 ^ 64 * unat hi < 2 ^ 64" using assms(1,3) by linarith
    then have hi: "hi = 0" by (simp add: unat_eq_zero)
    then have sum: "unat (lo + (span - 1)) = A + c - 1"
      using True assms(1,3) by (subst unat_add_no_wrap) (simp_all add: s1)
    moreover have "unat ((lo + (span - 1)) div span) = (A + c - 1) div c" by (simp add: unat_div sum assms(2))
    then have "(lo + (span - 1)) div span = of_nat ((A + c - 1) div c)" by (metis of_nat_unat_word)
    moreover have "\<not> lo + (span - 1) < lo" unfolding word_less_nat_alt sum using assms(1,3) hi by simp
    ultimately show ?thesis using True hi by (simp only: e) simp
  next
    case False
    then have "hi = 0 \<Longrightarrow> 2 ^ 64 \<le> unat lo + unat (span - 1)" using assms(1,3) by (simp add: s1)
    then have "hi \<noteq> 0 \<or> lo + (span - 1) < lo"
      using carry_unat [of lo "span - 1"] unat_u64_less [of "lo + (span - 1)"] by (cases "lo + (span - 1) < lo") auto
    then show ?thesis using False by (simp only: e) simp
  qed
qed

lemma ucast_of_nat_128: "n < 2 ^ 64 \<Longrightarrow> ucast (of_nat n :: u128) = (of_nat n :: u64)"
  by (simp add: word_unat_eq_iff unsigned_ucast_eq unsigned_of_nat take_bit_nat_eq_self)

text \<open>The 64-bit difficulty rule refines the 128-bit one: on difficulties that fit 64 bits it gives the same
  value while the scaled work fits 64 bits, and 0 where it does not.\<close>

theorem next_difficulty_64_agrees:
  assumes "mul = mul128 \<or> mul = mul_portable" "length ts = length cds" "2 \<le> length ts" "length ts \<le> 720" "sorted cds"
  shows "next_difficulty_64 mul ts cds target =
     (if unat (cut_work (map ucast cds)) * unat target + cut_span ts - 1 < 2 ^ 64
      then bindr (next_difficulty ts (map ucast cds) target) (\<lambda>d. Inr (ucast d)) else Inr 0)"
proof -
  obtain b e where be: "cut_range (length ts) = (b, e)" by (cases "cut_range (length ts)")
  have be2: "cut_range (length cds) = (b, e)" using be assms(2) by simp
  have r: "b < e - 1" "e - 1 < length ts" using cut_range_bounds [of "length ts"] assms be by simp_all
  define span where "span = (if sort ts ! (e - 1) - sort ts ! b = 0 then 1 else sort ts ! (e - 1) - sort ts ! b)"
  have span: "unat span = cut_span ts" unfolding span_def span_sorted [OF r] using cut_eqs(1) [OF assms(3,4) be] by simp
  have pos: "0 < cut_span ts" by (simp add: cut_span_def)
  define W where "W = cds ! (e - 1) - cds ! b"
  have "cds ! b \<le> cds ! (e - 1)" using assms(2,5) r by (intro sorted_nth_mono) auto
  then have W: "unat W = unat (cds ! (e - 1)) - unat (cds ! b)" "unat (cds ! b) \<le> unat (cds ! (e - 1))"
    unfolding W_def by (simp_all add: unat_sub_le word_le_nat_alt)
  have "cut_work (map ucast cds) = ucast (cds ! (e - 1)) - ucast (cds ! b)"
    using r assms(2) cut_eqs(2) [OF assms(3,4) be, of "map ucast cds"] by simp
  then have work: "unat (cut_work (map ucast cds)) = unat W"
    using W by (simp add: unat_sub_le word_le_nat_alt unat_ucast_up)
  obtain lo hi where m: "mul W target = (lo, hi)" by (cases "mul W target")
  have "exact_product mul" using assms(1) mul128_exact mul_portable_exact by (auto simp: exact_product_def)
  then have x: "unat lo + 2 ^ 64 * unat hi = unat W * unat target"
    using m unfolding exact_product_def by (metis fst_conv snd_conv)
  define n where "n = unat W * unat target + cut_span ts - 1"
  have "next_difficulty_64 mul ts cds target = Inr (if hi \<noteq> 0 \<or> lo + span - 1 < lo then 0 else (lo + span - 1) div span)"
    using r assms(2-4) m unfolding next_difficulty_64_def W_def span_def Let_def
    by (simp add: be be2 DIFFICULTY_WINDOW_def)
  then have d64: "next_difficulty_64 mul ts cds target = Inr (if n < 2 ^ 64 then of_nat (n div cut_span ts) else 0)"
    unfolding ceil_quotient_64 [OF x span pos] n_def .
  have "next_difficulty ts (map ucast cds) target = Inr (if n div cut_span ts < 2 ^ 128 then of_nat (n div cut_span ts) else 0)"
    using next_difficulty_eq [of ts "map ucast cds" target] assms(2-4) by (simp add: work n_def)
  moreover have "n div cut_span ts < 2 ^ 64" if "n < 2 ^ 64" using that by (rule le_less_trans [OF div_le_dividend])
  ultimately show ?thesis
    unfolding d64 work n_def [symmetric] by (cases "n < 2 ^ 64") (simp_all add: ucast_of_nat_128)
qed

theorem next_difficulty_64_agrees_witness:
  "next_difficulty_64 mul128 [0, 300] [5, 9] 150 = bindr (next_difficulty [0, 300] (map ucast [5, 9 :: u64]) 150) (\<lambda>d. Inr (ucast d))"
proof -
  have "cut_span [0, 300] = 300" "cut_work (map ucast [5, 9 :: u64]) = 4"
    by (simp_all add: cut_span_def cut_work_def central_def)
  then show ?thesis using next_difficulty_64_agrees [of mul128 "[0, 300]" "[5, 9]" 150] by simp
qed

end
