(* ===== verification/CoreReward.thy ===== *)
theory CoreReward
  imports Difficulty
begin

text \<open>
  The block reward of the vendored node: \<open>get_block_reward\<close> of
  vendor/monero/src/cryptonote_basic/cryptonote_basic_impl.cpp with its penalty for heavy blocks, and
  the counter of generated coins that blockchain.cpp keeps for it. Constants whose names the
  prototype's configuration has with other values carry the prefix \<open>CORE\<close>.
\<close>

definition CORE_MONEY_SUPPLY :: u64 where
  "CORE_MONEY_SUPPLY = 18400000 * 1000000000000"

definition CORE_EMISSION_SPEED_FACTOR :: nat where
  "CORE_EMISSION_SPEED_FACTOR = 20"

definition CORE_FINAL_SUBSIDY :: u64 where
  "CORE_FINAL_SUBSIDY = 300000000000"

definition CORE_TARGET :: "u8 \<Rightarrow> nat" where
  "CORE_TARGET version = (if version < 2 then 60 else 150)"

definition get_min_block_weight :: "u8 \<Rightarrow> u64" where
  "get_min_block_weight version = (if version < 2 then 20000 else if version < 5 then 300000 else 300000)"

text \<open>epee's int-util.cpp, on boost's 128-bit integers: the two halves of the quotient. Division by zero throws.\<close>

definition div128_64 :: "u64 \<Rightarrow> u64 \<Rightarrow> u64 \<Rightarrow> (u64 \<times> u64) result" where
  "div128_64 dividend_hi dividend_lo divisor =
     (let dividend = push_bit 64 (ucast dividend_hi :: u128) OR ucast dividend_lo in
      if divisor = 0 then Inl Thrown
      else let q = dividend div ucast divisor in Inr (ucast (drop_bit 64 q), ucast q))"

text \<open>None where the function returns false: the block is too heavy.\<close>

definition core_block_reward :: "u64 \<Rightarrow> u64 \<Rightarrow> u64 \<Rightarrow> u8 \<Rightarrow> u64 option result" where
  "core_block_reward median_weight current_block_weight already_generated_coins version =
     (let target_minutes = CORE_TARGET version div 60;
          emission_speed_factor = CORE_EMISSION_SPEED_FACTOR - (target_minutes - 1);
          base_reward = drop_bit emission_speed_factor (CORE_MONEY_SUPPLY - already_generated_coins);
          base_reward = (if base_reward < CORE_FINAL_SUBSIDY * of_nat target_minutes
                         then CORE_FINAL_SUBSIDY * of_nat target_minutes else base_reward);
          full_reward_zone = get_min_block_weight version;
          median_weight = (if median_weight < full_reward_zone then full_reward_zone else median_weight)
      in if current_block_weight \<le> median_weight then Inr (Some base_reward)
         else if current_block_weight > 2 * median_weight then Inr None
         else let multiplicand = (2 * median_weight - current_block_weight) * current_block_weight;
                  (product_lo, product_hi) = mul128 base_reward multiplicand
              in bindr (div128_64 product_hi product_lo median_weight) (\<lambda>(reward_hi, reward_lo).
                 bindr (div128_64 reward_hi reward_lo median_weight) (\<lambda>(reward_hi, reward_lo).
                 if reward_hi \<noteq> 0 \<or> \<not> reward_lo < base_reward then Inl Aborted
                 else Inr (Some reward_lo))))"

text \<open>handle_block_to_main_chain: the counter after a block that was paid \<open>reward\<close>.\<close>

definition core_generated :: "u64 \<Rightarrow> u64 \<Rightarrow> u64" where
  "core_generated already_generated_coins reward =
     (if reward < CORE_MONEY_SUPPLY - already_generated_coins then already_generated_coins + reward else CORE_MONEY_SUPPLY)"

section \<open>The penalty\<close>

text \<open>The base reward as a natural number: the shifted remainder of the supply, at least the final subsidy.\<close>

definition base_nat :: "u8 \<Rightarrow> nat \<Rightarrow> nat" where
  "base_nat version g = (if version < 2 then max ((18400000000000000000 - g) div 2 ^ 20) 300000000000
     else max ((18400000000000000000 - g) div 2 ^ 19) 600000000000)"

definition zone_nat :: "u8 \<Rightarrow> nat" where
  "zone_nat version = (if version < 2 then 20000 else 300000)"

lemma unat_supply: "unat CORE_MONEY_SUPPLY = 18400000000000000000"
  by (simp add: CORE_MONEY_SUPPLY_def)

lemma div128_64_exact:
  assumes "d \<noteq> 0"
  shows "\<exists>qh ql. div128_64 h l d = Inr (qh, ql) \<and> unat ql + 2 ^ 64 * unat qh = (unat l + 2 ^ 64 * unat h) div unat d"
proof -
  let ?H = "ucast h :: u128" and ?L = "ucast l :: u128"
  have u: "unat ?H = unat h" "unat ?L = unat l" "unat (ucast d :: u128) = unat d" by (simp_all add: unat_ucast_up)
  have "push_bit 64 ?H OR ?L = push_bit 64 ?H + ?L"
    by (rule disjunctive_add [symmetric]) (auto simp: bit_simps dest: bit_imp_le_length)
  moreover have "unat (push_bit 64 ?H) = 2 ^ 64 * unat h"
    using unat_u64_less [of h] by (simp add: push_bit_eq_mult unat_word_ariths u mult.commute)
  ultimately have v: "unat (push_bit 64 ?H OR ?L) = unat l + 2 ^ 64 * unat h"
    using unat_u64_less [of h] unat_u64_less [of l] by (simp add: unat_add_no_wrap u)
  define q where "q = (push_bit 64 ?H OR ?L) div ucast d"
  have q: "unat q = (unat l + 2 ^ 64 * unat h) div unat d" by (simp add: q_def unat_div v u)
  have "unat (ucast (drop_bit 64 q) :: u64) = unat q div 2 ^ 64"
  proof -
    have "unat q < 2 ^ 128" using unsigned_less [of q, where ?'a = nat] by simp
    then have "unat q div 2 ^ 64 < 2 ^ 64" by (simp add: less_mult_imp_div_less)
    then show ?thesis by (simp add: unsigned_ucast_eq unat_drop_bit_eq drop_bit_eq_div take_bit_eq_mod unat_div)
  qed
  moreover have "unat (ucast q :: u64) = unat q mod 2 ^ 64" by (simp add: unsigned_ucast_eq take_bit_eq_mod)
  ultimately have "unat (ucast q :: u64) + 2 ^ 64 * unat (ucast (drop_bit 64 q) :: u64) = unat q" by simp
  then show ?thesis using assms q by (auto simp: div128_64_def Let_def q_def [symmetric])
qed

lemma base_nat_bounds: "0 < base_nat version g" "base_nat version g < 2 ^ 64"
proof -
  have "(18400000000000000000 - g) div 2 ^ 20 \<le> 18400000000000000000 div 2 ^ 20"
    "(18400000000000000000 - g) div 2 ^ 19 \<le> 18400000000000000000 div 2 ^ 19" by (simp_all add: div_le_mono)
  then show "base_nat version g < 2 ^ 64" by (simp add: base_nat_def)
qed (simp add: base_nat_def less_max_iff_disj)

lemma base_reward_nat:
  fixes version :: u8 and g :: u64
  assumes "unat g \<le> 18400000000000000000"
  defines "minutes \<equiv> CORE_TARGET version div 60"
  defines "b \<equiv> drop_bit (CORE_EMISSION_SPEED_FACTOR - (minutes - 1)) (CORE_MONEY_SUPPLY - g)"
  shows "(if b < CORE_FINAL_SUBSIDY * of_nat minutes then CORE_FINAL_SUBSIDY * of_nat minutes else b) = of_nat (base_nat version (unat g))"
proof -
  have s: "unat (CORE_MONEY_SUPPLY - g) = 18400000000000000000 - unat g"
    using assms(1) by (subst unat_sub_le) (simp_all add: word_le_nat_alt unat_supply)
  show ?thesis
  proof (cases "version < 2")
    case True
    then have "unat b = (18400000000000000000 - unat g) div 2 ^ 20" "minutes = 1"
      by (simp_all add: b_def minutes_def CORE_TARGET_def CORE_EMISSION_SPEED_FACTOR_def unat_drop_bit_eq drop_bit_eq_div unat_div s)
    then show ?thesis
      using True by (auto simp: word_unat_eq_iff word_less_nat_alt base_nat_def CORE_FINAL_SUBSIDY_def max_def unat_of_nat_small)
  next
    case False
    then have "unat b = (18400000000000000000 - unat g) div 2 ^ 19" "minutes = 2"
      by (simp_all add: b_def minutes_def CORE_TARGET_def CORE_EMISSION_SPEED_FACTOR_def unat_drop_bit_eq drop_bit_eq_div unat_div s)
    then show ?thesis
      using False by (auto simp: word_unat_eq_iff word_less_nat_alt base_nat_def CORE_FINAL_SUBSIDY_def max_def unat_of_nat_small)
  qed
qed

lemma penalty_less: "m < w \<Longrightarrow> w \<le> 2 * m \<Longrightarrow> (2 * m - w) * w < m * (m :: nat)"
proof -
  assume "m < w" "w \<le> 2 * m"
  then obtain d where d: "w = m + d" "0 < d" "d \<le> m" using less_imp_add_positive [of m w] by auto
  then obtain e where e: "m = d + e" using le_Suc_ex by blast
  have "(2 * m - w) * w = (m - d) * (m + d)" by (simp add: d)
  also have "\<dots> < m * m" using d(2) by (simp add: e algebra_simps)
  finally show ?thesis .
qed

lemma halves_of_small: "unat ql + 2 ^ 64 * unat qh = n \<Longrightarrow> n < 2 ^ 64 \<Longrightarrow> qh = (0 :: u64) \<and> unat (ql :: u64) = n"
proof -
  assume a: "unat ql + 2 ^ 64 * unat qh = n" "n < 2 ^ 64"
  have "unat qh = 0"
  proof (rule ccontr)
    assume "unat qh \<noteq> 0"
    then have "2 ^ 64 * 1 \<le> 2 ^ 64 * unat qh" by (intro mult_le_mono2) simp
    with a show False by linarith
  qed
  with a show ?thesis by (simp add: unat_eq_zero)
qed

text \<open>The two divisions by the median are one by its square.\<close>

lemma penalised:
  assumes "m < w" "w \<le> 2 * m" "m < 2 ^ 32" "0 < b" "b < 2 ^ 64"
    and mul: "mul128 (of_nat b) (of_nat ((2 * m - w) * w)) = (lo, hi)"
  shows "bindr (div128_64 hi lo (of_nat m)) (\<lambda>(qh, ql). bindr (div128_64 qh ql (of_nat m)) (\<lambda>(rh, rl).
      if rh \<noteq> 0 \<or> \<not> rl < of_nat b then Inl Aborted else Inr (Some rl))) = Inr (Some (of_nat (b * ((2 * m - w) * w) div m\<^sup>2)))"
proof -
  let ?x = "(2 * m - w) * w"
  have x: "?x < m * m" by (rule penalty_less [OF assms(1,2)])
  have "m * m < 2 ^ 32 * 2 ^ 32" using assms(3) by (intro mult_strict_mono) simp_all
  then have x64: "?x < 2 ^ 64" using x by simp
  have m: "(of_nat m :: u64) \<noteq> 0" "unat (of_nat m :: u64) = m"
  proof -
    show u: "unat (of_nat m :: u64) = m" using assms(3) by (intro unat_of_nat_small) simp
    have "0 < m" using assms(1,2) by simp
    with u show "(of_nat m :: u64) \<noteq> 0" by (metis unat_0 less_numeral_extra(3))
  qed
  have p: "unat lo + 2 ^ 64 * unat hi = b * ?x"
  proof -
    have "unat (of_nat b :: u64) = b" "unat (of_nat ?x :: u64) = ?x" using x64 assms(5) by (intro unat_of_nat_small; simp)+
    then show ?thesis using mul128_exact [of "of_nat b" "of_nat ?x"] unfolding mul by (simp only: fst_conv snd_conv)
  qed
  obtain qh ql where q: "div128_64 hi lo (of_nat m) = Inr (qh, ql)" "unat ql + 2 ^ 64 * unat qh = b * ?x div m"
    using div128_64_exact [OF m(1), of hi lo] p m(2) by auto
  obtain rh rl where r: "div128_64 qh ql (of_nat m) = Inr (rh, rl)" "unat rl + 2 ^ 64 * unat rh = b * ?x div m div m"
    using div128_64_exact [OF m(1), of qh ql] q(2) m(2) by auto
  have sq: "b * ?x div m div m = b * ?x div m\<^sup>2" by (simp add: div_mult2_eq power2_eq_square)
  have "b * ?x < b * (m * m)" using x assms(4) by simp
  then have less: "b * ?x div m\<^sup>2 < b" by (simp add: less_mult_imp_div_less power2_eq_square)
  then have "rh = 0" "unat rl = b * ?x div m\<^sup>2" using halves_of_small [OF r(2)] assms(5) sq by simp_all
  moreover have "rl < of_nat b" using less calculation assms(5) by (simp add: word_less_nat_alt unat_of_nat_small)
  moreover have "rl = of_nat (b * ?x div m\<^sup>2)" using calculation by (metis of_nat_unat_word)
  ultimately show ?thesis by (simp add: q(1) r(1))
qed

section \<open>Properties\<close>

text \<open>C19: The vendored node's block reward, exactly: while the coins generated are at most the supply and the
  median weight is below 2^32, a block of at most the median (or the free zone, if that is larger)
  earns the base reward, one of more than twice as much is refused, and one between earns the base
  times (2m - w) w / m^2, rounded down once although the code divides twice; no assertion fails, the
  128-bit arithmetic never overflows, and the penalised reward is below the base.\<close>

theorem core_reward_exact:
  fixes median weight g :: u64 and version :: u8
  defines "m \<equiv> max (unat median) (zone_nat version)" and "w \<equiv> unat weight" and "b \<equiv> base_nat version (unat g)"
  assumes "unat g \<le> 18400000000000000000" "unat median < 2 ^ 32"
  shows "core_block_reward median weight g version =
      (if w \<le> m then Inr (Some (of_nat b)) else if 2 * m < w then Inr None
       else Inr (Some (of_nat (b * ((2 * m - w) * w) div m\<^sup>2))))
     \<and> (m < w \<and> w \<le> 2 * m \<longrightarrow> b * ((2 * m - w) * w) div m\<^sup>2 < b)"
proof -
  have z: "unat (get_min_block_weight version) = zone_nat version" by (simp add: get_min_block_weight_def zone_nat_def)
  define M where "M = (if median < get_min_block_weight version then get_min_block_weight version else median)"
  have M: "unat M = m" using z by (auto simp: M_def m_def word_less_nat_alt max_def)
  have m32: "m < 2 ^ 32" using assms(5) by (simp add: m_def zone_nat_def)
  then have two: "unat (2 * M) = 2 * m" by (subst unat_mult_no_wrap) (simp_all add: M)
  note b = base_nat_bounds [of version "unat g", folded b_def]
  have less: "b * ((2 * m - w) * w) div m\<^sup>2 < b" if "m < w" "w \<le> 2 * m"
    using penalty_less [OF that] b(1) by (simp add: less_mult_imp_div_less power2_eq_square)
  have split: "core_block_reward median weight g version =
      (if weight \<le> M then Inr (Some (of_nat b)) else if weight > 2 * M then Inr None
       else let (lo, hi) = mul128 (of_nat b) ((2 * M - weight) * weight) in
         bindr (div128_64 hi lo M) (\<lambda>(qh, ql). bindr (div128_64 qh ql M) (\<lambda>(rh, rl).
         if rh \<noteq> 0 \<or> \<not> rl < of_nat b then Inl Aborted else Inr (Some rl))))"
    unfolding core_block_reward_def Let_def base_reward_nat [OF assms(4)] M_def b_def ..
  have "core_block_reward median weight g version = Inr (Some (of_nat (b * ((2 * m - w) * w) div m\<^sup>2)))" if "m < w" "w \<le> 2 * m"
  proof -
    have c: "\<not> weight \<le> M" "\<not> 2 * M < weight" using that M two by (simp_all add: word_le_nat_alt word_less_nat_alt w_def)
    have "unat (2 * M - weight) = 2 * m - w" using c(2) two by (subst unat_sub_le) (simp_all add: w_def not_less)
    then have "(2 * M - weight) * weight = of_nat ((2 * m - w) * w)"
      by (metis of_nat_mult of_nat_unat_word w_def)
    moreover have "M = of_nat m" using M by (metis of_nat_unat_word)
    ultimately show ?thesis
      using c penalised [OF that m32 b] unfolding split by (auto simp: Let_def split: prod.split)
  qed
  moreover have "weight \<le> M \<longleftrightarrow> w \<le> m" "2 * M < weight \<longleftrightarrow> 2 * m < w"
    using M two by (simp_all add: word_le_nat_alt word_less_nat_alt w_def)
  ultimately show ?thesis using less split by auto
qed

theorem core_reward_exact_witness:
  "core_block_reward 300000 450000 0 16 = Inr (Some 26321411132812)"
proof -
  have "core_block_reward 300000 450000 0 16 =
      Inr (Some (of_nat (base_nat 16 0 * ((2 * 300000 - 450000) * 450000) div 300000\<^sup>2)))"
    using core_reward_exact [of 0 300000 450000 16] by (simp add: zone_nat_def)
  also have "base_nat 16 0 * ((2 * 300000 - 450000) * 450000) div 300000\<^sup>2 = 26321411132812"
    by (simp add: base_nat_def)
  finally show ?thesis by simp
qed

lemma unat_core_generated:
  assumes "unat g \<le> 18400000000000000000"
  shows "unat (core_generated g r) = min (unat g + unat r) 18400000000000000000"
proof -
  have s: "unat (CORE_MONEY_SUPPLY - g) = 18400000000000000000 - unat g"
    using assms by (subst unat_sub_le) (simp_all add: word_le_nat_alt unat_supply)
  show ?thesis
  proof (cases "r < CORE_MONEY_SUPPLY - g")
    case True
    then have "unat g + unat r < 18400000000000000000" by (simp add: word_less_nat_alt s)
    then show ?thesis using True by (simp add: core_generated_def unat_add_no_wrap)
  next
    case False
    then show ?thesis using assms by (simp add: core_generated_def word_less_nat_alt s unat_supply)
  qed
qed

text \<open>The vendored emission never wraps: the counter of generated coins, over any sequence of rewards, is
  their sum cut off at the supply, so the remainder that the base reward is shifted from never
  becomes negative, and a light block always earns at least the final subsidy of 0.6 XRL.\<close>

theorem core_emission_saturates:
  "unat (foldl core_generated 0 rewards) = min (sum_list (map unat rewards)) 18400000000000000000
   \<and> (\<exists>r. core_block_reward 300000 300000 (foldl core_generated 0 rewards) 16 = Inr (Some r) \<and> 600000000000 \<le> unat r)"
proof -
  have "unat g \<le> 18400000000000000000 \<Longrightarrow>
      unat (foldl core_generated g rewards) = min (unat g + sum_list (map unat rewards)) 18400000000000000000" for g
  proof (induction rewards arbitrary: g)
    case (Cons r rs)
    then show ?case using Cons.IH [of "core_generated g r"] by (simp add: unat_core_generated)
  qed simp
  from this [of 0] have s: "unat (foldl core_generated 0 rewards) = min (sum_list (map unat rewards)) 18400000000000000000" by simp
  define g where "g = foldl core_generated 0 rewards"
  have "unat g \<le> 18400000000000000000" using s by (simp add: g_def)
  then have "core_block_reward 300000 300000 g 16 = Inr (Some (of_nat (base_nat 16 (unat g))))"
    unfolding core_block_reward_def Let_def base_reward_nat [OF \<open>unat g \<le> _\<close>] by (simp add: get_min_block_weight_def)
  moreover have "600000000000 \<le> unat (of_nat (base_nat 16 (unat g)) :: u64)"
    using base_nat_bounds(2) [of 16 "unat g"] by (simp add: unat_of_nat_small base_nat_def)
  ultimately show ?thesis using s by (auto simp: g_def)
qed

end
