(* ===== verification/BlockWeight.thy ===== *)
theory BlockWeight
  imports MedianWindow CoreReward
begin

text \<open>
  The block weight limits of the vendored node, cryptonote_core/blockchain.cpp: the median of the long-term
  weights of the last 100000 blocks with its cache, the long-term weight of the next block, and the limit on
  its weight. The database is the list of its blocks, of which only the id and the two weights are read.
\<close>

definition LONG_TERM_BLOCK_WEIGHT_WINDOW_SIZE :: u64 where
  "LONG_TERM_BLOCK_WEIGHT_WINDOW_SIZE = 100000"

definition FULL_REWARD_ZONE_V5 :: u64 where
  "FULL_REWARD_ZONE_V5 = 300000"

definition SURGE_FACTOR :: u64 where
  "SURGE_FACTOR = 50"

definition REWARD_BLOCKS_WINDOW :: u64 where
  "REWARD_BLOCKS_WINDOW = 100"

record mdb_block_info =
  bi_hash :: bytes
  bi_weight :: u64
  bi_long_term_block_weight :: u64

type_synonym block_db = "mdb_block_info list"

definition block_db_height :: "block_db \<Rightarrow> u64" where
  "block_db_height db = of_nat (length db)"

text \<open>\<open>get_block_hash_from_height\<close> and \<open>get_block_long_term_weight\<close>, and the reads of a range.\<close>

definition block_info_at :: "(mdb_block_info \<Rightarrow> 'a) \<Rightarrow> block_db \<Rightarrow> u64 \<Rightarrow> 'a result" where
  "block_info_at field db height = (if unat height < length db then Inr (field (db ! unat height)) else Inl Thrown)"

definition get_block_info_64bit_fields :: "(mdb_block_info \<Rightarrow> u64) \<Rightarrow> block_db \<Rightarrow> u64 \<Rightarrow> u64 \<Rightarrow> u64 list result" where
  "get_block_info_64bit_fields field db start_height cnt =
     (if block_db_height db \<le> start_height then Inl Thrown
      else Inr (take (unat cnt) (drop (unat start_height) (map field db))))"

record weight_state =
  weights_window :: u64
  long_term_effective_median :: u64
  cache_tip_hash :: bytes
  cache_rolling_median :: rolling_median
  cumul_weight_limit :: u64
  cumul_weight_median :: u64

definition rebuild_median :: "block_db \<Rightarrow> u64 \<Rightarrow> u64 \<Rightarrow> bytes \<Rightarrow> weight_state \<Rightarrow> (u64 \<times> weight_state) result" where
  "rebuild_median db start_height cnt tip_hash s =
     bindr (get_block_info_64bit_fields bi_long_term_block_weight db start_height cnt) (\<lambda>weights.
     bindr (rm_clear (cache_rolling_median s)) (\<lambda>m. bindr (rm_insert_all weights m) (\<lambda>m. bindr (rm_median m) (\<lambda>v.
       Inr (v, s\<lparr>cache_tip_hash := tip_hash, cache_rolling_median := m\<rparr>)))))"

definition get_long_term_block_weight_median :: "block_db \<Rightarrow> u64 \<Rightarrow> u64 \<Rightarrow> weight_state \<Rightarrow> (u64 \<times> weight_state) result" where
  "get_long_term_block_weight_median db start_height cnt s =
     (if cnt = 0 then Inl Thrown
      else
        let blockchain_height = block_db_height db; tip_height = start_height + cnt - 1;
            rmsize = of_nat (rm_size (cache_rolling_median s)) in
        bindr (if tip_height < blockchain_height then block_info_at bi_hash db tip_height else Inr zeros32) (\<lambda>tip_hash.
        if tip_height < blockchain_height \<and> cnt = rmsize \<and> tip_hash = cache_tip_hash s
        then bindr (rm_median (cache_rolling_median s)) (\<lambda>v. Inr (v, s))
        else if tip_height > 0 \<and> tip_height < blockchain_height
              \<and> (cnt = rmsize \<or> cnt = rmsize + 1 \<and> rmsize < LONG_TERM_BLOCK_WEIGHT_WINDOW_SIZE)
        then bindr (block_info_at bi_hash db (tip_height - 1)) (\<lambda>old_tip_hash.
             if old_tip_hash = cache_tip_hash s
             then bindr (block_info_at bi_long_term_block_weight db tip_height) (\<lambda>w.
                  bindr (rm_insert w (cache_rolling_median s)) (\<lambda>m. bindr (rm_median m) (\<lambda>v.
                    Inr (v, s\<lparr>cache_tip_hash := tip_hash, cache_rolling_median := m\<rparr>))))
             else rebuild_median db start_height cnt tip_hash s)
        else rebuild_median db start_height cnt tip_hash s))"

definition get_last_n_blocks_weights :: "block_db \<Rightarrow> u64 \<Rightarrow> u64 list result" where
  "get_last_n_blocks_weights db cnt =
     (let h = block_db_height db in
      if h = 0 then Inr [] else get_block_info_64bit_fields bi_weight db (h - min h cnt) cnt)"

definition get_next_long_term_block_weight :: "block_db \<Rightarrow> u8 \<Rightarrow> u64 \<Rightarrow> weight_state \<Rightarrow> (u64 \<times> weight_state) result" where
  "get_next_long_term_block_weight db hf_version block_weight s =
     (let height = block_db_height db; nblocks = min (weights_window s) height in
      if hf_version < 10 then Inr (block_weight, s)
      else bindr (get_long_term_block_weight_median db (height - nblocks) nblocks s) (\<lambda>(long_term_median, s).
        let effective = max FULL_REWARD_ZONE_V5 long_term_median;
            (block_weight, short_term_constraint) =
              (if hf_version \<ge> 15 then (max block_weight (effective * 10 div 17), effective + effective * 7 div 10)
               else (block_weight, effective + effective * 2 div 5))
        in Inr (min block_weight short_term_constraint, s)))"

text \<open>The end of \<open>update_next_cumulative_weight_limit\<close>, for both branches.\<close>

definition set_weight_limit :: "u64 \<Rightarrow> weight_state \<Rightarrow> weight_state" where
  "set_weight_limit full_reward_zone s =
     (let s = (if cumul_weight_median s \<le> full_reward_zone then s\<lparr>cumul_weight_median := full_reward_zone\<rparr> else s)
      in s\<lparr>cumul_weight_limit := cumul_weight_median s * 2\<rparr>)"

definition update_next_cumulative_weight_limit :: "block_db \<Rightarrow> u8 \<Rightarrow> weight_state \<Rightarrow> weight_state result" where
  "update_next_cumulative_weight_limit db hf_version s =
     (let height = block_db_height db; full_reward_zone = get_min_block_weight hf_version in
      bindr
        (if hf_version < 10
         then bindr (get_last_n_blocks_weights db REWARD_BLOCKS_WINDOW) (\<lambda>weights.
              Inr (s\<lparr>cumul_weight_median := vector_median weights\<rparr>))
         else let nblocks = min (weights_window s) height in
              bindr (get_long_term_block_weight_median db (height - nblocks) nblocks s) (\<lambda>(long_term_median, s).
              let effective = max FULL_REWARD_ZONE_V5 long_term_median; s = s\<lparr>long_term_effective_median := effective\<rparr> in
              bindr (get_last_n_blocks_weights db REWARD_BLOCKS_WINDOW) (\<lambda>weights.
              let short_term_median = vector_median weights in
              Inr (s\<lparr>cumul_weight_median :=
                (if hf_version \<ge> 15 then min (max effective short_term_median) (SURGE_FACTOR * effective)
                 else min (max FULL_REWARD_ZONE_V5 short_term_median) (SURGE_FACTOR * effective))\<rparr>))))
        (\<lambda>s. Inr (set_weight_limit full_reward_zone s)))"

section \<open>The cache\<close>

text \<open>Block ids: a set of chains with their prefixes, in which the id of the last block determines the chain and no
  block has the null id.\<close>

definition block_ids :: "block_db set \<Rightarrow> bool" where
  "block_ids C \<longleftrightarrow> (\<forall>c\<in>C. length c < 2 ^ 64 \<and> (\<forall>b\<in>set c. bi_hash b \<noteq> zeros32) \<and> (\<forall>n. take n c \<in> C))
     \<and> (\<forall>c\<in>C. \<forall>d\<in>C. c \<noteq> [] \<and> d \<noteq> [] \<and> bi_hash (last c) = bi_hash (last d) \<longrightarrow> c = d)"

definition long_term_weights :: "block_db \<Rightarrow> u64 list" where
  "long_term_weights db = map bi_long_term_block_weight db"

text \<open>The cache names the chain whose window it holds, if any.\<close>

definition names_window :: "nat \<Rightarrow> block_db set \<Rightarrow> bytes \<Rightarrow> u64 list \<Rightarrow> bool" where
  "names_window N C tip hist \<longleftrightarrow> (if hist = [] then tip = zeros32
     else \<exists>c\<in>C. c \<noteq> [] \<and> bi_hash (last c) = tip \<and> last_n N hist = last_n N (long_term_weights c))"

definition cache_good :: "nat \<Rightarrow> block_db set \<Rightarrow> weight_state \<Rightarrow> bool" where
  "cache_good N C s \<longleftrightarrow> weights_window s = of_nat N \<and> (\<exists>hist. rolling N hist (cache_rolling_median s) \<and> names_window N C (cache_tip_hash s) hist)"

lemma names_window_chain:
  assumes "names_window N C tip hist" "block_ids C" "c \<in> C" "c \<noteq> []" "bi_hash (last c) = tip"
  shows "hist \<noteq> []" "last_n N hist = last_n N (long_term_weights c)"
proof -
  have "last c \<in> set c" using assms(4) by simp
  then have "tip \<noteq> zeros32" using assms(2-5) unfolding block_ids_def by metis
  then obtain d where d: "hist \<noteq> []" "d \<in> C" "d \<noteq> []" "bi_hash (last d) = tip" "last_n N hist = last_n N (long_term_weights d)"
    using assms(1) by (auto simp: names_window_def split: if_splits)
  then have "d = c" using assms unfolding block_ids_def by metis
  then show "hist \<noteq> []" "last_n N hist = last_n N (long_term_weights c)" using d by simp_all
qed

lemma names_window_intro:
  "hist \<noteq> [] \<Longrightarrow> c \<in> C \<Longrightarrow> c \<noteq> [] \<Longrightarrow> last_n N hist = last_n N (long_term_weights c) \<Longrightarrow> names_window N C (bi_hash (last c)) hist"
  by (auto simp: names_window_def)

lemma length_last_n: "length (last_n n xs) = min (length xs) n"
  by (simp add: last_n_def)

lemma rolling_size: "rolling N hist m \<Longrightarrow> rm_size m = min (length hist) N"
  by (simp add: rolling_def books_def)

lemma window_nonempty: "0 < N \<Longrightarrow> db \<noteq> [] \<Longrightarrow> last_n N (long_term_weights db) \<noteq> []"
  using length_last_n [of N "long_term_weights db"] by (cases db) (auto simp: long_term_weights_def min_def split: if_splits)

lemma rebuild_good:
  assumes r: "rolling N hist (cache_rolling_median s)" and w: "weights_window s = of_nat N"
    and db: "db \<in> C" "db \<noteq> []" "tip_hash = bi_hash (last db)"
    and weights: "get_block_info_64bit_fields bi_long_term_block_weight db start_height cnt = Inr (last_n N (long_term_weights db))"
  shows "\<exists>s'. rebuild_median db start_height cnt tip_hash s = Inr (vector_median (last_n N (long_term_weights db)), s') \<and> cache_good N C s'"
proof -
  have b: "books N hist (cache_rolling_median s)" using r by (simp add: rolling_def)
  note sh = books_shape [OF b] shape_occ(5-7) [OF books_shape(1) [OF b]]
  obtain m0 where m0: "rm_clear (cache_rolling_median s) = Inr m0" "rolling N [] m0"
    using rm_clear_rolling [of "cache_rolling_median s"] sh by auto
  obtain m where m: "rm_insert_all (last_n N (long_term_weights db)) m0 = Inr m" "rolling N ([] @ last_n N (long_term_weights db)) m"
    by (rule rm_insert_all_rolling [OF m0(2)])
  have n: "last_n N (long_term_weights db) \<noteq> []" using window_nonempty [OF sh(2) db(2)] .
  have l: "last_n N (last_n N (long_term_weights db)) = last_n N (long_term_weights db)" by (simp add: last_n_last_n)
  have "rm_median m = Inr (vector_median (last_n N (long_term_weights db)))"
    using rm_median_rolling [OF m(2)] n l by simp
  moreover have "cache_good N C (s\<lparr>cache_tip_hash := tip_hash, cache_rolling_median := m\<rparr>)"
    using m(2) w names_window_intro [OF n db(1,2) l] db(3) by (auto simp: cache_good_def)
  ultimately show ?thesis by (simp add: rebuild_median_def weights m0(1) m(1))
qed

text \<open>The incremental step: the cached window ends one block below the tip.\<close>

lemma next_window:
  assumes "0 < N" "last_n N hist = last_n N (long_term_weights (butlast db))" "db \<noteq> []"
  shows "last_n N (hist @ [bi_long_term_block_weight (last db)]) = last_n N (long_term_weights db)"
proof -
  have d: "last_n (N - 1) hist = last_n (N - 1) (long_term_weights (butlast db))"
    using arg_cong [OF assms(2), of "last_n (N - 1)"] by (simp add: last_n_last_n)
  have "long_term_weights db = long_term_weights (butlast db) @ [bi_long_term_block_weight (last db)]"
    using append_butlast_last_id [OF assms(3)] unfolding long_term_weights_def by (metis list.simps(8,9) map_append)
  then show ?thesis by (simp only: last_n_snoc [OF assms(1)] d)
qed

lemma window_request:
  fixes db :: block_db
  assumes "length db < 2 ^ 64" "db \<noteq> []" "0 < N" "N < 2 ^ 64"
  defines "nblocks \<equiv> min (of_nat N) (block_db_height db)"
  shows "unat (block_db_height db) = length db" "nblocks \<noteq> 0" "block_db_height db - nblocks + nblocks - 1 = block_db_height db - 1"
    "block_db_height db - 1 < block_db_height db" "unat (block_db_height db - 1) = length db - 1"
    "get_block_info_64bit_fields bi_long_term_block_weight db (block_db_height db - nblocks) nblocks = Inr (last_n N (long_term_weights db))"
proof -
  show h: "unat (block_db_height db) = length db" using assms(1) unfolding block_db_height_def by (intro unat_of_nat_small) simp
  have n: "unat (of_nat N :: u64) = N" using assms(4) by (intro unat_of_nat_small) simp
  have c: "unat nblocks = min N (length db)"
    unfolding nblocks_def using h n by (simp add: min_def word_le_nat_alt)
  then show "nblocks \<noteq> 0" using assms(2,3) by (auto simp: min_def split: if_splits)
  show "block_db_height db - nblocks + nblocks - 1 = block_db_height db - 1" by simp
  have one: "1 \<le> block_db_height db" using h assms(2) by (simp add: word_le_nat_alt Suc_le_eq)
  then show p: "unat (block_db_height db - 1) = length db - 1" using h by (simp add: unat_sub_le)
  then show "block_db_height db - 1 < block_db_height db" using h assms(2) by (simp add: word_less_nat_alt)
  have "nblocks \<le> block_db_height db" by (simp add: nblocks_def)
  then have s: "unat (block_db_height db - nblocks) = length db - min N (length db)" using h c by (simp add: unat_sub_le)
  have "\<not> block_db_height db \<le> block_db_height db - nblocks" using s h assms(2,3) by (cases db) (simp_all add: word_le_nat_alt)
  then show "get_block_info_64bit_fields bi_long_term_block_weight db (block_db_height db - nblocks) nblocks = Inr (last_n N (long_term_weights db))"
    using s c by (auto simp: get_block_info_64bit_fields_def last_n_def long_term_weights_def min_def)
qed

text \<open>A request for the window up to the tip: a hit, one more block, or a rebuild.\<close>

lemma request_cases:
  fixes db :: block_db
  assumes w: "nblocks \<noteq> 0" "block_db_height db - nblocks + nblocks - 1 = block_db_height db - 1" "block_db_height db - 1 < block_db_height db"
    and at_tip: "block_info_at bi_hash db (block_db_height db - 1) = Inr (bi_hash (last db))"
      "block_info_at bi_long_term_block_weight db (block_db_height db - 1) = Inr (bi_long_term_block_weight (last db))"
  obtains
    (hit) "bi_hash (last db) = cache_tip_hash s"
      "get_long_term_block_weight_median db (block_db_height db - nblocks) nblocks s = bindr (rm_median (cache_rolling_median s)) (\<lambda>v. Inr (v, s))"
  | (near) "0 < block_db_height db - 1"
      "get_long_term_block_weight_median db (block_db_height db - nblocks) nblocks s = bindr (block_info_at bi_hash db (block_db_height db - 1 - 1)) (\<lambda>old_tip_hash.
         if old_tip_hash = cache_tip_hash s
         then bindr (rm_insert (bi_long_term_block_weight (last db)) (cache_rolling_median s)) (\<lambda>m. bindr (rm_median m) (\<lambda>v.
                Inr (v, s\<lparr>cache_tip_hash := bi_hash (last db), cache_rolling_median := m\<rparr>)))
         else rebuild_median db (block_db_height db - nblocks) nblocks (bi_hash (last db)) s)"
  | (miss) "get_long_term_block_weight_median db (block_db_height db - nblocks) nblocks s =
      rebuild_median db (block_db_height db - nblocks) nblocks (bi_hash (last db)) s"
proof -
  let ?rmsize = "of_nat (rm_size (cache_rolling_median s)) :: u64"
  note e = get_long_term_block_weight_median_def [of db "block_db_height db - nblocks" nblocks s, unfolded w(2) Let_def,
      unfolded if_not_P [OF w(1)] if_P [OF w(3)] at_tip bindr_simps]
  consider "nblocks = ?rmsize" "bi_hash (last db) = cache_tip_hash s"
    | "\<not> (nblocks = ?rmsize \<and> bi_hash (last db) = cache_tip_hash s)" "0 < block_db_height db - 1"
        "nblocks = ?rmsize \<or> nblocks = ?rmsize + 1 \<and> ?rmsize < LONG_TERM_BLOCK_WEIGHT_WINDOW_SIZE"
    | "\<not> (nblocks = ?rmsize \<and> bi_hash (last db) = cache_tip_hash s)"
        "\<not> (0 < block_db_height db - 1 \<and> (nblocks = ?rmsize \<or> nblocks = ?rmsize + 1 \<and> ?rmsize < LONG_TERM_BLOCK_WEIGHT_WINDOW_SIZE))"
    by blast
  then show thesis
  proof cases
    case 1
    then have "(block_db_height db - 1 < block_db_height db \<and> nblocks = ?rmsize \<and> bi_hash (last db) = cache_tip_hash s) = True"
      using w(3) by simp
    from hit [OF 1(2)] e [unfolded this if_True] show ?thesis by blast
  next
    case 2
    then have "(block_db_height db - 1 < block_db_height db \<and> nblocks = ?rmsize \<and> bi_hash (last db) = cache_tip_hash s) = False"
      "(0 < block_db_height db - 1 \<and> block_db_height db - 1 < block_db_height db \<and>
         (nblocks = ?rmsize \<or> nblocks = ?rmsize + 1 \<and> ?rmsize < LONG_TERM_BLOCK_WEIGHT_WINDOW_SIZE)) = True"
      using w(3) by blast+
    from near [OF 2(2)] e [unfolded this if_True if_False] show ?thesis by blast
  next
    case 3
    then have "(block_db_height db - 1 < block_db_height db \<and> nblocks = ?rmsize \<and> bi_hash (last db) = cache_tip_hash s) = False"
      "(0 < block_db_height db - 1 \<and> block_db_height db - 1 < block_db_height db \<and>
         (nblocks = ?rmsize \<or> nblocks = ?rmsize + 1 \<and> ?rmsize < LONG_TERM_BLOCK_WEIGHT_WINDOW_SIZE)) = False"
      by blast+
    from miss e [unfolded this if_False] show ?thesis by blast
  qed
qed

text \<open>The incremental step leaves the cache on the tip.\<close>

lemma one_more_block:
  assumes r: "rolling N hist (cache_rolling_median s)" and win: "weights_window s = of_nat N"
    and names: "names_window N C (cache_tip_hash s) hist" and ids: "block_ids C" and db: "db \<in> C" "butlast db \<noteq> []" and N: "0 < N"
    and tip: "bi_hash (last (butlast db)) = cache_tip_hash s"
  obtains m where "rm_insert (bi_long_term_block_weight (last db)) (cache_rolling_median s) = Inr m"
    "rm_median m = Inr (vector_median (last_n N (long_term_weights db)))"
    "cache_good N C (s\<lparr>cache_tip_hash := bi_hash (last db), cache_rolling_median := m\<rparr>)"
proof -
  have ne: "db \<noteq> []" using db(2) by auto
  have "butlast db \<in> C" using ids db unfolding block_ids_def butlast_conv_take by blast
  then have h: "last_n N (hist @ [bi_long_term_block_weight (last db)]) = last_n N (long_term_weights db)"
    using next_window [OF N _ ne] names_window_chain(2) [OF names ids _ db(2) tip] by blast
  obtain m where m: "rm_insert (bi_long_term_block_weight (last db)) (cache_rolling_median s) = Inr m"
    "rolling N (hist @ [bi_long_term_block_weight (last db)]) m" by (rule rm_insert_rolling [OF r])
  have "rm_median m = Inr (vector_median (last_n N (long_term_weights db)))" using rm_median_rolling [OF m(2)] h by simp
  moreover have "names_window N C (bi_hash (last db)) (hist @ [bi_long_term_block_weight (last db)])"
    using names_window_intro [OF _ db(1) ne h] by simp
  then have "cache_good N C (s\<lparr>cache_tip_hash := bi_hash (last db), cache_rolling_median := m\<rparr>)"
    using m(2) win by (auto simp: cache_good_def)
  ultimately show ?thesis using that m(1) by blast
qed

lemma block_below_tip:
  assumes "unat (block_db_height db - 1) = length db - 1" "0 < block_db_height db - 1"
  shows "butlast db \<noteq> []" "block_info_at bi_hash db (block_db_height db - 1 - 1) = Inr (bi_hash (last (butlast db)))"
proof -
  have n: "2 \<le> length db" using assms by (simp add: word_less_nat_alt)
  have "1 \<le> block_db_height db - 1" using assms(1) n by (simp add: word_le_nat_alt)
  from unat_sub_le [OF this] have u: "unat (block_db_height db - 1 - 1) = length db - 2" unfolding assms(1) by simp
  show b: "butlast db \<noteq> []" using n by (auto simp flip: length_0_conv)
  have "butlast db ! (length db - 2) = db ! (length db - 2)" using n by (simp add: nth_butlast)
  then show "block_info_at bi_hash db (block_db_height db - 1 - 1) = Inr (bi_hash (last (butlast db)))"
    using n u b by (simp add: block_info_at_def last_conv_nth numeral_2_eq_2)
qed

lemma median_request:
  assumes good: "cache_good N C s" and ids: "block_ids C" and db: "db \<in> C" "db \<noteq> []" and N: "0 < N" "N < 2 ^ 64"
  defines "nblocks \<equiv> min (weights_window s) (block_db_height db)"
  shows "\<exists>s'. get_long_term_block_weight_median db (block_db_height db - nblocks) nblocks s
       = Inr (vector_median (last_n N (long_term_weights db)), s') \<and> cache_good N C s'"
proof -
  obtain hist where r: "rolling N hist (cache_rolling_median s)" and names: "names_window N C (cache_tip_hash s) hist"
    and win: "weights_window s = of_nat N" using good by (auto simp: cache_good_def)
  have len: "length db < 2 ^ 64" using ids db by (simp add: block_ids_def)
  note w = window_request [OF len db(2) N, folded win, folded nblocks_def]
  have at_tip: "block_info_at f db (block_db_height db - 1) = Inr (f (last db))" for f :: "mdb_block_info \<Rightarrow> 'a"
    using w(5) db(2) by (simp add: block_info_at_def last_conv_nth)
  note re = rebuild_good [OF r win db refl w(6)]
  from w(2-4) at_tip [of bi_hash] at_tip [of bi_long_term_block_weight] show ?thesis
  proof (cases rule: request_cases [of nblocks db s])
    case hit
    then have "rm_median (cache_rolling_median s) = Inr (vector_median (last_n N (long_term_weights db)))"
      using names_window_chain [OF names ids db] rm_median_rolling [OF r] by simp
    then show ?thesis using hit(2) good by simp
  next
    case near
    note below = block_below_tip [OF w(5) near(1)]
    show ?thesis
    proof (cases "bi_hash (last (butlast db)) = cache_tip_hash s")
      case True
      then show ?thesis using near(2) below(2) one_more_block [OF r win names ids db(1) below(1) N(1) True] by fastforce
    qed (use near(2) below(2) re in simp)
  next
    case miss
    then show ?thesis using re by simp
  qed
qed

section \<open>What the chain alone determines\<close>

definition chain_effective_median :: "nat \<Rightarrow> block_db \<Rightarrow> u64" where
  "chain_effective_median N db = max FULL_REWARD_ZONE_V5 (vector_median (last_n N (long_term_weights db)))"

definition chain_long_term_weight :: "nat \<Rightarrow> block_db \<Rightarrow> u8 \<Rightarrow> u64 \<Rightarrow> u64" where
  "chain_long_term_weight N db hf_version block_weight =
     (let e = chain_effective_median N db in
      if hf_version < 10 then block_weight
      else if hf_version < 15 then min block_weight (e + e * 2 div 5)
      else min (max block_weight (e * 10 div 17)) (e + e * 7 div 10))"

definition chain_weight_median :: "nat \<Rightarrow> block_db \<Rightarrow> u8 \<Rightarrow> u64" where
  "chain_weight_median N db hf_version =
     (let e = chain_effective_median N db; short = vector_median (last_n 100 (map bi_weight db)) in
      max (get_min_block_weight hf_version)
        (if hf_version < 10 then short
         else min (max (if hf_version < 15 then FULL_REWARD_ZONE_V5 else e) short) (SURGE_FACTOR * e)))"

text \<open>The life of the node's cache: it is built empty, and then asked for any chain at any time, so that blocks may
  have been added, and any number of them popped and replaced, since it was last asked.\<close>

inductive weights_running :: "nat \<Rightarrow> block_db set \<Rightarrow> weight_state \<Rightarrow> bool" for N C where
  started: "new_rolling_median (of_nat N) data pos heap = Inr m \<Longrightarrow> length data = N \<Longrightarrow> length pos = N \<Longrightarrow> length heap = N \<Longrightarrow>
    weights_running N C \<lparr>weights_window = of_nat N, long_term_effective_median = 0, cache_tip_hash = zeros32,
      cache_rolling_median = m, cumul_weight_limit = 0, cumul_weight_median = 0\<rparr>"
| weighed: "weights_running N C s \<Longrightarrow> db \<in> C \<Longrightarrow> db \<noteq> [] \<Longrightarrow>
    get_next_long_term_block_weight db hf_version w s = Inr (x, s') \<Longrightarrow> weights_running N C s'"
| limited: "weights_running N C s \<Longrightarrow> db \<in> C \<Longrightarrow> db \<noteq> [] \<Longrightarrow>
    update_next_cumulative_weight_limit db hf_version s = Inr s' \<Longrightarrow> weights_running N C s'"

lemma last_weights:
  fixes db :: block_db
  assumes "length db < 2 ^ 64" "db \<noteq> []"
  shows "get_last_n_blocks_weights db REWARD_BLOCKS_WINDOW = Inr (last_n 100 (map bi_weight db))"
proof -
  have h: "unat (block_db_height db) = length db" using assms(1) unfolding block_db_height_def by (intro unat_of_nat_small) simp
  then have h0: "block_db_height db \<noteq> 0" using assms(2) by auto
  have c: "unat (min (block_db_height db) REWARD_BLOCKS_WINDOW) = min (length db) 100"
    using h by (simp add: min_def word_le_nat_alt REWARD_BLOCKS_WINDOW_def)
  then have s: "unat (block_db_height db - min (block_db_height db) REWARD_BLOCKS_WINDOW) = length db - min (length db) 100"
    using h by (simp add: unat_sub_le)
  then have "\<not> block_db_height db \<le> block_db_height db - min (block_db_height db) REWARD_BLOCKS_WINDOW"
    using h assms(2) by (cases db) (simp_all add: word_le_nat_alt)
  then show ?thesis using s h0
    by (auto simp: get_last_n_blocks_weights_def get_block_info_64bit_fields_def last_n_def REWARD_BLOCKS_WINDOW_def min_def Let_def)
qed

lemma next_weight_good:
  assumes "cache_good N C s" "block_ids C" "db \<in> C" "db \<noteq> []" "0 < N" "N < 2 ^ 64"
  shows "\<exists>s'. get_next_long_term_block_weight db hf_version w s = Inr (chain_long_term_weight N db hf_version w, s') \<and> cache_good N C s'"
proof (cases "hf_version < 10")
  case True
  then show ?thesis using assms(1) by (auto simp: get_next_long_term_block_weight_def chain_long_term_weight_def Let_def)
next
  case False
  obtain s' where "get_long_term_block_weight_median db (block_db_height db - min (weights_window s) (block_db_height db))
      (min (weights_window s) (block_db_height db)) s = Inr (vector_median (last_n N (long_term_weights db)), s')" "cache_good N C s'"
    using median_request [OF assms] by blast
  then show ?thesis using False
    by (auto simp: get_next_long_term_block_weight_def chain_long_term_weight_def chain_effective_median_def Let_def not_less)
qed

lemma cache_good_fields [simp]:
  "cache_good N C (s\<lparr>long_term_effective_median := x\<rparr>) = cache_good N C s"
  "cache_good N C (s\<lparr>cumul_weight_median := x\<rparr>) = cache_good N C s"
  "cache_good N C (s\<lparr>cumul_weight_limit := x\<rparr>) = cache_good N C s"
  by (simp_all add: cache_good_def)

lemma set_weight_limit_max:
  "set_weight_limit z s = s\<lparr>cumul_weight_median := max z (cumul_weight_median s), cumul_weight_limit := max z (cumul_weight_median s) * 2\<rparr>"
  by (cases "cumul_weight_median s \<le> z") (auto simp: set_weight_limit_def max_def Let_def)

lemma weight_limit_good:
  assumes "cache_good N C s" "block_ids C" "db \<in> C" "db \<noteq> []" "0 < N" "N < 2 ^ 64"
  shows "\<exists>s'. update_next_cumulative_weight_limit db hf_version s = Inr s' \<and> cache_good N C s'
     \<and> cumul_weight_median s' = chain_weight_median N db hf_version \<and> cumul_weight_limit s' = chain_weight_median N db hf_version * 2"
proof -
  have len: "length db < 2 ^ 64" using assms(2,3) by (simp add: block_ids_def)
  define short where "short = vector_median (last_n 100 (map bi_weight db))"
  define med where "med = (if hf_version < 10 then short
     else min (max (if hf_version < 15 then FULL_REWARD_ZONE_V5 else chain_effective_median N db) short)
       (SURGE_FACTOR * chain_effective_median N db))"
  have "\<exists>s'. update_next_cumulative_weight_limit db hf_version s =
      Inr (set_weight_limit (get_min_block_weight hf_version) (s'\<lparr>cumul_weight_median := med\<rparr>)) \<and> cache_good N C s'"
  proof (cases "hf_version < 10")
    case True
    have "update_next_cumulative_weight_limit db hf_version s =
        Inr (set_weight_limit (get_min_block_weight hf_version) (s\<lparr>cumul_weight_median := med\<rparr>))"
      unfolding update_next_cumulative_weight_limit_def last_weights [OF len assms(4)] med_def short_def
      using True by (simp add: Let_def)
    then show ?thesis using assms(1) by blast
  next
    case False
    obtain s' where s': "get_long_term_block_weight_median db (block_db_height db - min (weights_window s) (block_db_height db))
        (min (weights_window s) (block_db_height db)) s = Inr (vector_median (last_n N (long_term_weights db)), s')" "cache_good N C s'"
      using median_request [OF assms] by blast
    define s1 where "s1 = s'\<lparr>long_term_effective_median := chain_effective_median N db\<rparr>"
    have "update_next_cumulative_weight_limit db hf_version s =
        Inr (set_weight_limit (get_min_block_weight hf_version) (s1\<lparr>cumul_weight_median := med\<rparr>))"
      unfolding update_next_cumulative_weight_limit_def last_weights [OF len assms(4)] med_def short_def s1_def
      using False s'(1) by (simp add: Let_def chain_effective_median_def not_le [symmetric])
    moreover have "cache_good N C s1" using s'(2) by (simp add: s1_def)
    ultimately show ?thesis by blast
  qed
  then obtain s' where "update_next_cumulative_weight_limit db hf_version s =
      Inr (set_weight_limit (get_min_block_weight hf_version) (s'\<lparr>cumul_weight_median := med\<rparr>))" "cache_good N C s'"
    by blast
  moreover have "chain_weight_median N db hf_version = max (get_min_block_weight hf_version) med"
    by (simp add: chain_weight_median_def med_def short_def Let_def)
  ultimately show ?thesis by (simp add: set_weight_limit_max)
qed

lemma weights_running_good:
  assumes "weights_running N C s" "block_ids C" "0 < N" "N < 2 ^ 64"
  shows "cache_good N C s"
  using assms(1)
proof induction
  case (started data pos heap m)
  have u: "unat (of_nat N :: u64) = N" using assms(4) by (intro unat_of_nat_small) simp
  then have "unat (of_nat N :: u64) < 2 ^ 27"
    using started(1) new_rolling_median_large [of "of_nat N" data pos heap] by (cases "unat (of_nat N :: u64) < 2 ^ 27") (simp_all add: not_less)
  then have "rm_clear \<lparr>rm_data = data, rm_pos = pos, rm_heap = heap, rm_N = N, rm_idx = 0, minCt = 0, maxCt = 0, rm_size = 0\<rparr> = Inr m"
    using started(1) new_rolling_median_small [of "of_nat N" data pos heap] by (simp add: u del: unat_of_nat)
  moreover obtain m' where "rm_clear \<lparr>rm_data = data, rm_pos = pos, rm_heap = heap, rm_N = N, rm_idx = 0, minCt = 0, maxCt = 0,
      rm_size = 0\<rparr> = Inr m'" "rolling N [] m'"
    by (rule rm_clear_rolling [of "\<lparr>rm_data = data, rm_pos = pos, rm_heap = heap, rm_N = N, rm_idx = 0, minCt = 0, maxCt = 0,
      rm_size = 0\<rparr>"]) (use started assms(3) in auto)
  ultimately have "rolling N [] m" by simp
  then show ?case by (auto simp: cache_good_def names_window_def)
next
  case (weighed s db hf_version w x s')
  then show ?case using next_weight_good [OF weighed.IH assms(2) weighed.hyps(2,3) assms(3,4), of hf_version w] by auto
next
  case (limited s db hf_version s')
  then show ?case using weight_limit_good [OF limited.IH assms(2) limited.hyps(2,3) assms(3,4), of hf_version] by auto
qed

text \<open>C20: All nodes weigh alike, as long as their blocks' hashes name their chains (\<open>block_ids\<close>) and the window has 1 to
  2^31 - 1 blocks (it has 100000; from 2^27 its rolling median cannot be built): whatever chains a node was asked about before, in whatever order, with all the
  reorganisations between them, the long-term weight it gives the next block of a chain, the median and the limit on
  that block's weight are functions of the chain, those with the window's plain median in place of the cache.\<close>

theorem weights_depend_on_chain_only:
  assumes "weights_running N C s" "block_ids C" "db \<in> C" "db \<noteq> []" "0 < N" "N < 2 ^ 31"
  shows "\<exists>s' s''. get_next_long_term_block_weight db hf_version w s = Inr (chain_long_term_weight N db hf_version w, s')
     \<and> weights_running N C s'
     \<and> update_next_cumulative_weight_limit db hf_version s' = Inr s'' \<and> weights_running N C s''
     \<and> cumul_weight_median s'' = chain_weight_median N db hf_version
     \<and> cumul_weight_limit s'' = chain_weight_median N db hf_version * 2"
proof -
  have n: "N < 2 ^ 64" using assms(6) by simp
  obtain s' where s': "get_next_long_term_block_weight db hf_version w s = Inr (chain_long_term_weight N db hf_version w, s')"
    "cache_good N C s'"
    using next_weight_good [OF weights_running_good [OF assms(1,2,5) n] assms(2-5) n] by blast
  have r: "weights_running N C s'" by (rule weights_running.weighed [OF assms(1,3,4) s'(1)])
  obtain s'' where s'': "update_next_cumulative_weight_limit db hf_version s' = Inr s''"
    "cumul_weight_median s'' = chain_weight_median N db hf_version" "cumul_weight_limit s'' = chain_weight_median N db hf_version * 2"
    using weight_limit_good [OF s'(2) assms(2-5) n] by blast
  have "weights_running N C s''" by (rule weights_running.limited [OF r assms(3,4) s''(1)])
  then show ?thesis using s'(1) s'' r by blast
qed

definition demo_info :: mdb_block_info where
  "demo_info = \<lparr>bi_hash = replicate 32 1, bi_weight = 1000, bi_long_term_block_weight = 1000\<rparr>"

lemma demo_ids: "block_ids {[], [demo_info]}"
proof -
  have "take n [demo_info] \<in> {[], [demo_info]}" for n by (cases n) simp_all
  then show ?thesis by (auto simp: block_ids_def demo_info_def zeros32_def replicate_eq_replicate)
qed

lemma demo_weights_running:
  "\<exists>m. new_rolling_median 3 [0, 0, 0] [0, 0, 0] [0, 0, 0] = Inr m
     \<and> weights_running 3 {[], [demo_info]} \<lparr>weights_window = 3, long_term_effective_median = 0, cache_tip_hash = zeros32,
         cache_rolling_median = m, cumul_weight_limit = 0, cumul_weight_median = 0\<rparr>"
proof -
  obtain m where m: "new_rolling_median 3 [0, 0, 0] [0, 0, 0] [0, 0, 0] = Inr m"
    using rm_clear_rolling [of "\<lparr>rm_data = [0, 0, 0], rm_pos = [0, 0, 0], rm_heap = [0, 0, 0], rm_N = 3, rm_idx = 0,
        minCt = 0, maxCt = 0, rm_size = 0\<rparr>"]
    by (auto simp: new_rolling_median_small)
  then show ?thesis using weights_running.started [of 3 "[0, 0, 0]" "[0, 0, 0]" "[0, 0, 0]" m "{[], [demo_info]}"] by simp
qed

lemma demo_effective: "chain_effective_median 3 [demo_info] = 300000"
  by (simp add: chain_effective_median_def FULL_REWARD_ZONE_V5_def long_term_weights_def last_n_def vector_median_def demo_info_def)

theorem weights_depend_on_chain_only_witness:
  "\<exists>m s'. new_rolling_median 3 [0, 0, 0] [0, 0, 0] [0, 0, 0] = Inr m
     \<and> get_next_long_term_block_weight [demo_info] 15 100000 \<lparr>weights_window = 3, long_term_effective_median = 0,
         cache_tip_hash = zeros32, cache_rolling_median = m, cumul_weight_limit = 0, cumul_weight_median = 0\<rparr> = Inr (176470, s')"
proof -
  obtain m where m: "new_rolling_median 3 [0, 0, 0] [0, 0, 0] [0, 0, 0] = Inr m"
    "weights_running 3 {[], [demo_info]} \<lparr>weights_window = 3, long_term_effective_median = 0, cache_tip_hash = zeros32,
         cache_rolling_median = m, cumul_weight_limit = 0, cumul_weight_median = 0\<rparr>"
    using demo_weights_running by blast
  have "chain_long_term_weight 3 [demo_info] 15 100000 = 176470"
    unfolding chain_long_term_weight_def demo_effective by simp
  then show ?thesis using weights_depend_on_chain_only [OF m(2) demo_ids, of "[demo_info]" 15 100000] m(1) by auto
qed

section \<open>Bounds\<close>

lemma unat_max: "unat (max a b) = max (unat a) (unat (b :: u64))"
  by (simp add: max_def word_le_nat_alt)

lemma unat_min: "unat (min a b) = min (unat a) (unat (b :: u64))"
  by (simp add: min_def word_le_nat_alt)

lemma vector_median_bound:
  assumes "\<And>x. x \<in> set v \<Longrightarrow> unat x < B" "0 < B"
  shows "unat (vector_median v) < B"
proof (cases "v = []")
  case True
  then show ?thesis using assms(2) by (simp add: vector_median_def)
next
  case False
  have m: "unat (sort v ! k) < B" if "k < length v" for k
    using assms(1) [of "sort v ! k"] that by (metis length_sort nth_mem set_sort)
  have "length v div 2 < length v" using False by simp
  moreover have "length v div 2 - 1 < length v" using False by (simp add: less_imp_diff_less)
  ultimately show ?thesis
    using m [of "length v div 2"] m [of "length v div 2 - 1"]
    by (auto simp: vector_median_sorted [OF False] get_mid_average)
qed

lemma effective_bound:
  assumes "\<And>b. b \<in> set db \<Longrightarrow> unat (bi_long_term_block_weight b) < 2 ^ 57"
  shows "300000 \<le> unat (chain_effective_median N db)" "unat (chain_effective_median N db) < 2 ^ 57"
proof -
  have "unat (vector_median (last_n N (long_term_weights db))) < 2 ^ 57"
    by (rule vector_median_bound)
      (use assms in \<open>auto simp: last_n_def long_term_weights_def dest!: in_set_dropD\<close>)
  then show "300000 \<le> unat (chain_effective_median N db)" "unat (chain_effective_median N db) < 2 ^ 57"
    by (simp_all add: chain_effective_median_def unat_max FULL_REWARD_ZONE_V5_def)
qed

text \<open>The block reward is refused exactly above twice the median it is given, when that is at least the zone.\<close>

lemma core_reward_refused:
  assumes "get_min_block_weight v \<le> m" "unat m < 2 ^ 63"
  shows "core_block_reward m w g v = Inr None \<longleftrightarrow> m * 2 < w"
proof -
  have "\<not> m < get_min_block_weight v" using assms(1) by simp
  moreover have "unat (m * 2) = unat m * 2" using assms(2) by (simp add: unat_mult_no_wrap)
  then have "w \<le> m \<Longrightarrow> \<not> m * 2 < w" by (simp add: word_le_nat_alt word_less_nat_alt)
  ultimately show ?thesis
    by (auto simp: core_block_reward_def Let_def bindr_Inr_iff mult.commute split: prod.splits if_splits)
qed

lemma clamp_order: "300000 \<le> e \<Longrightarrow> max 300000 (min (max e x) (50 * e)) = max e (min x (50 * e))" for e x :: nat
  by (simp add: max_def min_def)

text \<open>C21: From fork 15 on, while the long-term weights of a chain are below 2^57, the blocks' hashes name their chains and
  the window is that of weights_depend_on_chain_only (1 to 2^31 - 1 blocks): the limit on the next block's weight
  is twice its median, which lies between the effective long-term median and 50 times it, the block reward is refused
  exactly above that limit, and the long-term weight a block gets is its weight, moved into the interval from 10/17 of
  the effective median to 17/10 of it.\<close>

theorem weight_limits_exact:
  assumes "weights_running N C s" "block_ids C" "db \<in> C" "db \<noteq> []" "0 < N" "N < 2 ^ 31" "15 \<le> hf_version"
    and "\<forall>b\<in>set db. unat (bi_long_term_block_weight b) < 2 ^ 57"
  shows "\<exists>s' x s''. update_next_cumulative_weight_limit db hf_version s = Inr s'
     \<and> unat (cumul_weight_limit s') = 2 * unat (cumul_weight_median s')
     \<and> unat (cumul_weight_median s') = max (unat (chain_effective_median N db))
          (min (unat (vector_median (last_n 100 (map bi_weight db)))) (50 * unat (chain_effective_median N db)))
     \<and> (core_block_reward (cumul_weight_median s') w g hf_version = Inr None \<longleftrightarrow> cumul_weight_limit s' < w)
     \<and> get_next_long_term_block_weight db hf_version w s' = Inr (x, s'')
     \<and> unat x = min (max (unat w) (unat (chain_effective_median N db) * 10 div 17))
          (unat (chain_effective_median N db) + unat (chain_effective_median N db) * 7 div 10)"
proof -
  have n: "N < 2 ^ 64" using assms(6) by simp
  obtain s' where s': "update_next_cumulative_weight_limit db hf_version s = Inr s'" "cache_good N C s'"
    "cumul_weight_median s' = chain_weight_median N db hf_version" "cumul_weight_limit s' = chain_weight_median N db hf_version * 2"
    using weight_limit_good [OF weights_running_good [OF assms(1,2,5) n] assms(2-5) n] by blast
  obtain s'' where s'': "get_next_long_term_block_weight db hf_version w s' = Inr (chain_long_term_weight N db hf_version w, s'')"
    using next_weight_good [OF s'(2) assms(2-5) n] by blast
  define e where "e = chain_effective_median N db"
  have e: "300000 \<le> unat e" "unat e < 2 ^ 57" using effective_bound [of db N] assms(8) by (simp_all add: e_def)
  have v: "\<not> hf_version < 10" "\<not> hf_version < 15" "\<not> hf_version < 2" "\<not> hf_version < 5"
    using assms(7) by (auto simp: word_le_nat_alt word_less_nat_alt)
  have zone: "get_min_block_weight hf_version = 300000" using v by (simp add: get_min_block_weight_def)
  have m: "unat (e * 10) = unat e * 10" "unat (e * 7) = unat e * 7" "unat (SURGE_FACTOR * e) = 50 * unat e"
    using e by (simp_all add: unat_mult_no_wrap SURGE_FACTOR_def)
  define med where "med = chain_weight_median N db hf_version"
  have "unat med = max 300000 (min (max (unat e) (unat (vector_median (last_n 100 (map bi_weight db))))) (50 * unat e))"
    using v by (simp add: med_def chain_weight_median_def Let_def zone e_def [symmetric] unat_max unat_min m)
  then have med: "unat med = max (unat e) (min (unat (vector_median (last_n 100 (map bi_weight db)))) (50 * unat e))"
    unfolding clamp_order [OF e(1)] .
  have "unat med \<le> 50 * unat e" unfolding med by simp
  then have small: "unat med < 2 ^ 63" using e(2) by simp
  have "unat e \<le> unat med" unfolding med by simp
  then have "get_min_block_weight hf_version \<le> med" using e(1) by (simp add: zone word_le_nat_alt)
  then have refused: "core_block_reward med w g hf_version = Inr None \<longleftrightarrow> med * 2 < w" by (rule core_reward_refused [OF _ small])
  have "unat (e + e * 7 div 10) = unat e + unat e * 7 div 10" using e by (simp add: unat_add_no_wrap unat_div m)
  then have long: "unat (chain_long_term_weight N db hf_version w) = min (max (unat w) (unat e * 10 div 17)) (unat e + unat e * 7 div 10)"
    using v by (simp add: chain_long_term_weight_def Let_def e_def [symmetric] unat_max unat_min unat_div m)
  have double: "unat (med * 2) = 2 * unat med" using small by (simp add: unat_mult_no_wrap)
  have f: "cumul_weight_median s' = med" "cumul_weight_limit s' = med * 2" using s'(3,4) by (simp_all only: med_def)
  show ?thesis unfolding e_def [symmetric]
    using s'(1) s'' double [folded f] med [folded f] refused [folded f] long by blast
qed

theorem weight_limits_exact_witness:
  "\<exists>m s'. new_rolling_median 3 [0, 0, 0] [0, 0, 0] [0, 0, 0] = Inr m
     \<and> update_next_cumulative_weight_limit [demo_info] 15 \<lparr>weights_window = 3, long_term_effective_median = 0,
         cache_tip_hash = zeros32, cache_rolling_median = m, cumul_weight_limit = 0, cumul_weight_median = 0\<rparr> = Inr s'
     \<and> unat (cumul_weight_limit s') = 600000"
proof -
  obtain m where m: "new_rolling_median 3 [0, 0, 0] [0, 0, 0] [0, 0, 0] = Inr m"
    "weights_running 3 {[], [demo_info]} \<lparr>weights_window = 3, long_term_effective_median = 0, cache_tip_hash = zeros32,
         cache_rolling_median = m, cumul_weight_limit = 0, cumul_weight_median = 0\<rparr>"
    using demo_weights_running by blast
  have "unat (bi_long_term_block_weight demo_info) < 2 ^ 57" "vector_median (last_n 100 (map bi_weight [demo_info])) = 1000"
    by (simp_all add: demo_info_def last_n_def vector_median_def)
  then show ?thesis using weight_limits_exact [OF m(2) demo_ids, of "[demo_info]" 15 0 0] m(1) demo_effective by auto
qed

end
