(* ===== verification/Keccak.thy ===== *)
theory Keccak
  imports Bytes
begin

text \<open>
  vendor/monero/src/crypto/keccak.c: the permutation, the one-shot hash and the streaming interface.
  The state is a list of 25 words; byte buffers are byte lists, read as little-endian words
  (\<open>SWAP64LE\<close> is the identity on the little-endian targets the sources build for). \<open>local_abort\<close>
  is the error \<open>Aborted\<close>. Lengths are naturals, with the wrap of \<open>size_t\<close> written where a sum is
  formed.
\<close>

section \<open>The permutation\<close>

definition ROTL64 :: "u64 \<Rightarrow> nat \<Rightarrow> u64" where
  "ROTL64 x y = push_bit y x OR drop_bit (64 - y) x"

definition keccakf_rndc :: "u64 list" where
  "keccakf_rndc =
    [0x0000000000000001, 0x0000000000008082, 0x800000000000808a,
     0x8000000080008000, 0x000000000000808b, 0x0000000080000001,
     0x8000000080008081, 0x8000000000008009, 0x000000000000008a,
     0x0000000000000088, 0x0000000080008009, 0x000000008000000a,
     0x000000008000808b, 0x800000000000008b, 0x8000000000008089,
     0x8000000000008003, 0x8000000000008002, 0x8000000000000080,
     0x000000000000800a, 0x800000008000000a, 0x8000000080008081,
     0x8000000000008080, 0x0000000080000001, 0x8000000080008008]"

definition column_parity :: "u64 list \<Rightarrow> u64 list" where
  "column_parity st = map (\<lambda>i. st ! i XOR st ! (i + 5) XOR st ! (i + 10) XOR st ! (i + 15) XOR st ! (i + 20)) [0..<5]"

definition THETA :: "u64 list \<Rightarrow> u64 list \<Rightarrow> nat \<Rightarrow> u64 list" where
  "THETA bc st i =
     (let t = bc ! ((i + 4) mod 5) XOR ROTL64 (bc ! ((i + 1) mod 5)) 1
      in foldl (\<lambda>s j. s[j := s ! j XOR t]) st [i, i + 5, i + 10, i + 15, i + 20])"

text \<open>Rho and Pi: the assignments \<open>st[d] = ROTL64(st[s], r)\<close> in the source's order; \<open>t\<close> is the saved \<open>st[1]\<close>.\<close>

definition rho_pi_moves :: "(nat \<times> nat \<times> nat) list" where
  "rho_pi_moves =
    [(1, 6, 44), (6, 9, 20), (9, 22, 61), (22, 14, 39), (14, 20, 18), (20, 2, 62), (2, 12, 43), (12, 13, 25),
     (13, 19, 8), (19, 23, 56), (23, 15, 41), (15, 4, 27), (4, 24, 14), (24, 21, 2), (21, 8, 55), (8, 16, 45),
     (16, 5, 36), (5, 3, 28), (3, 18, 21), (18, 17, 15), (17, 11, 10), (11, 7, 6), (7, 10, 3)]"

definition rho_pi :: "u64 list \<Rightarrow> u64 list" where
  "rho_pi st =
     (let t = st ! 1; st' = foldl (\<lambda>s (d, k, r). s[d := ROTL64 (s ! k) r]) st rho_pi_moves
      in st'[10 := ROTL64 t 1])"

definition CHI :: "u64 list \<Rightarrow> nat \<Rightarrow> u64 list" where
  "CHI st j =
     (let st0 = st ! j; st1 = st ! (j + 1); st2 = st ! (j + 2); st3 = st ! (j + 3); st4 = st ! (j + 4) in
      st[j     := st0 XOR (NOT st1 AND st2),
         j + 1 := st1 XOR (NOT st2 AND st3),
         j + 2 := st2 XOR (NOT st3 AND st4),
         j + 3 := st3 XOR (NOT st4 AND st0),
         j + 4 := st4 XOR (NOT st0 AND st1)])"

definition keccak_round :: "u64 list \<Rightarrow> nat \<Rightarrow> u64 list" where
  "keccak_round st round =
     (let bc = column_parity st;
          st = foldl (THETA bc) st [0..<5];
          st = rho_pi st;
          st = foldl CHI st [0, 5, 10, 15, 20]
      in st[0 := st ! 0 XOR keccakf_rndc ! round])"

definition keccakf :: "u64 list \<Rightarrow> nat \<Rightarrow> u64 list" where
  "keccakf st rounds = foldl keccak_round st [0..<rounds]"

section \<open>One-shot hashing\<close>

text \<open>\<open>for (i = 0; i < rsizw; i++) st[i] ^= SWAP64LE(temp[i])\<close> and the permutation after it.\<close>

definition process_block :: "nat \<Rightarrow> u64 list \<Rightarrow> bytes \<Rightarrow> u64 list" where
  "process_block rsizw st block =
     keccakf (foldl (\<lambda>s i. s[i := s ! i XOR le_to_word (take 8 (drop (8 * i) block))]) st [0..<rsizw]) 24"

function absorb :: "nat \<Rightarrow> u64 list \<Rightarrow> bytes \<Rightarrow> u64 list \<times> bytes" where
  "absorb rsiz st inp =
     (if 0 < rsiz \<and> rsiz \<le> length inp
      then absorb rsiz (process_block (rsiz div 8) st (take rsiz inp)) (drop rsiz inp)
      else (st, inp))"
  by pat_completeness auto
termination by (relation "measure (\<lambda>(_, _, inp). length inp)") auto

declare absorb.simps [simp del]

definition last_block :: "nat \<Rightarrow> bytes \<Rightarrow> bytes" where
  "last_block rsiz inp =
     (let temp = inp @ replicate (144 - length inp) 0;
          temp = temp[length inp := 1]
      in temp[rsiz - 1 := temp ! (rsiz - 1) OR 0x80])"

definition state_bytes :: "u64 list \<Rightarrow> nat \<Rightarrow> bytes" where
  "state_bytes st mdlen = concat (map (word_to_le 8) (take (mdlen div 8) st))"

definition keccak :: "bytes \<Rightarrow> int \<Rightarrow> bytes result" where
  "keccak inp mdlen =
     (if mdlen \<le> 0 \<or> (100 \<le> mdlen \<and> mdlen \<noteq> 200) \<or> mdlen mod 8 \<noteq> 0 then Inl Aborted
      else let rsiz = (if mdlen = 200 then 136 else nat (200 - 2 * mdlen)); rsizw = rsiz div 8 in
        if rsiz = 0 \<or> rsiz > 144 \<or> rsizw * 8 > 144 then Inl Aborted
        else let (st, rest) = absorb rsiz (replicate 25 0) inp in
          if length rest \<ge> rsiz then Inl Aborted
          else Inr (state_bytes (process_block rsizw st (last_block rsiz rest)) (nat mdlen)))"

definition keccak1600 :: "bytes \<Rightarrow> bytes result" where
  "keccak1600 inp = keccak inp 200"

section \<open>Streaming\<close>

record KECCAK_CTX =
  ctx_hash :: "u64 list"
  message :: bytes
  rest :: nat

definition keccak_init :: KECCAK_CTX where
  "keccak_init = \<lparr>ctx_hash = replicate 25 0, message = replicate 136 0, rest = 0\<rparr>"

definition overwrite :: "nat \<Rightarrow> bytes \<Rightarrow> bytes \<Rightarrow> bytes" where
  "overwrite at src dst = take at dst @ src @ drop (at + length src) dst"

function update_blocks :: "KECCAK_CTX \<Rightarrow> bytes \<Rightarrow> KECCAK_CTX" where
  "update_blocks c inp =
     (if 136 \<le> length inp
      then let m = overwrite 0 (take 136 inp) (message c) in
           update_blocks (c\<lparr>message := m, ctx_hash := process_block 17 (ctx_hash c) m\<rparr>) (drop 136 inp)
      else if inp \<noteq> [] then c\<lparr>message := overwrite 0 inp (message c)\<rparr>
      else c)"
  by pat_completeness auto
termination by (relation "measure (\<lambda>(_, inp). length inp)") auto

declare update_blocks.simps [simp del]

definition keccak_update :: "KECCAK_CTX \<Rightarrow> bytes \<Rightarrow> KECCAK_CTX result" where
  "keccak_update c inp =
     (if bit (rest c) 31 then Inl Aborted
      else let idx = rest c; c = c\<lparr>rest := ((rest c + length inp) mod 2 ^ 64) mod 136\<rparr> in
        if idx \<noteq> 0
        then let left = 136 - idx; c = c\<lparr>message := overwrite idx (take left inp) (message c)\<rparr> in
             if length inp < left then Inr c
             else Inr (update_blocks (c\<lparr>ctx_hash := process_block 17 (ctx_hash c) (message c)\<rparr>) (drop left inp))
        else Inr (update_blocks c inp))"

definition keccak_finish :: "KECCAK_CTX \<Rightarrow> bytes \<times> KECCAK_CTX" where
  "keccak_finish c =
     (let c' = (if bit (rest c) 31 then c
                else let m = overwrite (rest c) (replicate (136 - rest c) 0) (message c);
                         m = m[rest c := m ! rest c OR 1];
                         m = m[135 := m ! 135 OR 0x80]
                     in c\<lparr>message := m, ctx_hash := process_block 17 (ctx_hash c) m, rest := 2 ^ 31\<rparr>)
      in (state_bytes (ctx_hash c') 32, c'))"

section \<open>Streaming and one-shot hashing agree\<close>

lemma length_foldl_update: "length (foldl (\<lambda>s i. s[f i := g s i]) st is) = length st"
  by (induction "is" arbitrary: st) simp_all

lemma length_THETA [simp]: "length (THETA bc st i) = length st"
  unfolding THETA_def Let_def using length_foldl_update [of "\<lambda>j. j"] by simp

lemma length_CHI [simp]: "length (CHI st j) = length st"
  by (simp add: CHI_def Let_def)

lemma length_rho_pi [simp]: "length (rho_pi st) = length st"
proof -
  have "length (foldl (\<lambda>s (d, k, r). s[d := ROTL64 (s ! k) r]) st ms) = length st" for ms
    by (induction ms arbitrary: st) (auto split: prod.splits)
  then show ?thesis by (simp add: rho_pi_def Let_def)
qed

lemma length_foldl_same: "(\<And>s x. length (f s x) = length s) \<Longrightarrow> length (foldl f st xs) = length st"
  by (induction xs arbitrary: st) simp_all

lemma length_keccakf [simp]: "length (keccakf st r) = length st"
  by (simp add: keccakf_def keccak_round_def Let_def length_foldl_same)

lemma length_process_block [simp]: "length (process_block w st b) = length st"
  by (simp add: process_block_def length_foldl_same)

lemma length_absorb: "absorb r st inp = (st', rest') \<Longrightarrow> length st' = length st"
proof (induction r st inp arbitrary: st' rest' rule: absorb.induct)
  case (1 r st inp)
  then show ?case by (subst (asm) (2) absorb.simps) (auto split: if_splits)
qed

lemma absorb_short: "length inp < r \<Longrightarrow> absorb r st inp = (st, inp)"
  by (subst absorb.simps) simp

lemma absorb_block: "0 < r \<Longrightarrow> length a = r \<Longrightarrow> absorb r st (a @ b) = absorb r (process_block (r div 8) st a) b"
  by (subst absorb.simps) simp

lemma absorb_rest: "0 < r \<Longrightarrow> absorb r st inp = (st', rest') \<Longrightarrow> length rest' = length inp mod r"
proof (induction r st inp arbitrary: st' rest' rule: absorb.induct)
  case (1 r st inp)
  show ?case
  proof (cases "r \<le> length inp")
    case True
    then have "absorb r (process_block (r div 8) st (take r inp)) (drop r inp) = (st', rest')"
      using "1.prems" by (subst (asm) absorb.simps) simp
    with 1 True show ?thesis by (simp add: le_mod_geq)
  next
    case False
    with "1.prems" show ?thesis by (simp add: absorb_short)
  qed
qed

lemma absorb_append:
  assumes "0 < r" "absorb r st a = (st', rest')"
  shows "absorb r st (a @ b) = absorb r st' (rest' @ b)"
  using assms
proof (induction r st a arbitrary: st' rest' rule: absorb.induct)
  case (1 r st a)
  show ?case
  proof (cases "r \<le> length a")
    case True
    let ?p = "process_block (r div 8) st (take r a)"
    have "absorb r ?p (drop r a) = (st', rest')"
      using "1.prems" True by (subst (asm) absorb.simps) simp
    with 1 True have "absorb r ?p (drop r a @ b) = absorb r st' (rest' @ b)" by simp
    moreover have "absorb r st (a @ b) = absorb r ?p (drop r a @ b)"
      using True "1.prems" absorb_block [of r "take r a" st "drop r a @ b"] by (simp add: min_def flip: append_assoc)
    ultimately show ?thesis by simp
  next
    case False
    with "1.prems" show ?thesis by (simp add: absorb_short)
  qed
qed

text \<open>What a context stands for: the data fed so far, absorbed up to the last full block.\<close>

definition represents :: "KECCAK_CTX \<Rightarrow> bytes \<Rightarrow> bool" where
  "represents c data \<longleftrightarrow> rest c < 136 \<and> length (message c) = 136
     \<and> absorb 136 (replicate 25 0) data = (ctx_hash c, take (rest c) (message c))"

lemma represents_init: "represents keccak_init []"
  by (simp add: represents_def keccak_init_def absorb_short)

lemma small_not_bit31: "(n :: nat) < 136 \<Longrightarrow> \<not> bit n 31"
  by (simp add: bit_iff_odd)

lemma length_overwrite: "at + length src \<le> length dst \<Longrightarrow> length (overwrite at src dst) = length dst"
  by (simp add: overwrite_def)

lemma take_overwrite: "at \<le> length dst \<Longrightarrow> take (at + length src) (overwrite at src dst) = take at dst @ src"
  by (simp add: overwrite_def)

lemma update_blocks_absorb:
  assumes "length (message c) = 136"
  shows "length (message (update_blocks c inp)) = 136 \<and> rest (update_blocks c inp) = rest c
    \<and> absorb 136 (ctx_hash c) inp
        = (ctx_hash (update_blocks c inp), take (length inp mod 136) (message (update_blocks c inp)))"
  using assms
proof (induction c inp rule: update_blocks.induct)
  case (1 c inp)
  show ?case
  proof (cases "136 \<le> length inp")
    case True
    let ?m = "overwrite 0 (take 136 inp) (message c)"
    have m: "?m = take 136 inp" using "1.prems" True by (simp add: overwrite_def)
    let ?c = "c\<lparr>message := ?m, ctx_hash := process_block 17 (ctx_hash c) ?m\<rparr>"
    have u: "update_blocks c inp = update_blocks ?c (drop 136 inp)"
      using True by (subst update_blocks.simps) (simp add: Let_def)
    have a: "absorb 136 (ctx_hash c) inp = absorb 136 (ctx_hash ?c) (drop 136 inp)"
      using True m by (subst absorb.simps) simp
    have "length (message ?c) = 136" using m True by simp
    note ih = "1.IH"(1) [OF True refl this]
    have "length (drop 136 inp) mod 136 = length inp mod 136" using True by (simp add: le_mod_geq)
    with ih u a show ?thesis by simp
  next
    case False
    with "1.prems" show ?thesis
      by (subst (1 2 3 4) update_blocks.simps) (simp add: absorb_short overwrite_def)
  qed
qed

text \<open>An update that starts on a block boundary, one that stays inside the block, and one that fills it.\<close>

lemma update_from_boundary:
  assumes "length (message c) = 136" "absorb 136 (replicate 25 0) data = (ctx_hash c, [])"
  shows "represents (update_blocks (c\<lparr>rest := length inp mod 136\<rparr>) inp) (data @ inp)"
  using update_blocks_absorb [of "c\<lparr>rest := length inp mod 136\<rparr>" inp] assms absorb_append [OF _ assms(2), of inp]
  by (simp add: represents_def)

lemma update_inside:
  assumes "length (message c) = 136" "rest c + length inp < 136"
    and "absorb 136 (replicate 25 0) (data @ inp) = absorb 136 (ctx_hash c) (take (rest c) (message c) @ inp)"
  shows "represents (c\<lparr>rest := rest c + length inp, message := overwrite (rest c) inp (message c)\<rparr>) (data @ inp)"
  using assms take_overwrite [of "rest c" "message c" inp]
  by (simp add: represents_def length_overwrite absorb_short)

lemma update_past:
  assumes "length (message c) = 136" "rest c < 136" "136 - rest c \<le> length inp"
    and "absorb 136 (replicate 25 0) (data @ inp) = absorb 136 (ctx_hash c) (take (rest c) (message c) @ inp)"
  defines "m \<equiv> overwrite (rest c) (take (136 - rest c) inp) (message c)"
  shows "represents (update_blocks (c\<lparr>rest := (rest c + length inp) mod 136, message := m,
     ctx_hash := process_block 17 (ctx_hash c) m\<rparr>) (drop (136 - rest c) inp)) (data @ inp)"
proof -
  let ?d = "c\<lparr>rest := (rest c + length inp) mod 136, message := m, ctx_hash := process_block 17 (ctx_hash c) m\<rparr>"
  let ?i = "drop (136 - rest c) inp"
  have m: "m = take (rest c) (message c) @ take (136 - rest c) inp" using assms(1-3) by (simp add: m_def overwrite_def)
  then have l: "length m = 136" using assms(1-3) by simp
  have "absorb 136 (ctx_hash c) (m @ ?i) = absorb 136 (ctx_hash ?d) ?i"
    using l absorb_block [of 136 m "ctx_hash c" ?i] by simp
  moreover have "m @ ?i = take (rest c) (message c) @ inp" by (simp add: m)
  ultimately have "absorb 136 (replicate 25 0) (data @ inp) = absorb 136 (ctx_hash ?d) ?i" using assms(4) by simp
  moreover have "length ?i mod 136 = (rest c + length inp) mod 136"
  proof -
    have "rest c + length inp = 136 + length ?i" using assms(2,3) by simp
    then show ?thesis by (simp only: mod_add_self1)
  qed
  moreover have "length (message ?d) = 136" using l by simp
  note update_blocks_absorb [OF this, of ?i]
  ultimately show ?thesis by (auto simp: represents_def)
qed

lemma keccak_update_represents:
  assumes "represents c data" "length inp < 2 ^ 63"
  shows "\<exists>c'. keccak_update c inp = Inr c' \<and> represents c' (data @ inp)"
proof -
  have r: "rest c < 136" "length (message c) = 136"
    and a: "absorb 136 (replicate 25 0) (data @ inp) = absorb 136 (ctx_hash c) (take (rest c) (message c) @ inp)"
    using assms(1) absorb_append [of 136 "replicate 25 0" data] by (simp_all add: represents_def)
  have wrap: "(rest c + length inp) mod 2 ^ 64 mod 136 = (rest c + length inp) mod 136"
    using r(1) assms(2) by simp
  consider "rest c = 0" | "rest c \<noteq> 0" "rest c + length inp < 136" | "rest c \<noteq> 0" "136 - rest c \<le> length inp"
    using r(1) by linarith
  then show ?thesis
  proof cases
    case 1
    moreover have "keccak_update c inp = Inr (update_blocks (c\<lparr>rest := length inp mod 136\<rparr>) inp)"
      using 1 wrap by (simp add: keccak_update_def Let_def)
    moreover have "absorb 136 (replicate 25 0) data = (ctx_hash c, [])"
      using assms(1) 1 by (simp add: represents_def)
    ultimately show ?thesis using update_from_boundary [OF r(2)] by blast
  next
    case 2
    then have "keccak_update c inp =
        Inr (c\<lparr>rest := rest c + length inp, message := overwrite (rest c) inp (message c)\<rparr>)"
      using r wrap by (simp add: keccak_update_def Let_def small_not_bit31)
    then show ?thesis using update_inside [OF r(2) 2(2) a] by blast
  next
    case 3
    then show ?thesis
      using update_past [OF r(2,1) 3(2) a] r wrap by (simp add: keccak_update_def Let_def small_not_bit31)
  qed
qed

lemma last_block_136:
  assumes "length r < 136" "length m = 136" "take (length r) m = r"
  shows "take 136 (last_block 136 r) =
    (let m = overwrite (length r) (replicate (136 - length r) 0) m;
         m = m[length r := m ! length r OR 1] in m[135 := m ! 135 OR 0x80])"
proof -
  have o: "overwrite (length r) (replicate (136 - length r) 0) m = r @ replicate (136 - length r) 0"
    using assms by (simp add: overwrite_def)
  show ?thesis unfolding o last_block_def Let_def
    using assms(1) by (intro nth_equalityI) (auto simp: nth_list_update nth_append)
qed

lemma process_block_take:
  "process_block w st (take (8 * w) b) = process_block w st b"
proof -
  have "foldl (\<lambda>s i. s[i := s ! i XOR le_to_word (take 8 (drop (8 * i) (take (8 * w) b)))]) st [0..<w]
      = foldl (\<lambda>s i. s[i := s ! i XOR le_to_word (take 8 (drop (8 * i) b))]) st [0..<w]"
  proof (rule foldl_cong)
    fix s i assume "i \<in> set [0..<w]"
    then have "8 * i + 8 \<le> 8 * w" by simp
    then have "take 8 (drop (8 * i) (take (8 * w) b)) = take 8 (drop (8 * i) b)"
      by (simp add: take_drop min_def add.commute)
    then show "s[i := s ! i XOR le_to_word (take 8 (drop (8 * i) (take (8 * w) b)))]
        = s[i := s ! i XOR le_to_word (take 8 (drop (8 * i) b))]" by simp
  qed simp_all
  then show ?thesis by (simp add: process_block_def)
qed

lemma keccak_32:
  "absorb 136 (replicate 25 0) inp = (st, r) \<Longrightarrow>
   keccak inp 32 = Inr (state_bytes (process_block 17 st (last_block 136 r)) 32)"
  using absorb_rest [of 136 "replicate 25 0" inp st r] by (simp add: keccak_def)

lemma keccak_finish_represents:
  assumes "represents c data"
  shows "keccak data 32 = Inr (fst (keccak_finish c))"
proof -
  have r: "rest c < 136" "length (message c) = 136"
    and a: "absorb 136 (replicate 25 0) data = (ctx_hash c, take (rest c) (message c))"
    using assms by (simp_all add: represents_def)
  show ?thesis
    using last_block_136 [of "take (rest c) (message c)" "message c"] r keccak_32 [OF a]
      process_block_take [of 17 "ctx_hash c" "last_block 136 (take (rest c) (message c))"]
    by (simp add: keccak_finish_def small_not_bit31 Let_def min_def)
qed

fun keccak_updates :: "KECCAK_CTX \<Rightarrow> bytes list \<Rightarrow> KECCAK_CTX result" where
  "keccak_updates c [] = Inr c"
| "keccak_updates c (x # xs) = bindr (keccak_update c x) (\<lambda>c'. keccak_updates c' xs)"

lemma keccak_updates_represents:
  "represents c data \<Longrightarrow> \<forall>x \<in> set xs. length x < 2 ^ 63 \<Longrightarrow>
   \<exists>c'. keccak_updates c xs = Inr c' \<and> represents c' (data @ concat xs)"
proof (induction xs arbitrary: c data)
  case (Cons x xs)
  obtain c' where "keccak_update c x = Inr c'" "represents c' (data @ x)"
    using keccak_update_represents [OF Cons.prems(1), of x] Cons.prems(2) by auto
  with Cons.IH [of c' "data @ x"] Cons.prems(2) show ?case by simp
qed simp

text \<open>C32: Streaming agrees with one-shot hashing: feeding any split of a message to keccak_update, in pieces of
  any length, and finishing gives the 32 bytes that keccak gives for the whole message.\<close>

theorem keccak_streaming_agrees:
  assumes "\<forall>x \<in> set chunks. length x < 2 ^ 63"
  shows "bindr (keccak_updates keccak_init chunks) (\<lambda>c. Inr (fst (keccak_finish c))) = keccak (concat chunks) 32"
proof -
  obtain c where "keccak_updates keccak_init chunks = Inr c" "represents c (concat chunks)"
    using keccak_updates_represents [OF represents_init assms] by auto
  then show ?thesis by (simp add: keccak_finish_represents)
qed

theorem keccak_streaming_agrees_witness:
  "bindr (keccak_updates keccak_init [replicate 100 1, [], replicate 40 2]) (\<lambda>c. Inr (fst (keccak_finish c)))
   = keccak (replicate 100 1 @ replicate 40 2) 32"
  using keccak_streaming_agrees [of "[replicate 100 1, [], replicate 40 2]"] by simp

lemma keccak_Inr_length:
  "keccak inp 32 = Inr h \<Longrightarrow> arr32 h"
proof -
  assume h: "keccak inp 32 = Inr h"
  obtain st r where a: "absorb 136 (replicate 25 0) inp = (st, r)" by (cases "absorb 136 (replicate 25 0) inp")
  have "length st = 25" using length_absorb [OF a] by simp
  then have "length (process_block 17 st (last_block 136 r)) = 25" by simp
  with h keccak_32 [OF a] show ?thesis
    by (auto simp: arr32_def state_bytes_def length_concat o_def sum_list_triv)
qed

lemma keccak_32_total: "\<exists>h. keccak inp 32 = Inr h \<and> arr32 h"
proof -
  obtain st r where a: "absorb 136 (replicate 25 0) inp = (st, r)" by (cases "absorb 136 (replicate 25 0) inp")
  with keccak_32 [OF a] keccak_Inr_length show ?thesis by blast
qed

lemma keccak_returns_iff:
  "0 < m \<Longrightarrow> m \<le> 64 \<Longrightarrow> (\<exists>h. keccak inp m = Inr h) \<longleftrightarrow> m \<in> {32, 40, 48, 56, 64}"
proof -
  assume m: "0 < m" "m \<le> 64"
  obtain st r where a: "absorb (nat (200 - 2 * m)) (replicate 25 0) inp = (st, r)"
    by (cases "absorb (nat (200 - 2 * m)) (replicate 25 0) inp")
  have pos: "0 < nat (200 - 2 * m)" using m by simp
  then have "length r < nat (200 - 2 * m)" using absorb_rest [OF pos a] by simp
  then have "(\<exists>h. keccak inp m = Inr h) \<longleftrightarrow> m mod 8 = 0 \<and> nat (200 - 2 * m) \<le> 144 \<and> nat (200 - 2 * m) div 8 * 8 \<le> 144"
    using m a by (auto simp: keccak_def Let_def)
  also have "\<dots> \<longleftrightarrow> m mod 8 = 0 \<and> 28 \<le> m" using m by auto
  also have "\<dots> \<longleftrightarrow> m \<in> {32, 40, 48, 56, 64}" using m by auto
  finally show ?thesis .
qed

section \<open>The hash of blocks and transactions\<close>

text \<open>vendor crypto/hash.c: the first 32 bytes of the 200-byte state.\<close>

definition hash_process :: "bytes \<Rightarrow> bytes result" where
  "hash_process buf = keccak1600 buf"

definition cn_fast_hash :: "bytes \<Rightarrow> bytes result" where
  "cn_fast_hash data = bindr (hash_process data) (\<lambda>state. Inr (take 32 state))"

lemma take_state_bytes: "length st = 25 \<Longrightarrow> take 32 (state_bytes st 200) = state_bytes st 32"
proof -
  assume "length st = 25"
  then have "state_bytes st 200 = concat (map (word_to_le 8) (take 4 st)) @ concat (map (word_to_le 8) (drop 4 st))"
    unfolding state_bytes_def by (simp flip: concat_append map_append)
  moreover have "length (concat (map (word_to_le 8) (take 4 st))) = 32"
    using \<open>length st = 25\<close> by (simp add: length_concat o_def sum_list_triv)
  ultimately show ?thesis by (simp add: state_bytes_def)
qed

lemma cn_fast_hash_keccak: "cn_fast_hash data = keccak data 32"
proof -
  obtain st r where a: "absorb 136 (replicate 25 0) data = (st, r)" by (cases "absorb 136 (replicate 25 0) data")
  have "length (process_block 17 st (last_block 136 r)) = 25" using length_absorb [OF a] by simp
  then show ?thesis
    using a keccak_32 [OF a] absorb_rest [of 136 "replicate 25 0" data st r]
    by (simp add: cn_fast_hash_def hash_process_def keccak1600_def keccak_def take_state_bytes)
qed

text \<open>It always returns; the value is \<open>fast_hash\<close>.\<close>

definition fast_hash :: "bytes \<Rightarrow> bytes" where
  "fast_hash data = (case cn_fast_hash data of Inl _ \<Rightarrow> [] | Inr h \<Rightarrow> h)"

lemma cn_fast_hash_eq: "cn_fast_hash data = Inr (fast_hash data)"
  and length_fast_hash [simp]: "length (fast_hash data) = 32"
  using keccak_32_total [of data] by (auto simp: fast_hash_def cn_fast_hash_keccak arr32_def)

end
