(* ===== verification/TreeHash.thy ===== *)
theory TreeHash
  imports Keccak
begin

text \<open>
  vendor/monero/src/crypto/tree-hash.c: the Merkle root of a block's transactions and the proofs that a
  transaction is in it. The arrays of hashes are lists, an in-place level is a loop over its target
  indices \<open>j\<close> with the source index \<open>i\<close> beside it, and a failed \<open>assert\<close> aborts. The buffer \<open>branch\<close> is
  the list of what is written to it, so \<open>*depth\<close> is its length.
\<close>

section \<open>The root\<close>

function pow_loop :: "nat \<Rightarrow> nat \<Rightarrow> nat" where
  "pow_loop num pow = (if 0 < pow \<and> pow < num then pow_loop num (2 * pow) else pow)"
  by pat_completeness auto
termination by (relation "measure (\<lambda>(num, pow). num - pow)") auto

declare pow_loop.simps [simp del]

definition tree_hash_cnt :: "nat \<Rightarrow> nat result" where
  "tree_hash_cnt num = (if num < 3 \<or> num > 0x10000000 then Inl Aborted else Inr (pow_loop num 2 div 2))"

text \<open>\<open>cn_fast_hash(xs + i * HASH_SIZE, 64, ...)\<close>\<close>

definition hash_two :: "bytes list \<Rightarrow> nat \<Rightarrow> bytes result" where
  "hash_two xs i = bindr (nth_r xs i) (\<lambda>a. bindr (nth_r xs (i + 1)) (\<lambda>b. cn_fast_hash (a @ b)))"

fun bottom_loop :: "bytes list \<Rightarrow> nat list \<Rightarrow> nat \<Rightarrow> bytes list \<Rightarrow> (nat \<times> bytes list) result" where
  "bottom_loop hashes [] i ints = Inr (i, ints)"
| "bottom_loop hashes (j # js) i ints = bindr (hash_two hashes i) (\<lambda>h. bottom_loop hashes js (i + 2) (ints[j := h]))"

fun level_loop :: "nat list \<Rightarrow> nat \<Rightarrow> bytes list \<Rightarrow> bytes list result" where
  "level_loop [] i ints = Inr ints"
| "level_loop (j # js) i ints = bindr (hash_two ints i) (\<lambda>h. level_loop js (i + 2) (ints[j := h]))"

function up_loop :: "nat \<Rightarrow> bytes list \<Rightarrow> bytes list result" where
  "up_loop cnt ints =
     (if cnt > 2 then let cnt = cnt div 2 in bindr (level_loop [0..<cnt] 0 ints) (up_loop cnt) else Inr ints)"
  by pat_completeness auto
termination by (relation "measure fst") auto

declare up_loop.simps [simp del]

definition tree_hash :: "bytes list \<Rightarrow> bytes result" where
  "tree_hash hashes =
     (let num = length hashes in
      if num = 0 then Inl Aborted
      else if num = 1 then nth_r hashes 0
      else if num = 2 then hash_two hashes 0
      else bindr (tree_hash_cnt num) (\<lambda>cnt.
        let s = 2 * cnt - num; ints = take s hashes @ replicate (cnt - s) zeros32 in
        bindr (bottom_loop hashes [s..<cnt] s ints) (\<lambda>(i, ints).
        if i \<noteq> num then Inl Aborted
        else bindr (up_loop cnt ints) (\<lambda>ints. hash_two ints 0))))"

section \<open>The place of a leaf\<close>

definition path_bit :: "u32 \<Rightarrow> bool \<Rightarrow> u32" where
  "path_bit path right = push_bit 1 path OR (if right then 1 else 0)"

fun path_loop :: "nat list \<Rightarrow> nat \<Rightarrow> nat \<times> u32 \<Rightarrow> nat \<times> u32" where
  "path_loop [] i st = st"
| "path_loop (j # js) i (idx, path) =
     path_loop js (i + 2) (if idx = i \<or> idx = i + 1 then (j, path_bit path (idx \<noteq> i)) else (idx, path))"

function path_up :: "nat \<Rightarrow> nat \<times> u32 \<Rightarrow> nat \<times> u32" where
  "path_up cnt st = (if cnt > 2 then let cnt = cnt div 2 in path_up cnt (path_loop [0..<cnt] 0 st) else st)"
  by pat_completeness auto
termination by (relation "measure fst") auto

declare path_up.simps [simp del]

text \<open>The returned flag is None or Some; the path is the out-parameter.\<close>

definition tree_path :: "nat \<Rightarrow> nat \<Rightarrow> u32 option result" where
  "tree_path num idx =
     (if num = 0 then Inr None
      else if num = 1 then Inr (Some 0)
      else if num = 2 then Inr (Some (if idx = 0 then 0 else 1))
      else bindr (tree_hash_cnt num) (\<lambda>cnt.
        let s = 2 * cnt - num in
        if s + 2 * length [s..<cnt] \<noteq> num then Inl Aborted
        else let (idx, path) = path_up cnt (path_loop [s..<cnt] s (idx, 0)) in
          Inr (Some (if idx = 0 \<or> idx = 1 then path_bit path (idx \<noteq> 0) else path))))"

section \<open>Proofs of membership\<close>

type_synonym branch_state = "nat \<times> bytes list \<times> u32"

definition note_sibling :: "bytes list \<Rightarrow> nat \<Rightarrow> nat \<Rightarrow> branch_state \<Rightarrow> branch_state result" where
  "note_sibling xs i j st =
     (let (idx, branch, path) = st in
      if idx = i \<or> idx = i + 1
      then bindr (nth_r xs (if idx = i then i + 1 else i)) (\<lambda>x. Inr (j, branch @ [x], path_bit path (idx \<noteq> i)))
      else Inr st)"

fun branch_bottom :: "bytes list \<Rightarrow> nat list \<Rightarrow> nat \<Rightarrow> branch_state \<Rightarrow> bytes list \<Rightarrow> (nat \<times> branch_state \<times> bytes list) result" where
  "branch_bottom hashes [] i st ints = Inr (i, st, ints)"
| "branch_bottom hashes (j # js) i st ints =
     bindr (note_sibling hashes i j st) (\<lambda>st.
     bindr (hash_two hashes i) (\<lambda>h. branch_bottom hashes js (i + 2) st (ints[j := h])))"

fun branch_level :: "nat list \<Rightarrow> nat \<Rightarrow> branch_state \<Rightarrow> bytes list \<Rightarrow> (branch_state \<times> bytes list) result" where
  "branch_level [] i st ints = Inr (st, ints)"
| "branch_level (j # js) i st ints =
     bindr (note_sibling ints i j st) (\<lambda>st.
     bindr (hash_two ints i) (\<lambda>h. branch_level js (i + 2) st (ints[j := h])))"

function branch_up :: "nat \<Rightarrow> branch_state \<Rightarrow> bytes list \<Rightarrow> (branch_state \<times> bytes list) result" where
  "branch_up cnt st ints =
     (if cnt > 2 then let cnt = cnt div 2 in bindr (branch_level [0..<cnt] 0 st ints) (\<lambda>(st, ints). branch_up cnt st ints)
      else Inr (st, ints))"
  by pat_completeness auto
termination by (relation "measure fst") auto

declare branch_up.simps [simp del]

text \<open>\<open>tree_branch\<close>: the branch and the path of the first leaf with the hash, None where it returns false.\<close>

definition tree_branch :: "bytes list \<Rightarrow> bytes \<Rightarrow> (bytes list \<times> u32) option result" where
  "tree_branch hashes hash =
     (let num = length hashes; idx = length (takeWhile (\<lambda>x. hash \<noteq> x) hashes) in
      if num = 0 then Inr None
      else if idx = num then Inr None
      else if num = 1 then Inr (Some ([], 0))
      else if num = 2 then bindr (nth_r hashes (idx XOR 1)) (\<lambda>x. Inr (Some ([x], if idx = 0 then 0 else 1)))
      else bindr (tree_hash_cnt num) (\<lambda>cnt.
        let s = 2 * cnt - num; ints = take s hashes @ replicate (cnt - s) zeros32 in
        bindr (branch_bottom hashes [s..<cnt] s (idx, [], 0) ints) (\<lambda>(i, st, ints).
        if i \<noteq> num then Inl Aborted
        else bindr (branch_up cnt st ints) (\<lambda>((idx, branch, path), ints).
        if idx = 0 \<or> idx = 1
        then bindr (nth_r ints (if idx = 0 then 1 else 0)) (\<lambda>x. Inr (Some (branch @ [x], path_bit path (idx \<noteq> 0))))
        else Inr (Some (branch, path))))))"

fun branch_hash_loop :: "bytes list \<Rightarrow> nat \<Rightarrow> u32 \<Rightarrow> nat list \<Rightarrow> bytes \<Rightarrow> bytes result" where
  "branch_hash_loop branch depth path [] partial = Inr partial"
| "branch_hash_loop branch depth path (d # ds) partial =
     (if depth - d - 1 \<ge> 32 then Inl ShiftRange
      else bindr (nth_r branch d) (\<lambda>x.
        bindr (cn_fast_hash (if drop_bit (depth - d - 1) path AND 1 \<noteq> 0 then x @ partial else partial @ x))
          (branch_hash_loop branch depth path ds)))"

definition tree_branch_hash :: "bytes \<Rightarrow> bytes list \<Rightarrow> nat \<Rightarrow> u32 \<Rightarrow> bytes result" where
  "tree_branch_hash hash branch depth path = branch_hash_loop branch depth path [0..<depth] hash"

definition is_branch_in_tree :: "bytes \<Rightarrow> bytes \<Rightarrow> bytes list \<Rightarrow> nat \<Rightarrow> u32 \<Rightarrow> bool result" where
  "is_branch_in_tree hash root branch depth path =
     bindr (tree_branch_hash hash branch depth path) (\<lambda>res. Inr (res = root))"

section \<open>Binary trees of hashes\<close>

text \<open>
  The specification: the root of 2^k leaves by halving, one level of it, the way from a leaf up (the
  side and the sibling at each level) and what following it computes.
\<close>

fun merkle :: "('a \<Rightarrow> 'a \<Rightarrow> 'a) \<Rightarrow> nat \<Rightarrow> 'a list \<Rightarrow> 'a" where
  "merkle H 0 xs = hd xs"
| "merkle H (Suc k) xs = H (merkle H k (take (2 ^ k) xs)) (merkle H k (drop (2 ^ k) xs))"

definition pairs :: "('a \<Rightarrow> 'a \<Rightarrow> 'a) \<Rightarrow> 'a list \<Rightarrow> 'a list" where
  "pairs H xs = map (\<lambda>k. H (xs ! (2 * k)) (xs ! (2 * k + 1))) [0..<length xs div 2]"

definition sibling :: "nat \<Rightarrow> nat" where
  "sibling i = (if even i then i + 1 else i - 1)"

fun way_up :: "('a \<Rightarrow> 'a \<Rightarrow> 'a) \<Rightarrow> nat \<Rightarrow> 'a list \<Rightarrow> nat \<Rightarrow> (bool \<times> 'a) list" where
  "way_up H 0 xs i = []"
| "way_up H (Suc k) xs i = (odd i, xs ! sibling i) # way_up H k (pairs H xs) (i div 2)"

fun climb :: "('a \<Rightarrow> 'a \<Rightarrow> 'a) \<Rightarrow> 'a \<Rightarrow> (bool \<times> 'a) list \<Rightarrow> 'a" where
  "climb H x [] = x"
| "climb H x ((right, y) # ps) = climb H (if right then H y x else H x y) ps"

lemma sibling_less: "i < 2 * n \<Longrightarrow> sibling i < 2 * n"
  by (auto simp: sibling_def elim!: evenE)

lemma length_pairs [simp]: "length (pairs H xs) = length xs div 2"
  by (simp add: pairs_def)

lemma nth_pairs [simp]: "k < length xs div 2 \<Longrightarrow> pairs H xs ! k = H (xs ! (2 * k)) (xs ! (2 * k + 1))"
  by (simp add: pairs_def)

lemma take_pairs: "take n (pairs H xs) = pairs H (take (2 * n) xs)"
  by (rule nth_equalityI) auto

lemma drop_pairs: "drop n (pairs H xs) = pairs H (drop (2 * n) xs)"
  by (rule nth_equalityI) (auto simp: algebra_simps)

lemma merkle_pairs: "length xs = 2 ^ Suc k \<Longrightarrow> merkle H (Suc k) xs = merkle H k (pairs H xs)"
proof (induction k arbitrary: xs)
  case 0
  then obtain a b where "xs = [a, b]" by (auto simp: length_Suc_conv numeral_2_eq_2)
  then show ?case by (simp add: pairs_def)
next
  case (Suc k)
  have "merkle H (Suc k) (take (2 ^ Suc k) xs) = merkle H k (pairs H (take (2 ^ Suc k) xs))"
    "merkle H (Suc k) (drop (2 ^ Suc k) xs) = merkle H k (pairs H (drop (2 ^ Suc k) xs))"
    using Suc.prems by (intro Suc.IH; simp)+
  then have "merkle H (Suc (Suc k)) xs = H (merkle H k (pairs H (take (2 ^ Suc k) xs))) (merkle H k (pairs H (drop (2 ^ Suc k) xs)))"
    by (simp only: merkle.simps(2) [of H "Suc k"])
  also have "\<dots> = merkle H (Suc k) (pairs H xs)" by (simp add: take_pairs drop_pairs)
  finally show ?case .
qed

text \<open>Following the way up from a leaf gives the root.\<close>

lemma pairs_parent: "i < 2 * n \<Longrightarrow> length xs = 2 * n \<Longrightarrow>
   pairs H xs ! (i div 2) = (if odd i then H (xs ! sibling i) (xs ! i) else H (xs ! i) (xs ! sibling i))"
  by (auto simp: sibling_def elim!: oddE evenE)

lemma climb_way_up: "length xs = 2 ^ k \<Longrightarrow> i < 2 ^ k \<Longrightarrow> climb H (xs ! i) (way_up H k xs i) = merkle H k xs"
proof (induction k arbitrary: xs i)
  case 0
  then show ?case by (cases xs) simp_all
next
  case (Suc k)
  have "climb H (pairs H xs ! (i div 2)) (way_up H k (pairs H xs) (i div 2)) = merkle H k (pairs H xs)"
    using Suc.prems by (intro Suc.IH) auto
  then show ?case
    using Suc.prems merkle_pairs [of xs k H] pairs_parent [of i "2 ^ k" xs H] by (cases "odd i") simp_all
qed

section \<open>The loops compute the root\<close>

definition hash64 :: "bytes \<Rightarrow> bytes \<Rightarrow> bytes" where
  "hash64 a b = fast_hash (a @ b)"

lemma hash_two_eq [simp]: "i + 1 < length xs \<Longrightarrow> hash_two xs i = Inr (hash64 (xs ! i) (xs ! (i + 1)))"
  by (simp add: hash_two_def hash64_def cn_fast_hash_eq)

lemma upt_Suc_left: "[j..<j + Suc n] = j # [Suc j..<Suc j + n]"
  by (simp add: upt_rec)

lemma level_loop_eq: "2 * (j + n) \<le> length ints \<Longrightarrow>
   level_loop [j..<j + n] (2 * j) ints =
     Inr (take j ints @ map (\<lambda>k. hash64 (ints ! (2 * k)) (ints ! (2 * k + 1))) [j..<j + n] @ drop (j + n) ints)"
proof (induction n arbitrary: j ints)
  case (Suc n)
  let ?h = "hash64 (ints ! (2 * j)) (ints ! (2 * j + 1))"
  have "level_loop [Suc j..<Suc j + n] (2 * Suc j) (ints[j := ?h]) =
      Inr (take (Suc j) (ints[j := ?h]) @
        map (\<lambda>k. hash64 (ints[j := ?h] ! (2 * k)) (ints[j := ?h] ! (2 * k + 1))) [Suc j..<Suc j + n] @ drop (Suc j + n) (ints[j := ?h]))"
    using Suc.prems by (intro Suc.IH) simp
  moreover have "take (Suc j) (ints[j := ?h]) = take j ints @ [?h]"
    using Suc.prems by (simp add: take_Suc_conv_app_nth)
  moreover have "map (\<lambda>k. hash64 (ints[j := ?h] ! (2 * k)) (ints[j := ?h] ! (2 * k + 1))) [Suc j..<Suc j + n]
      = map (\<lambda>k. hash64 (ints ! (2 * k)) (ints ! (2 * k + 1))) [Suc j..<Suc j + n]"
    by (intro map_cong) (auto simp: nth_list_update)
  ultimately show ?case using Suc.prems unfolding upt_Suc_left by (simp del: upt_Suc)
qed simp

lemma level_loop_pairs:
  assumes "2 * c \<le> length ints"
  shows "level_loop [0..<c] 0 ints = Inr (pairs hash64 (take (2 * c) ints) @ drop c ints)"
proof -
  have "map (\<lambda>k. hash64 (ints ! (2 * k)) (ints ! (2 * k + 1))) [0..<c] = pairs hash64 (take (2 * c) ints)"
    using assms by (intro nth_equalityI) auto
  then show ?thesis using level_loop_eq [of 0 c ints] assms by simp
qed

lemma bottom_loop_eq: "i + 2 * n \<le> length hashes \<Longrightarrow> j + n \<le> length ints \<Longrightarrow>
   bottom_loop hashes [j..<j + n] i ints =
     Inr (i + 2 * n, take j ints @ pairs hash64 (take (2 * n) (drop i hashes)) @ drop (j + n) ints)"
proof (induction n arbitrary: i j ints)
  case 0
  then show ?case by (simp add: pairs_def)
next
  case (Suc n)
  let ?h = "hash64 (hashes ! i) (hashes ! (i + 1))"
  have "bottom_loop hashes [Suc j..<Suc j + n] (i + 2) (ints[j := ?h]) =
      Inr (i + 2 + 2 * n, take (Suc j) (ints[j := ?h]) @ pairs hash64 (take (2 * n) (drop (i + 2) hashes)) @ drop (Suc j + n) (ints[j := ?h]))"
    using Suc.prems by (intro Suc.IH) simp_all
  moreover have "take (Suc j) (ints[j := ?h]) = take j ints @ [?h]"
    using Suc.prems by (simp add: take_Suc_conv_app_nth)
  moreover have "pairs hash64 (take (2 * Suc n) (drop i hashes)) = ?h # pairs hash64 (take (2 * n) (drop (i + 2) hashes))"
  proof (rule nth_equalityI)
    fix k assume "k < length (pairs hash64 (take (2 * Suc n) (drop i hashes)))"
    then show "pairs hash64 (take (2 * Suc n) (drop i hashes)) ! k = (?h # pairs hash64 (take (2 * n) (drop (i + 2) hashes))) ! k"
      using Suc.prems by (cases k) (auto simp: algebra_simps)
  qed (use Suc.prems in simp)
  ultimately show ?case using Suc.prems unfolding upt_Suc_left by simp
qed

lemma one_less_double [simp]: "Suc 0 < 2 * 2 ^ k"
  by (induction k) auto

lemma up_loop_root:
  "2 ^ Suc k \<le> length ints \<Longrightarrow> \<exists>ints'. up_loop (2 ^ Suc k) ints = Inr ints' \<and> length ints' = length ints
     \<and> hash64 (ints' ! 0) (ints' ! 1) = merkle hash64 (Suc k) (take (2 ^ Suc k) ints)"
proof (induction k arbitrary: ints)
  case 0
  then show ?case by (subst up_loop.simps) (cases ints rule: remdups_adj.cases; simp)
next
  case (Suc k)
  let ?next = "pairs hash64 (take (2 ^ Suc (Suc k)) ints) @ drop (2 ^ Suc k) ints"
  have "level_loop [0..<2 ^ Suc k] 0 ints = Inr ?next"
    using level_loop_pairs [of "2 ^ Suc k" ints] Suc.prems by simp
  then have u: "up_loop (2 ^ Suc (Suc k)) ints = up_loop (2 ^ Suc k) ?next"
    by (subst up_loop.simps) (auto simp: Let_def)
  have l: "length ?next = length ints" using Suc.prems by (simp add: min_def)
  moreover have "take (2 ^ Suc k) ?next = pairs hash64 (take (2 ^ Suc (Suc k)) ints)" using Suc.prems by (simp add: min_def)
  ultimately obtain ints' where "up_loop (2 ^ Suc k) ?next = Inr ints'" "length ints' = length ints"
    "hash64 (ints' ! 0) (ints' ! 1) = merkle hash64 (Suc k) (pairs hash64 (take (2 ^ Suc (Suc k)) ints))"
    using Suc.IH [of ?next] Suc.prems by auto
  with u merkle_pairs [of "take (2 ^ Suc (Suc k)) ints" "Suc k" hash64] Suc.prems show ?case by (simp add: min_def)
qed

lemma pow_loop_eq: "j \<le> m \<Longrightarrow> n \<le> 2 ^ m \<Longrightarrow> (j < m \<longrightarrow> 2 ^ (m - 1) < n) \<Longrightarrow> pow_loop n (2 ^ j) = 2 ^ m"
proof (induction "m - j" arbitrary: j)
  case 0
  then show ?case by (subst pow_loop.simps) simp
next
  case (Suc d)
  then have "(2 :: nat) ^ j \<le> 2 ^ (m - 1)" by (intro power_increasing) auto
  also have "\<dots> < n" using Suc by simp
  finally have "pow_loop n (2 ^ j) = pow_loop n (2 ^ Suc j)" by (subst pow_loop.simps) simp
  also have "\<dots> = 2 ^ m" using Suc by (intro Suc.hyps(1)) auto
  finally show ?case .
qed

lemma tree_hash_cnt_eq:
  assumes "2 ^ k < n" "n \<le> 2 ^ Suc k" "3 \<le> n" "n \<le> 2 ^ 28"
  shows "tree_hash_cnt n = Inr (2 ^ k)" "1 \<le> k" "k < 28"
proof -
  show "1 \<le> k" using assms(2,3) by (cases k) auto
  then have "pow_loop n (2 ^ 1) = 2 ^ Suc k" using assms by (intro pow_loop_eq) auto
  then show "tree_hash_cnt n = Inr (2 ^ k)" using assms(3,4) by (simp add: tree_hash_cnt_def)
  have "(2 :: nat) ^ k < 2 ^ 28" using assms(1,4) by linarith
  then show "k < 28" by (rule power_less_imp_less_exp [rotated]) simp
qed

text \<open>The 2^k nodes above the last 2n - 2^(k+1) of n leaves.\<close>

definition bottom :: "('a \<Rightarrow> 'a \<Rightarrow> 'a) \<Rightarrow> nat \<Rightarrow> 'a list \<Rightarrow> 'a list" where
  "bottom H k xs = (let s = 2 ^ Suc k - length xs in take s xs @ pairs H (drop s xs))"

lemma length_bottom: "2 ^ k \<le> length xs \<Longrightarrow> length xs \<le> 2 ^ Suc k \<Longrightarrow> length (bottom H k xs) = 2 ^ k"
  by (simp add: bottom_def Let_def)

lemma bottom_array:
  assumes "2 ^ k < length xs" "length xs \<le> 2 ^ Suc k"
  defines "s \<equiv> 2 * 2 ^ k - length xs"
  shows "bottom_loop xs [s..<2 ^ k] s (take s xs @ replicate (2 ^ k - s) zeros32) = Inr (length xs, bottom hash64 k xs)"
proof -
  have "bottom_loop xs [s..<s + (2 ^ k - s)] s (take s xs @ replicate (2 ^ k - s) zeros32) =
      Inr (s + 2 * (2 ^ k - s), take s xs @ pairs hash64 (take (2 * (2 ^ k - s)) (drop s xs)))"
    using assms(1,2) by (subst bottom_loop_eq) (simp_all add: s_def)
  moreover have "s + 2 * (2 ^ k - s) = length xs" "s + (2 ^ k - s) = 2 ^ k" "take (2 * (2 ^ k - s)) (drop s xs) = drop s xs"
    using assms(1,2) by (simp_all add: s_def)
  ultimately show ?thesis using assms(1,2) by (simp add: bottom_def s_def Let_def)
qed

lemma tree_hash_merkle:
  assumes "2 ^ k < length xs" "length xs \<le> 2 ^ Suc k" "length xs \<le> 2 ^ 28"
  shows "tree_hash xs = Inr (merkle hash64 k (bottom hash64 k xs))"
proof (cases "length xs = 2")
  case True
  then have k: "k = 0" using assms(1) by (cases k) auto
  obtain a b where "xs = [a, b]" using True by (auto simp: length_Suc_conv numeral_2_eq_2)
  then show ?thesis by (simp add: k tree_hash_def bottom_def pairs_def)
next
  case False
  then have n: "3 \<le> length xs" using assms(1) one_le_power [of "2 :: nat" k] by linarith
  note cnt = tree_hash_cnt_eq [OF assms(1,2) n assms(3)]
  obtain m where m: "k = Suc m" using cnt(2) by (cases k) auto
  have l: "length (bottom hash64 k xs) = 2 ^ k" by (rule length_bottom [OF less_imp_le [OF assms(1)] assms(2)])
  obtain ints where "up_loop (2 ^ k) (bottom hash64 k xs) = Inr ints" "length ints = 2 ^ k"
    "hash64 (ints ! 0) (ints ! 1) = merkle hash64 k (bottom hash64 k xs)"
    using up_loop_root [of m "bottom hash64 k xs"] l by (auto simp: m)
  moreover have "(1 :: nat) < 2 ^ k" by (simp add: m)
  ultimately show ?thesis
    using n bottom_array [OF assms(1,2)] by (auto simp: tree_hash_def cnt(1) Let_def)
qed

section \<open>Branches are ways up\<close>

lemma branch_level_skip:
  "idx < i \<or> i + 2 * length js \<le> idx \<Longrightarrow>
   branch_level js i (idx, br, p) ints = bindr (level_loop js i ints) (\<lambda>ints'. Inr ((idx, br, p), ints'))"
proof (induction js arbitrary: i ints)
  case (Cons j js)
  then show ?case by (cases "hash_two ints i") (auto simp: note_sibling_def)
qed simp

lemma branch_level_eq:
  "2 * (j + n) \<le> length ints \<Longrightarrow> j \<le> idx div 2 \<Longrightarrow> idx div 2 < j + n \<Longrightarrow>
   branch_level [j..<j + n] (2 * j) (idx, br, p) ints =
     bindr (level_loop [j..<j + n] (2 * j) ints) (\<lambda>ints'. Inr ((idx div 2, br @ [ints ! sibling idx], path_bit p (odd idx)), ints'))"
proof (induction n arbitrary: j ints)
  case (Suc n)
  let ?h = "hash64 (ints ! (2 * j)) (ints ! (2 * j + 1))"
  show ?case
  proof (cases "idx div 2 = j")
    case True
    then have "idx = 2 * j \<or> idx = 2 * j + 1" by arith
    then have "note_sibling ints (2 * j) j (idx, br, p) = Inr (j, br @ [ints ! sibling idx], path_bit p (odd idx))"
      using Suc.prems by (auto simp: note_sibling_def sibling_def)
    then show ?thesis
      using Suc.prems True branch_level_skip [of j "2 * j + 2" "[Suc j..<Suc j + n]"] unfolding upt_Suc_left
      by (simp del: upt_Suc)
  next
    case False
    then have i: "j < idx div 2" using Suc.prems by simp
    then have "idx \<noteq> 2 * j" "idx \<noteq> 2 * j + 1" "sibling idx \<noteq> j" by (auto simp: sibling_def)
    moreover have "branch_level [Suc j..<Suc j + n] (2 * Suc j) (idx, br, p) (ints[j := ?h]) =
        bindr (level_loop [Suc j..<Suc j + n] (2 * Suc j) (ints[j := ?h]))
          (\<lambda>ints'. Inr ((idx div 2, br @ [ints[j := ?h] ! sibling idx], path_bit p (odd idx)), ints'))"
      using Suc.prems i by (intro Suc.IH) auto
    ultimately show ?thesis
      using Suc.prems unfolding upt_Suc_left by (simp add: note_sibling_def del: upt_Suc)
  qed
qed simp

lemma branch_bottom_skip:
  "idx < i \<or> i + 2 * length js \<le> idx \<Longrightarrow>
   branch_bottom hashes js i (idx, br, p) ints =
     bindr (bottom_loop hashes js i ints) (\<lambda>(i', ints'). Inr (i', (idx, br, p), ints'))"
proof (induction js arbitrary: i ints)
  case (Cons j js)
  then show ?case by (cases "hash_two hashes i") (auto simp: note_sibling_def)
qed simp

lemma branch_bottom_eq:
  "i + 2 * n \<le> length hashes \<Longrightarrow> j \<le> i \<Longrightarrow> i \<le> idx \<Longrightarrow> idx < i + 2 * n \<Longrightarrow>
   branch_bottom hashes [j..<j + n] i (idx, br, p) ints =
     bindr (bottom_loop hashes [j..<j + n] i ints) (\<lambda>(i', ints').
       Inr (i', (j + (idx - i) div 2, br @ [hashes ! (i + sibling (idx - i))], path_bit p (odd (idx - i))), ints'))"
proof (induction n arbitrary: i j ints)
  case (Suc n)
  let ?h = "hash64 (hashes ! i) (hashes ! (i + 1))"
  show ?case
  proof (cases "idx = i \<or> idx = i + 1")
    case True
    then have "note_sibling hashes i j (idx, br, p) =
        Inr (j + (idx - i) div 2, br @ [hashes ! (i + sibling (idx - i))], path_bit p (odd (idx - i)))"
      using Suc.prems by (auto simp: note_sibling_def sibling_def)
    moreover have "j + (idx - i) div 2 < i + 2" using True Suc.prems by auto
    ultimately show ?thesis
      using Suc.prems branch_bottom_skip [of "j + (idx - i) div 2" "i + 2" "[Suc j..<Suc j + n]"] unfolding upt_Suc_left
      by (simp del: upt_Suc)
  next
    case False
    then obtain d where d: "idx = i + 2 + d" using Suc.prems le_Suc_ex [of "i + 2" idx] by auto
    have "branch_bottom hashes [Suc j..<Suc j + n] (i + 2) (idx, br, p) (ints[j := ?h]) =
        bindr (bottom_loop hashes [Suc j..<Suc j + n] (i + 2) (ints[j := ?h])) (\<lambda>(i', ints').
          Inr (i', (Suc j + d div 2, br @ [hashes ! (i + 2 + sibling d)], path_bit p (odd d)), ints'))"
      using Suc.prems d Suc.IH [of "i + 2" "Suc j" "ints[j := ?h]"] by simp
    moreover have "sibling (d + 2) = sibling d + 2" by (auto simp: sibling_def elim: oddE)
    ultimately show ?thesis
      using Suc.prems d unfolding upt_Suc_left by (simp add: note_sibling_def del: upt_Suc)
  qed
qed simp

lemma branch_up_eq:
  "2 ^ Suc k \<le> length ints \<Longrightarrow> idx < 2 ^ Suc k \<Longrightarrow>
   \<exists>w idx' ints'. branch_up (2 ^ Suc k) (idx, br, p) ints = Inr ((idx', br @ map snd w, foldl path_bit p (map fst w)), ints')
     \<and> idx' < 2 \<and> 2 \<le> length ints'
     \<and> way_up hash64 (Suc k) (take (2 ^ Suc k) ints) idx = w @ [(odd idx', ints' ! sibling idx')]"
proof (induction k arbitrary: ints idx br p)
  case 0
  then have "branch_up (2 ^ Suc 0) (idx, br, p) ints = Inr ((idx, br, p), ints)" by (subst branch_up.simps) simp
  moreover have "sibling idx < 2" using 0 by (auto simp: sibling_def less_2_cases_iff)
  ultimately show ?case using 0 by (intro exI [of _ "[]"]) simp
next
  case (Suc k)
  let ?next = "pairs hash64 (take (2 ^ Suc (Suc k)) ints) @ drop (2 ^ Suc k) ints"
  let ?b = "(odd idx, ints ! sibling idx)"
  have "branch_level [0..<0 + 2 ^ Suc k] (2 * 0) (idx, br, p) ints =
      Inr ((idx div 2, br @ [ints ! sibling idx], path_bit p (odd idx)), ?next)"
    using level_loop_pairs [of "2 ^ Suc k" ints] Suc.prems by (subst branch_level_eq) auto
  then have u: "branch_up (2 ^ Suc (Suc k)) (idx, br, p) ints =
      branch_up (2 ^ Suc k) (idx div 2, br @ [ints ! sibling idx], path_bit p (odd idx)) ?next"
    by (subst branch_up.simps) (auto simp: Let_def)
  have t: "take (2 ^ Suc k) ?next = pairs hash64 (take (2 ^ Suc (Suc k)) ints)" using Suc.prems by (simp add: min_def)
  have "sibling idx < 2 ^ Suc (Suc k)" using Suc.prems(2) by (auto simp: sibling_def elim!: evenE)
  then have way: "way_up hash64 (Suc (Suc k)) (take (2 ^ Suc (Suc k)) ints) idx =
      ?b # way_up hash64 (Suc k) (pairs hash64 (take (2 ^ Suc (Suc k)) ints)) (idx div 2)" by simp
  have "2 ^ Suc k \<le> length ?next" "idx div 2 < 2 ^ Suc k" using Suc.prems by (auto simp: min_def)
  from Suc.IH [OF this, of "br @ [ints ! sibling idx]" "path_bit p (odd idx)"] obtain w idx' ints'
    where w: "branch_up (2 ^ Suc k) (idx div 2, br @ [ints ! sibling idx], path_bit p (odd idx)) ?next =
        Inr ((idx', (br @ [ints ! sibling idx]) @ map snd w, foldl path_bit (path_bit p (odd idx)) (map fst w)), ints')"
      "idx' < 2" "2 \<le> length ints'"
      "way_up hash64 (Suc k) (pairs hash64 (take (2 ^ Suc (Suc k)) ints)) (idx div 2) = w @ [(odd idx', ints' ! sibling idx')]"
    unfolding t by blast
  then show ?case unfolding u way by (intro exI [of _ "?b # w"] exI [of _ idx'] exI [of _ ints']) simp
qed

text \<open>The way up from a leaf, with the level of the last leaves if it is one of them.\<close>

definition leaf_way :: "('a \<Rightarrow> 'a \<Rightarrow> 'a) \<Rightarrow> nat \<Rightarrow> 'a list \<Rightarrow> nat \<Rightarrow> (bool \<times> 'a) list" where
  "leaf_way H k xs i =
     (let s = 2 ^ Suc k - length xs in
      if i < s then way_up H k (bottom H k xs) i
      else (odd (i - s), xs ! (s + sibling (i - s))) # way_up H k (bottom H k xs) (s + (i - s) div 2))"

lemma length_way_up [simp]: "length (way_up H k xs i) = k"
  by (induction k arbitrary: xs i) auto

lemma length_leaf_way: "length (leaf_way H k xs i) \<le> Suc k"
  by (simp add: leaf_way_def Let_def)

lemma climb_leaf_way:
  assumes "2 ^ k < length xs" "length xs \<le> 2 ^ Suc k" "i < length xs"
  shows "climb H (xs ! i) (leaf_way H k xs i) = merkle H k (bottom H k xs)"
proof -
  define s where "s = 2 ^ Suc k - length xs"
  have l: "length (bottom H k xs) = 2 ^ k" by (rule length_bottom [OF less_imp_le [OF assms(1)] assms(2)])
  have s: "s \<le> length xs" "length (drop s xs) = 2 * (2 ^ k - s)" "s < 2 ^ k" using assms(1,2) by (simp_all add: s_def)
  have b: "bottom H k xs = take s xs @ pairs H (drop s xs)" by (simp add: bottom_def s_def Let_def)
  have w: "leaf_way H k xs i = (if i < s then way_up H k (bottom H k xs) i
      else (odd (i - s), xs ! (s + sibling (i - s))) # way_up H k (bottom H k xs) (s + (i - s) div 2))"
    by (simp add: leaf_way_def s_def Let_def)
  show ?thesis
  proof (cases "i < s")
    case True
    then have "bottom H k xs ! i = xs ! i" "i < 2 ^ k" using s by (simp_all add: b nth_append)
    then show ?thesis using True climb_way_up [OF l, of i H] by (simp add: w)
  next
    case False
    let ?m = "(i - s) div 2"
    have i: "i - s < 2 * (2 ^ k - s)" using False s(2) assms(3) by simp
    then have m: "?m < 2 ^ k - s" "s + ?m < 2 ^ k" using s(3) by auto
    have "bottom H k xs ! (s + ?m) =
        (if odd (i - s) then H (xs ! (s + sibling (i - s))) (xs ! i) else H (xs ! i) (xs ! (s + sibling (i - s))))"
      using pairs_parent [OF i s(2), of H] sibling_less [OF i] False i s m by (simp add: b nth_append)
    then show ?thesis
      using False climb_way_up [OF l m(2), of H] by (cases "odd (i - s)") (simp_all add: w)
  qed
qed

lemma first_index:
  "h \<in> set xs \<Longrightarrow> length (takeWhile (\<lambda>x. h \<noteq> x) xs) < length xs \<and> xs ! length (takeWhile (\<lambda>x. h \<noteq> x) xs) = h"
  by (induction xs) auto

lemma branch_bottom_way:
  assumes "2 ^ k < length xs" "length xs \<le> 2 ^ Suc k" "i < length xs"
  defines "s \<equiv> 2 * 2 ^ k - length xs"
  obtains j v where "branch_bottom xs [s..<2 ^ k] s (i, [], 0) (take s xs @ replicate (2 ^ k - s) zeros32) =
      Inr (length xs, (j, map snd v, foldl path_bit 0 (map fst v)), bottom hash64 k xs)" "j < 2 ^ k"
    "leaf_way hash64 k xs i = v @ way_up hash64 k (bottom hash64 k xs) j"
proof -
  have s: "s + 2 * (2 ^ k - s) = length xs" "s < 2 ^ k" using assms(1,2) by (simp_all add: s_def)
  note bot = bottom_array [OF assms(1,2), folded s_def]
  show ?thesis
  proof (cases "i < s")
    case True
    then show ?thesis
      using branch_bottom_skip [of i s "[s..<2 ^ k]" xs] bot s that [of i "[]"]
      by (simp add: leaf_way_def s_def [symmetric])
  next
    case False
    then have "branch_bottom xs [s..<s + (2 ^ k - s)] s (i, [], 0) (take s xs @ replicate (2 ^ k - s) zeros32) =
        Inr (length xs, (s + (i - s) div 2, [xs ! (s + sibling (i - s))], path_bit 0 (odd (i - s))), bottom hash64 k xs)"
      using assms(3) s bot by (subst branch_bottom_eq) simp_all
    moreover have "s + (i - s) div 2 < 2 ^ k" using assms(3) s False by auto
    ultimately show ?thesis
      using False s that [of "s + (i - s) div 2" "[(odd (i - s), xs ! (s + sibling (i - s)))]"]
      by (simp add: leaf_way_def s_def [symmetric])
  qed
qed

lemma tree_branch_way:
  assumes "2 ^ k < length xs" "length xs \<le> 2 ^ Suc k" "length xs \<le> 2 ^ 28" "h \<in> set xs"
  defines "i \<equiv> length (takeWhile (\<lambda>x. h \<noteq> x) xs)"
  shows "tree_branch xs h = Inr (Some (map snd (leaf_way hash64 k xs i), foldl path_bit 0 (map fst (leaf_way hash64 k xs i))))"
proof -
  have i: "i < length xs" unfolding i_def using first_index [OF assms(4)] by simp
  show ?thesis
  proof (cases "length xs = 2")
    case True
    then have k: "k = 0" using assms(1) by (cases k) auto
    obtain a b where "xs = [a, b]" using True by (auto simp: length_Suc_conv numeral_2_eq_2)
    then show ?thesis using assms(4)
      by (auto simp: k tree_branch_def leaf_way_def sibling_def path_bit_def i_def Let_def xor_one_eq)
  next
    case False
    then have n: "3 \<le> length xs" using assms(1) one_le_power [of "2 :: nat" k] by linarith
    note cnt = tree_hash_cnt_eq [OF assms(1,2) n assms(3)]
    obtain m where m: "k = Suc m" using cnt(2) by (cases k) auto
    define s where "s = 2 * 2 ^ k - length xs"
    have l: "length (bottom hash64 k xs) = 2 ^ k" by (rule length_bottom [OF less_imp_le [OF assms(1)] assms(2)])
    obtain j v where v: "branch_bottom xs [s..<2 ^ k] s (i, [], 0) (take s xs @ replicate (2 ^ k - s) zeros32) =
        Inr (length xs, (j, map snd v, foldl path_bit 0 (map fst v)), bottom hash64 k xs)" "j < 2 ^ k"
      "leaf_way hash64 k xs i = v @ way_up hash64 k (bottom hash64 k xs) j"
      using branch_bottom_way [OF assms(1,2) i] unfolding s_def .
    obtain w j' ints' where w: "branch_up (2 ^ k) (j, map snd v, foldl path_bit 0 (map fst v)) (bottom hash64 k xs) =
        Inr ((j', map snd v @ map snd w, foldl path_bit (foldl path_bit 0 (map fst v)) (map fst w)), ints')"
      "j' < 2" "2 \<le> length ints'" "way_up hash64 k (bottom hash64 k xs) j = w @ [(odd j', ints' ! sibling j')]"
      using branch_up_eq [of m "bottom hash64 k xs" j] v(2) l unfolding m by fastforce
    have r: "nth_r ints' 0 = Inr (ints' ! 0)" "nth_r ints' 1 = Inr (ints' ! 1)" using w(3) by (auto simp: nth_r_def)
    have "j' = 0 \<and> sibling j' = 1 \<or> j' = 1 \<and> sibling j' = 0" using w(2) by (auto simp: sibling_def less_2_cases_iff)
    then show ?thesis
      using n i w v(1) r by (auto simp: tree_branch_def i_def [symmetric] cnt(1) Let_def s_def [symmetric] v(3))
  qed
qed

section \<open>Verifying a branch\<close>

lemma bit_path_bit: "m < 32 \<Longrightarrow> bit (path_bit p r) m \<longleftrightarrow> (if m = 0 then r else bit p (m - 1))"
  unfolding path_bit_def bit_or_iff bit_push_bit_iff by (auto simp: bit_1_iff)

lemma bit_path: "m < 32 \<Longrightarrow> bit (foldl path_bit 0 bs) m \<longleftrightarrow> m < length bs \<and> bs ! (length bs - 1 - m)"
proof (induction bs arbitrary: m rule: rev_induct)
  case (snoc r bs)
  show ?case
  proof (cases m)
    case (Suc m')
    then have "length (bs @ [r]) - 1 - m = length bs - 1 - m'" by simp
    then show ?thesis using snoc Suc by (auto simp: bit_path_bit nth_append)
  qed (simp add: bit_path_bit)
qed simp

text \<open>The sides that a path of a given depth encodes.\<close>

definition path_sides :: "nat \<Rightarrow> u32 \<Rightarrow> bool list" where
  "path_sides depth path = map (\<lambda>d. bit path (depth - d - 1)) [0..<depth]"

lemma length_path_sides [simp]: "length (path_sides depth path) = depth"
  by (simp add: path_sides_def)

lemma path_sides_path: "length bs \<le> 32 \<Longrightarrow> path_sides (length bs) (foldl path_bit 0 bs) = bs"
  by (rule nth_equalityI) (auto simp: path_sides_def bit_path)

lemma branch_hash_loop_eq:
  assumes "length branch = depth" "depth \<le> 32" "d + n = depth"
  shows "branch_hash_loop branch depth path [d..<d + n] x = Inr (climb hash64 x (zip (drop d (path_sides depth path)) (drop d branch)))"
  using assms(3)
proof (induction n arbitrary: d x)
  case 0
  then show ?case by simp
next
  case (Suc n)
  have "drop d (path_sides depth path) = bit path (depth - d - 1) # drop (Suc d) (path_sides depth path)"
    "drop d branch = branch ! d # drop (Suc d) branch"
    using assms Suc.prems by (auto simp: path_sides_def Cons_nth_drop_Suc [symmetric])
  moreover have "drop_bit (depth - d - 1) path AND 1 \<noteq> 0 \<longleftrightarrow> bit path (depth - d - 1)"
    by (simp add: and_one_eq odd_iff_mod_2_eq_one bit_iff_odd_drop_bit [symmetric] flip: odd_iff_mod_2_eq_one)
  ultimately show ?case
    using Suc assms unfolding upt_Suc_left by (simp add: hash64_def [symmetric] cn_fast_hash_eq del: upt_Suc)
qed

lemma tree_branch_hash_climb:
  "length branch \<le> 32 \<Longrightarrow> tree_branch_hash x branch (length branch) path =
     Inr (climb hash64 x (zip (path_sides (length branch) path) branch))"
  using branch_hash_loop_eq [of branch "length branch" 0 "length branch" path x] by (simp add: tree_branch_hash_def)

text \<open>
  What a verification hashes: the message of each level, the hash of one level being half of the
  message of the next.
\<close>

fun hashed_messages :: "bytes \<Rightarrow> (bool \<times> bytes) list \<Rightarrow> bytes list" where
  "hashed_messages x [] = []"
| "hashed_messages x ((right, y) # ps) =
     (let m = (if right then y @ x else x @ y) in m # hashed_messages (fast_hash m) ps)"

definition verified_messages :: "bytes \<Rightarrow> bytes list \<Rightarrow> u32 \<Rightarrow> bytes list" where
  "verified_messages x branch path = hashed_messages x (zip (path_sides (length branch) path) branch)"

text \<open>
  Two climbs of the same sides to the same root start from the same leaf and pass the same siblings, or
  at one level they hash two different messages to the same hash.
\<close>

lemma climb_collides:
  assumes "climb hash64 x (zip bs ys) = climb hash64 x' (zip bs ys')" "length ys = length bs" "length ys' = length bs"
    and "length x = 32" "length x' = 32" "\<forall>y \<in> set ys. length y = 32" "\<forall>y \<in> set ys'. length y = 32"
  shows "x = x' \<and> ys = ys' \<or> (\<exists>i < length bs. hashed_messages x (zip bs ys) ! i \<noteq> hashed_messages x' (zip bs ys') ! i
     \<and> fast_hash (hashed_messages x (zip bs ys) ! i) = fast_hash (hashed_messages x' (zip bs ys') ! i))"
  using assms
proof (induction bs arbitrary: x x' ys ys')
  case (Cons s bs)
  obtain y zs y' zs' where ys: "ys = y # zs" "ys' = y' # zs'" using Cons.prems(2,3) by (auto simp: length_Suc_conv)
  define m m' where m: "m = (if s then y @ x else x @ y)" "m' = (if s then y' @ x' else x' @ y')"
  have msgs: "hashed_messages x (zip (s # bs) ys) = m # hashed_messages (fast_hash m) (zip bs zs)"
    "hashed_messages x' (zip (s # bs) ys') = m' # hashed_messages (fast_hash m') (zip bs zs')"
    by (simp_all add: ys m Let_def)
  have "climb hash64 (fast_hash m) (zip bs zs) = climb hash64 (fast_hash m') (zip bs zs')"
    using Cons.prems(1) by (cases s) (simp_all add: ys m hash64_def [of y] hash64_def [of x] hash64_def [of y'] hash64_def [of x'])
  with Cons.prems ys consider (same) "fast_hash m = fast_hash m'" "zs = zs'"
    | (later) i where "i < length bs" "hashed_messages (fast_hash m) (zip bs zs) ! i \<noteq> hashed_messages (fast_hash m') (zip bs zs') ! i"
      "fast_hash (hashed_messages (fast_hash m) (zip bs zs) ! i) = fast_hash (hashed_messages (fast_hash m') (zip bs zs') ! i)"
    using Cons.IH [of "fast_hash m" zs "fast_hash m'" zs'] by auto
  then show ?case
  proof cases
    case same
    show ?thesis
    proof (cases "m = m'")
      case True
      then have "x = x' \<and> y = y'" using Cons.prems(4-7) by (simp add: m ys split: if_splits)
      with same(2) show ?thesis by (simp add: ys)
    next
      case False
      with same(1) show ?thesis unfolding msgs by (intro disjI2 exI [of _ 0]) simp
    qed
  next
    case later
    then show ?thesis unfolding msgs by (intro disjI2 exI [of _ "Suc i"]) simp
  qed
qed simp

section \<open>The path alone\<close>

text \<open>tree_path follows the index and the path of tree_branch.\<close>

lemma path_bottom_branch:
  "branch_bottom hashes js i (idx, br, p) ints = Inr (i', (idx', br', p'), ints') \<Longrightarrow>
   path_loop js i (idx, p) = (idx', p') \<and> i' = i + 2 * length js"
proof (induction js arbitrary: i idx br p ints)
  case (Cons j js)
  from Cons.prems show ?case by (auto simp: note_sibling_def bindr_Inr_iff dest!: Cons.IH split: if_splits)
qed simp

lemma path_level_branch:
  "branch_level js i (idx, br, p) ints = Inr ((idx', br', p'), ints') \<Longrightarrow> path_loop js i (idx, p) = (idx', p')"
proof (induction js arbitrary: i idx br p ints)
  case (Cons j js)
  then show ?case by (auto simp: note_sibling_def bindr_Inr_iff split: if_splits)
qed simp

lemma path_up_branch:
  "branch_up cnt (idx, br, p) ints = Inr ((idx', br', p'), ints') \<Longrightarrow> path_up cnt (idx, p) = (idx', p')"
proof (induction cnt arbitrary: idx br p ints rule: less_induct)
  case (less cnt)
  show ?case
  proof (cases "cnt > 2")
    case True
    then obtain i1 br1 p1 ints1 where l: "branch_level [0..<cnt div 2] 0 (idx, br, p) ints = Inr ((i1, br1, p1), ints1)"
      "branch_up (cnt div 2) (i1, br1, p1) ints1 = Inr ((idx', br', p'), ints')"
      using less.prems by (subst (asm) branch_up.simps) (auto simp: Let_def bindr_Inr_iff)
    then show ?thesis
      using True less.IH [of "cnt div 2"] path_level_branch [OF l(1)] by (subst path_up.simps) (simp add: Let_def)
  next
    case False
    with less.prems show ?thesis by (subst (asm) branch_up.simps) (subst path_up.simps, simp)
  qed
qed

lemma tree_path_branch:
  assumes "tree_branch xs h = Inr (Some (branch, path))"
  shows "tree_path (length xs) (length (takeWhile (\<lambda>x. h \<noteq> x) xs)) = Inr (Some path)"
proof (cases "length xs < 3")
  case True
  then have "length xs = 0 \<or> length xs = 1 \<or> length xs = 2" by linarith
  then show ?thesis
    using assms by (auto simp: tree_branch_def tree_path_def Let_def bindr_Inr_iff split: if_splits)
next
  case False
  define i where "i = length (takeWhile (\<lambda>x. h \<noteq> x) xs)"
  obtain cnt where cnt: "tree_hash_cnt (length xs) = Inr cnt"
    using assms False by (auto simp: tree_branch_def Let_def bindr_Inr_iff split: if_splits)
  define s where "s = 2 * cnt - length xs"
  from assms False obtain i1 b1 p1 ints1 i2 b2 p2 ints2 where
    "branch_bottom xs [s..<cnt] s (i, [], 0) (take s xs @ replicate (cnt - s) zeros32) = Inr (length xs, (i1, b1, p1), ints1)"
    "branch_up cnt (i1, b1, p1) ints1 = Inr ((i2, b2, p2), ints2)"
    and p: "path = (if i2 = 0 \<or> i2 = 1 then path_bit p2 (i2 \<noteq> 0) else p2)"
    unfolding tree_branch_def i_def [symmetric] by (auto simp: cnt Let_def bindr_Inr_iff s_def [symmetric] split: if_splits)
  then have "path_loop [s..<cnt] s (i, 0) = (i1, p1)" "s + 2 * (cnt - s) = length xs" "path_up cnt (i1, p1) = (i2, p2)"
    using path_bottom_branch path_up_branch by fastforce+
  then show ?thesis
    using False unfolding tree_path_def i_def [symmetric] by (auto simp: cnt p Let_def s_def [symmetric])
qed

section \<open>Properties\<close>

lemma leaf_count:
  assumes "2 \<le> (n :: nat)"
  obtains k where "2 ^ k < n" "n \<le> 2 ^ Suc k"
proof -
  obtain m where m: "n \<le> 2 ^ m" "\<forall>j < m. \<not> n \<le> 2 ^ j"
    using exists_least_iff [of "\<lambda>m. n \<le> 2 ^ m"] less_exp [of n] by (meson less_imp_le)
  then obtain k where "m = Suc k" using assms by (cases m) auto
  with m that [of k] show ?thesis by (auto simp: not_le)
qed

lemma pairs_all: "(\<And>a b. P (H a b)) \<Longrightarrow> x \<in> set (pairs H xs) \<Longrightarrow> P x"
  by (auto simp: pairs_def)

lemma way_up_all:
  "length xs = 2 ^ k \<Longrightarrow> i < 2 ^ k \<Longrightarrow> \<forall>x \<in> set xs. P x \<Longrightarrow> (\<And>a b. P (H a b)) \<Longrightarrow> \<forall>y \<in> set (way_up H k xs i). P (snd y)"
proof (induction k arbitrary: xs i)
  case (Suc k)
  have "P (xs ! sibling i)" using Suc.prems sibling_less [of i "2 ^ k"] by simp
  moreover have "\<forall>y \<in> set (way_up H k (pairs H xs) (i div 2)). P (snd y)"
    using Suc.prems pairs_all [of P H] by (intro Suc.IH) auto
  ultimately show ?case by simp
qed simp

lemma leaf_way_all:
  assumes "2 ^ k < length xs" "length xs \<le> 2 ^ Suc k" "i < length xs" "\<forall>x \<in> set xs. P x" "\<And>a b. P (H a b)"
  shows "\<forall>y \<in> set (leaf_way H k xs i). P (snd y)"
proof -
  define s where "s = 2 ^ Suc k - length xs"
  have s: "length xs - s = 2 * (2 ^ k - s)" "s < 2 ^ k" using assms(1,2) by (simp_all add: s_def)
  have l: "length (bottom H k xs) = 2 ^ k" by (rule length_bottom [OF less_imp_le [OF assms(1)] assms(2)])
  have b: "\<forall>x \<in> set (bottom H k xs). P x"
    using assms(4,5) pairs_all [of P H] by (auto simp: bottom_def Let_def dest: in_set_takeD)
  have "P (xs ! (s + sibling (i - s)))" if "\<not> i < s"
  proof -
    have "i - s < 2 * (2 ^ k - s)" using that assms(3) s(1) by simp
    from sibling_less [OF this] have "s + sibling (i - s) < length xs" using s(1) by simp
    then show ?thesis using assms(4) by simp
  qed
  moreover have "i < 2 ^ k" if "i < s" using that s(2) by simp
  moreover have "s + (i - s) div 2 < 2 ^ k" if "\<not> i < s" using that assms(3) s by auto
  ultimately show ?thesis
    using way_up_all [where H = H and P = P, OF l _ b assms(5)] by (auto simp: leaf_way_def s_def Let_def)
qed

text \<open>What tree_branch hands out, for every list of leaves within the code's limit.\<close>

lemma branch_facts:
  assumes "h \<in> set xs" "length xs \<le> 2 ^ 28"
  obtains w root where "tree_branch xs h = Inr (Some (map snd w, foldl path_bit 0 (map fst w)))"
    "tree_hash xs = Inr root" "climb hash64 h w = root" "length w \<le> 32"
    "\<forall>x \<in> set xs. length x = 32 \<Longrightarrow> \<forall>y \<in> set w. length (snd y) = 32"
proof (cases "length xs = 1")
  case True
  then obtain x where "xs = [x]" by (auto simp: length_Suc_conv)
  with assms(1) show ?thesis by (intro that [of "[]" h]) (simp_all add: tree_branch_def tree_hash_def Let_def)
next
  case False
  with assms(1) have "2 \<le> length xs" by (cases xs rule: remdups_adj.cases) auto
  then obtain k where k: "2 ^ k < length xs" "length xs \<le> 2 ^ Suc k" by (rule leaf_count)
  define i where "i = length (takeWhile (\<lambda>x. h \<noteq> x) xs)"
  have i: "i < length xs" "xs ! i = h" using first_index [OF assms(1)] by (simp_all add: i_def)
  have "(2 :: nat) ^ k < 2 ^ 28" using k(1) assms(2) by linarith
  then have "k < 28" by (rule power_less_imp_less_exp [rotated]) simp
  then have "length (leaf_way hash64 k xs i) \<le> 32" using length_leaf_way [of hash64 k xs i] by linarith
  then show ?thesis
    using tree_branch_way [OF k assms(2,1)] tree_hash_merkle [OF k assms(2)] climb_leaf_way [OF k i(1), of hash64]
      leaf_way_all [OF k i(1), of "\<lambda>x. length x = 32" hash64] i(2)
    by (intro that [of "leaf_way hash64 k xs i"]) (auto simp: i_def hash64_def)
qed

lemma tree_branch_none: "h \<notin> set xs \<Longrightarrow> tree_branch xs h = Inr None"
proof -
  assume "h \<notin> set xs"
  then have "takeWhile (\<lambda>x. h \<noteq> x) xs = xs" by (auto simp: takeWhile_eq_all_conv)
  then show ?thesis unfolding tree_branch_def Let_def \<open>takeWhile (\<lambda>x. h \<noteq> x) xs = xs\<close> by simp
qed

text \<open>C25: The root of a block's transactions is a Merkle root: for 2 to 2^28 leaves, tree_hash returns the root,
  by halving, of the binary tree of 2^k nodes whose first are the first leaves and whose last are the
  hashes of the remaining leaves two by two, 2^k being the largest power of two below their number.\<close>

theorem tree_hash_is_merkle:
  assumes "2 ^ k < length xs" "length xs \<le> 2 ^ Suc k" "length xs \<le> 2 ^ 28"
  shows "tree_hash xs = Inr (merkle hash64 k
     (take (2 ^ Suc k - length xs) xs @ pairs hash64 (drop (2 ^ Suc k - length xs) xs)))"
  using tree_hash_merkle [OF assms] by (simp add: bottom_def Let_def)

theorem tree_hash_is_merkle_witness:
  "tree_hash [[1], [2], [3], [4], [5]] =
     Inr (hash64 (hash64 [1] [2]) (hash64 [3] (hash64 [4] [5])))"
  using tree_hash_is_merkle [of "Suc (Suc 0)" "[[1], [2], [3], [4], [5]]"] by (simp add: pairs_def)

text \<open>C24: Every proof of membership that tree_branch builds is accepted, and it builds one for exactly the hashes
  that are leaves: for 1 to 2^28 leaves, a leaf gets a branch and a path that is_branch_in_tree
  accepts for the root, and the path is the one tree_path gives; another hash gets none.\<close>

theorem tree_branch_verifies:
  assumes "xs \<noteq> []" "length xs \<le> 2 ^ 28"
  shows "if h \<in> set xs
    then \<exists>branch path root. tree_branch xs h = Inr (Some (branch, path)) \<and> tree_hash xs = Inr root
       \<and> is_branch_in_tree h root branch (length branch) path = Inr True
       \<and> tree_path (length xs) (length (takeWhile (\<lambda>x. h \<noteq> x) xs)) = Inr (Some path)
    else tree_branch xs h = Inr None"
proof (cases "h \<in> set xs")
  case True
  obtain w root where w: "tree_branch xs h = Inr (Some (map snd w, foldl path_bit 0 (map fst w)))"
    "tree_hash xs = Inr root" "climb hash64 h w = root" "length w \<le> 32"
    using branch_facts [OF True assms(2)] by metis
  have "path_sides (length w) (foldl path_bit 0 (map fst w)) = map fst w"
    using path_sides_path [of "map fst w"] w(4) by simp
  then have "is_branch_in_tree h root (map snd w) (length (map snd w)) (foldl path_bit 0 (map fst w)) = Inr True"
    using w(3,4) tree_branch_hash_climb [of "map snd w" h] by (simp add: is_branch_in_tree_def zip_map_fst_snd)
  with True w(1,2) tree_path_branch [OF w(1)] show ?thesis by auto
next
  case False
  with tree_branch_none [OF this] show ?thesis by simp
qed

theorem tree_branch_verifies_witness:
  "\<exists>branch path root. tree_branch [[1], [2], [3]] [2] = Inr (Some (branch, path)) \<and> tree_hash [[1], [2], [3]] = Inr root
     \<and> is_branch_in_tree [2] root branch (length branch) path = Inr True"
  using tree_branch_verifies [of "[[1], [2], [3]]" "[2]"] by auto

text \<open>C23: A proof of membership proves only the leaf it was made for, up to a collision that the two proofs
  exhibit: if is_branch_in_tree accepts some 32-byte hash with some 32-byte siblings at the depth and path
  that tree_branch gave for a leaf, then hash and siblings are that leaf and its branch, or at one level
  the 64-byte messages that the two verifications hash there differ and have the same cn_fast_hash.\<close>

theorem tree_branch_sound:
  assumes "tree_branch xs h = Inr (Some (branch0, path))" "tree_hash xs = Inr root" "length xs \<le> 2 ^ 28"
    and "is_branch_in_tree x root branch (length branch0) path = Inr True" "length branch = length branch0"
    and "\<forall>y \<in> set xs. arr32 y" "\<forall>y \<in> set branch. arr32 y" "arr32 x"
  shows "x = h \<and> branch = branch0
    \<or> (\<exists>i < length branch0. verified_messages x branch path ! i \<noteq> verified_messages h branch0 path ! i
         \<and> cn_fast_hash (verified_messages x branch path ! i) = cn_fast_hash (verified_messages h branch0 path ! i))"
proof -
  have h: "h \<in> set xs" using assms(1) tree_branch_none [of h xs] by auto
  obtain w r where w: "tree_branch xs h = Inr (Some (map snd w, foldl path_bit 0 (map fst w)))"
    "tree_hash xs = Inr r" "climb hash64 h w = r" "length w \<le> 32" "\<forall>y \<in> set w. length (snd y) = 32"
    using branch_facts [OF h assms(3)] assms(6) unfolding arr32_def by metis
  have b: "branch0 = map snd w" "path = foldl path_bit 0 (map fst w)" "r = root" using assms(1,2) w(1,2) by simp_all
  define bs where "bs = path_sides (length branch0) path"
  have bs: "bs = map fst w" using path_sides_path [of "map fst w"] w(4) by (simp add: b bs_def)
  have "climb hash64 x (zip bs branch) = climb hash64 h (zip bs branch0)"
    using assms(4,5) tree_branch_hash_climb [of branch x path] w(3,4) b(1,3) bs
    by (simp add: is_branch_in_tree_def bs_def zip_map_fst_snd)
  moreover have "length h = 32" "length x = 32" "\<forall>y \<in> set branch. length y = 32" "\<forall>y \<in> set branch0. length y = 32"
    using assms(6-8) w(5) h b(1) by (auto simp: arr32_def)
  ultimately show ?thesis
    using climb_collides [of x bs branch h branch0] assms(5)
    by (simp add: verified_messages_def bs_def [symmetric] cn_fast_hash_eq) (simp add: bs_def)
qed

theorem tree_branch_sound_witness:
  "\<exists>root. tree_hash [replicate 32 1, replicate 32 2] = Inr root
     \<and> is_branch_in_tree (replicate 32 1) root [replicate 32 2] 1 0 = Inr True
     \<and> (replicate 32 1 = (replicate 32 1 :: bytes) \<and> [replicate 32 2 :: bytes] = [replicate 32 2]
         \<or> (\<exists>i < 1. verified_messages (replicate 32 1) [replicate 32 2] 0 ! i
                \<noteq> verified_messages (replicate 32 1) [replicate 32 2] 0 ! i
             \<and> cn_fast_hash (verified_messages (replicate 32 1) [replicate 32 2] 0 ! i)
                = cn_fast_hash (verified_messages (replicate 32 1) [replicate 32 2] 0 ! i)))"
proof -
  let ?xs = "[replicate 32 1, replicate 32 2] :: bytes list"
  have b: "tree_branch ?xs (replicate 32 1) = Inr (Some ([replicate 32 2], 0))"
    by (simp add: tree_branch_def Let_def nth_r_def)
  have r: "tree_hash ?xs = Inr (fast_hash (replicate 32 1 @ replicate 32 2))"
    by (simp add: tree_hash_def Let_def hash64_def)
  have v: "is_branch_in_tree (replicate 32 1) (fast_hash (replicate 32 1 @ replicate 32 2)) [replicate 32 2] 1 0 = Inr True"
    by (simp add: is_branch_in_tree_def tree_branch_hash_def cn_fast_hash_eq nth_r_def)
  from tree_branch_sound [OF b r, of "replicate 32 1" "[replicate 32 2]"] r v show ?thesis
    by (auto simp: arr32_def)
qed

end
