(* ===== verification/Varint.thy ===== *)
theory Varint
  imports Prelude
begin

text \<open>
  vendor/monero/src/common/varint.h: unsigned integers in groups of seven bits, least significant
  first, the high bit of a byte saying that another follows. The functions are templates over an
  unsigned type, here any word. An output iterator is the list of the bytes written; an input
  iterator is the list still to read, and \<open>read_varint\<close> returns the count or the negative error
  code with the value so far and the input that is left.
\<close>

lemma unat_drop_7: "unat (drop_bit 7 i) = unat i div 128"
  unfolding unat_drop_bit_eq by (simp add: drop_bit_eq_div)

function write_varint :: "'a::len word \<Rightarrow> bytes" where
  "write_varint i =
     (if 0x80 \<le> unat i then ((ucast i AND 0x7F) OR 0x80) # write_varint (drop_bit 7 i) else [ucast i])"
  by pat_completeness auto
termination
proof (relation "measure unat")
  fix i :: "'a word"
  assume "0x80 \<le> unat i"
  then show "(drop_bit 7 i, i) \<in> measure unat" by (simp add: unat_drop_7)
qed simp

declare write_varint.simps [simp del]

definition get_varint_data :: "'a::len word \<Rightarrow> bytes" where
  "get_varint_data v = write_varint v"

definition EVARINT_OVERFLOW :: int where "EVARINT_OVERFLOW = -1"
definition EVARINT_REPRESENT :: int where "EVARINT_REPRESENT = -2"

text \<open>
  The loop of \<open>read_varint\<close>. With \<open>shift + 7 \<ge> bits\<close> the loop returns, so \<open>shift\<close> never
  passes \<open>bits\<close> and \<open>bits - shift\<close> is never negative.
\<close>

fun read_varint_loop :: "nat \<Rightarrow> nat \<Rightarrow> int \<Rightarrow> 'a::len word \<Rightarrow> bytes \<Rightarrow> int \<times> 'a word \<times> bytes" where
  "read_varint_loop bits shift read write [] = (read, write, [])"
| "read_varint_loop bits shift read write (byte # first) =
     (if bits \<le> shift + 7 \<and> 2 ^ (bits - shift) \<le> unat byte then (EVARINT_OVERFLOW, write, first)
      else if byte = 0 \<and> shift \<noteq> 0 then (EVARINT_REPRESENT, write, first)
      else let write = write OR push_bit shift (ucast (byte AND 0x7F)) in
        if byte AND 0x80 = 0 then (read + 1, write, first)
        else read_varint_loop bits (shift + 7) (read + 1) write first)"

definition read_varint_bits :: "nat \<Rightarrow> bytes \<Rightarrow> int \<times> 'a::len word \<times> bytes" where
  "read_varint_bits bits first = read_varint_loop bits 0 0 0 first"

definition read_varint :: "bytes \<Rightarrow> int \<times> 'a::len word \<times> bytes" where
  "read_varint first = read_varint_bits LENGTH('a) first"

text \<open>A do-while loop: the count is at least one.\<close>

function get_varint_byte_size :: "'a::len word \<Rightarrow> nat" where
  "get_varint_byte_size val =
     (if drop_bit 7 val \<noteq> 0 then Suc (get_varint_byte_size (drop_bit 7 val)) else 1)"
  by pat_completeness auto
termination
proof (relation "measure unat")
  fix val :: "'a word"
  assume "drop_bit 7 val \<noteq> 0"
  then have "0 < unat val" by (cases "val = 0") (simp_all add: unat_gt_0)
  then show "(drop_bit 7 val, val) \<in> measure unat" by (simp add: unat_drop_7)
qed simp

declare get_varint_byte_size.simps [simp del]

section \<open>Bytes of a group\<close>

lemma low7: "b AND 0x7F = take_bit 7 (b :: byte)"
  by (simp add: take_bit_eq_mask mask_eq_exp_minus_1)

lemma unat_low7: "unat (b AND 0x7F :: byte) = unat b mod 128"
  unfolding low7 unsigned_take_bit_eq by (simp add: take_bit_eq_mod)

lemma high_bit: "b AND 0x80 = (0 :: byte) \<longleftrightarrow> unat b < 128"
proof -
  have "0x80 = (push_bit 7 1 :: byte)" by simp
  then have "b AND 0x80 = 0 \<longleftrightarrow> \<not> bit b 7"
    by (metis and_exp_eq_0_iff_not_bit push_bit_of_1)
  also have "\<dots> \<longleftrightarrow> unat b < 128"
  proof -
    have "bit b 7 \<longleftrightarrow> bit (unat b) 7" by (simp add: bit_unsigned_iff)
    then have "bit b 7 \<longleftrightarrow> odd (unat b div 2 ^ 7)" by (simp only: bit_iff_odd)
    moreover have "unat b div 2 ^ 7 < 2" using unat_u8_less [of b] by simp
    ultimately show ?thesis by auto
  qed
  finally show ?thesis .
qed

lemma unat_high_group: "unat ((b AND 0x7F) OR 0x80 :: byte) = unat b mod 128 + 128"
proof -
  have "(b AND 0x7F) OR 0x80 = (b AND 0x7F) + (0x80 :: byte)"
  proof (rule disjunctive_add [symmetric])
    fix n
    have "\<not> bit (b AND 0x7F) n \<or> n < 7" by (simp add: low7 bit_take_bit_iff)
    moreover have "bit (0x80 :: byte) n \<Longrightarrow> n = 7"
      using bit_push_bit_iff [of 7 "1 :: byte" n] by simp
    ultimately show "\<not> bit (b AND 0x7F) n \<or> \<not> bit (0x80 :: byte) n" by auto
  qed
  also have "unat \<dots> = unat b mod 128 + 128"
  proof (subst unat_add_no_wrap)
    have m: "unat b mod 128 < 128" by simp
    show "unat (b AND 0x7F) + unat (0x80 :: byte) < 2 ^ LENGTH(8)" unfolding unat_low7 using m by simp
    show "unat (b AND 0x7F) + unat (0x80 :: byte) = unat b mod 128 + 128" unfolding unat_low7 by simp
  qed
  finally show ?thesis .
qed

text \<open>A group placed at \<open>shift\<close> above the \<open>shift\<close> bits read so far adds up.\<close>

lemma unat_place:
  assumes "unat (w :: 'a::len word) < 2 ^ s" "unat b < 128" "unat w + 2 ^ s * unat b < 2 ^ LENGTH('a)"
  shows "unat (w OR push_bit s (ucast (b :: byte))) = unat w + 2 ^ s * unat b"
proof -
  have "b = 0 \<or> s < LENGTH('a)"
  proof (rule disjCI)
    assume "\<not> s < LENGTH('a)"
    then have "(2 :: nat) ^ LENGTH('a) \<le> 2 ^ s" by (intro power_increasing) simp_all
    then have "2 ^ s * unat b < 2 ^ s" using assms(3) by linarith
    then show "b = 0" by (simp add: unat_eq_zero)
  qed
  then show ?thesis
  proof
    assume "s < LENGTH('a)"
    have "2 ^ s * unat b < 2 ^ LENGTH('a)" using assms(3) by linarith
    then have small: "unat b < 2 ^ (LENGTH('a) - s)"
      by (metis \<open>s < LENGTH('a)\<close> le_add_diff_inverse less_imp_le nat_mult_less_cancel_disj power_add)
    have "unat (ucast b :: 'a word) = unat b"
      using less_le_trans [OF small power_increasing [of "LENGTH('a) - s" "LENGTH('a)" "2 :: nat"]]
      by (simp add: unsigned_ucast_eq take_bit_nat_eq_self)
    then have p: "unat (push_bit s (ucast b :: 'a word)) = 2 ^ s * unat b"
      unfolding unsigned_push_bit_eq using assms(3) by (simp add: push_bit_eq_mult take_bit_nat_eq_self mult.commute)
    have "w OR push_bit s (ucast b) = w + push_bit s (ucast b)"
    proof (rule disjunctive_add [symmetric])
      fix n
      have "\<not> bit w n" if "s \<le> n"
      proof -
        have "unat (take_bit s w) = unat w" unfolding unsigned_take_bit_eq using assms(1) by (rule take_bit_nat_eq_self)
        then have "take_bit s w = w" by (simp only: word_unat_eq_iff)
        moreover have "\<not> bit (take_bit s w) n" using that by (simp add: bit_take_bit_iff)
        ultimately show ?thesis by simp
      qed
      then show "\<not> bit w n \<or> \<not> bit (push_bit s (ucast b :: 'a word)) n"
        by (auto simp: bit_push_bit_iff)
    qed
    then show ?thesis
      using assms(3) unat_add_no_wrap [of w "push_bit s (ucast b)"] unfolding p by (simp only:)
  qed simp
qed

lemma place_below:
  assumes "unat (w :: 'a::len word) < 2 ^ s" "unat (w OR push_bit s (ucast (b :: byte))) = unat w + 2 ^ s * m" "m < 128"
  shows "unat (w OR push_bit s (ucast b)) < 2 ^ (s + 7)"
proof -
  have "unat w + 2 ^ s * m < 2 ^ s * (m + 1)" using assms(1) by simp
  also have "\<dots> \<le> 2 ^ s * 128" using assms(3) by (intro mult_le_mono2) simp
  finally show ?thesis unfolding assms(2) by (simp add: power_add)
qed

text \<open>The group the reader takes from a byte it does not refuse.\<close>

lemma place_read:
  assumes "unat (w :: 'a::len word) < 2 ^ s" "s < LENGTH('a)"
    and "\<not> (LENGTH('a) \<le> s + 7 \<and> 2 ^ (LENGTH('a) - s) \<le> unat (b :: byte))"
  shows "unat (w OR push_bit s (ucast (b AND 0x7F))) = unat w + 2 ^ s * (unat b mod 128)"
proof -
  have "unat b mod 128 < 2 ^ (LENGTH('a) - s)"
  proof (cases "LENGTH('a) \<le> s + 7")
    case True
    then have "unat b < 2 ^ (LENGTH('a) - s)" using assms(3) by simp
    then show ?thesis by (rule le_less_trans [OF mod_less_eq_dividend])
  next
    case False
    then have "(2 :: nat) ^ 7 \<le> 2 ^ (LENGTH('a) - s)" by (intro power_increasing) simp_all
    moreover have "unat b mod 128 < 128" by simp
    ultimately show ?thesis by simp
  qed
  then have "2 ^ s * (unat b mod 128 + 1) \<le> 2 ^ s * 2 ^ (LENGTH('a) - s)" by (intro mult_le_mono2) simp
  also have "\<dots> = 2 ^ LENGTH('a)" using assms(2) by (simp flip: power_add)
  finally have "unat w + 2 ^ s * (unat b mod 128) < 2 ^ LENGTH('a)" using assms(1) by simp
  then show ?thesis using unat_place [of w s "b AND 0x7F"] assms(1) unfolding unat_low7 by simp
qed

text \<open>A last byte is a written value, and a byte before a written value makes a written value.\<close>

lemma last_byte_written:
  assumes "unat (b :: byte) < 128" "unat b < 2 ^ LENGTH('a::len)"
  shows "[b] = write_varint (ucast b :: 'a word) \<and> unat (ucast b :: 'a word) = unat b"
proof -
  have j: "unat (ucast b :: 'a word) = unat b" using assms(2) by (simp add: unsigned_ucast_eq take_bit_nat_eq_self)
  have "unat (ucast x :: byte) = unat x mod 256" for x :: "'a word" by (simp add: unsigned_ucast_eq take_bit_eq_mod)
  from this [of "ucast b"] have "ucast (ucast b :: 'a word) = b"
    using unat_u8_less [of b] unfolding j word_unat_eq_iff by simp
  then show ?thesis using j assms(1) by (simp add: write_varint.simps)
qed

lemma earlier_byte_written:
  assumes "128 \<le> unat (b :: byte)" "j \<noteq> 0" "unat b mod 128 + 128 * unat (j :: 'a word) < 2 ^ LENGTH('a::len)"
  shows "\<exists>k :: 'a word. b # write_varint j = write_varint k \<and> k \<noteq> 0 \<and> unat k = unat b mod 128 + 128 * unat j"
proof -
  define k :: "'a word" where "k = of_nat (unat b mod 128 + 128 * unat j)"
  have uk: "unat k = unat b mod 128 + 128 * unat j" unfolding k_def using assms(3) by (rule unat_of_nat_small)
  have "0 < unat j" using assms(2) by (simp add: unat_gt_0)
  then have k128: "128 \<le> unat k" using uk by simp
  have "drop_bit 7 k = j" by (simp only: word_unat_eq_iff unat_drop_7 uk)
  moreover have "(ucast k AND 0x7F) OR 0x80 = b"
  proof -
    have "unat k mod 256 mod 128 = unat b mod 128" by (simp add: mod_mod_cancel uk)
    moreover have "unat b mod 128 + 128 = unat b" using assms(1) unat_u8_less [of b] le_mod_geq [of 128 "unat b"] by simp
    ultimately show ?thesis
      by (simp only: word_unat_eq_iff unat_high_group) (simp add: unsigned_ucast_eq take_bit_eq_mod)
  qed
  ultimately have "b # write_varint j = write_varint k" using k128 by (simp add: write_varint.simps [of k])
  moreover have "k \<noteq> 0" using k128 by auto
  ultimately show ?thesis using uk by blast
qed

section \<open>The loop\<close>

lemma unat_ucast_byte: "unat (ucast (i :: 'a::len word) :: byte) = unat i mod 256" if "8 \<le> LENGTH('a) \<or> unat i < 256"
  by (simp add: unsigned_ucast_eq take_bit_eq_mod)

text \<open>One round of the loop on a byte that \<open>write_varint\<close> wrote: the last one, or a group before others.\<close>

lemma read_last_byte:
  assumes "unat j < 0x80" "unat (w :: 'a::len word) < 2 ^ s" "unat w + 2 ^ s * unat (j :: 'a word) = unat i"
    "unat j < 2 ^ (LENGTH('a) - s)" "s = 0 \<or> j \<noteq> 0"
  shows "read_varint_loop LENGTH('a) s r w (write_varint j @ rest) = (r + int (length (write_varint j)), i, rest)"
proof -
  have b: "unat (ucast j :: byte) = unat j" using assms(1) by (simp add: unsigned_ucast_eq take_bit_nat_eq_self)
  have "ucast j AND 0x7F = (ucast j :: byte)"
    using assms(1) b by (simp only: word_unat_eq_iff unat_low7) simp
  then have "unat (w OR push_bit s (ucast (ucast j AND 0x7F :: byte))) = unat i"
    using unat_place [of w s "ucast j :: byte"] b assms(1-3) unat_less_two_power [of i] by simp
  then have "w OR push_bit s (ucast (ucast j AND 0x7F :: byte)) = i" by (simp only: word_unat_eq_iff)
  moreover have "(ucast j :: byte) \<noteq> 0 \<or> s = 0" using assms(5) b by (metis unat_0 unat_eq_zero)
  moreover have "\<not> 2 ^ (LENGTH('a) - s) \<le> unat (ucast j :: byte)" using assms(4) b by simp
  moreover have "(ucast j :: byte) AND 0x80 = 0" using high_bit [of "ucast j"] b assms(1) by simp
  ultimately show ?thesis using assms(1) by (auto simp: write_varint.simps [of j])
qed

lemma read_group:
  assumes "0x80 \<le> unat j" "unat (w :: 'a::len word) < 2 ^ s" "unat w + 2 ^ s * unat (j :: 'a word) < 2 ^ LENGTH('a)"
    "unat j < 2 ^ (LENGTH('a) - s)"
  obtains w' where "read_varint_loop LENGTH('a) s r w (write_varint j @ rest) =
      read_varint_loop LENGTH('a) (s + 7) (r + 1) w' (write_varint (drop_bit 7 j) @ rest)"
    "unat w' = unat w + 2 ^ s * (unat j mod 128)" "unat w' < 2 ^ (s + 7)" "s + 7 < LENGTH('a)"
proof -
  let ?b = "(ucast j AND 0x7F) OR 0x80 :: byte"
  have "\<not> LENGTH('a) - s \<le> 7"
  proof
    assume "LENGTH('a) - s \<le> 7"
    then have "(2 :: nat) ^ (LENGTH('a) - s) \<le> 2 ^ 7" by (intro power_increasing) simp_all
    with assms(1,4) show False by simp
  qed
  then have L: "s + 7 < LENGTH('a)" by simp
  have ub: "unat ?b = unat j mod 128 + 128"
    unfolding unat_high_group by (simp add: unsigned_ucast_eq take_bit_eq_mod mod_mod_cancel)
  have low: "unat (?b AND 0x7F) = unat j mod 128" unfolding unat_low7 ub by simp
  have "2 ^ s * (unat j mod 128) \<le> 2 ^ s * unat j" by simp
  then have "unat w + 2 ^ s * (unat j mod 128) < 2 ^ LENGTH('a)" using assms(3) by linarith
  then have place: "unat (w OR push_bit s (ucast (?b AND 0x7F))) = unat w + 2 ^ s * (unat j mod 128)"
    using unat_place [of w s "?b AND 0x7F"] assms(2) unfolding low by simp
  have "?b \<noteq> 0" using ub by (metis add_is_0 unat_0 zero_neq_numeral)
  moreover have "?b AND 0x80 \<noteq> 0" using high_bit [of ?b] ub by simp
  ultimately have "read_varint_loop LENGTH('a) s r w (write_varint j @ rest) =
      read_varint_loop LENGTH('a) (s + 7) (r + 1) (w OR push_bit s (ucast (?b AND 0x7F))) (write_varint (drop_bit 7 j) @ rest)"
    using L assms(1) by (simp add: write_varint.simps [of j])
  from that [OF this place place_below [OF assms(2) place] L] show ?thesis by simp
qed

text \<open>What reading does when the value still to come is \<open>j\<close> and \<open>shift\<close> bits have been read.\<close>

lemma read_varint_loop_write:
  assumes "unat (w :: 'a::len word) < 2 ^ s" "unat w + 2 ^ s * unat (j :: 'a word) = unat i"
    "s = 0 \<or> j \<noteq> 0" "s < LENGTH('a)"
  shows "read_varint_loop LENGTH('a) s r w (write_varint j @ rest) = (r + int (length (write_varint j)), i, rest)"
  using assms
proof (induction j arbitrary: s r w rule: write_varint.induct)
  case (1 j)
  have bound: "unat w + 2 ^ s * unat j < 2 ^ LENGTH('a)" using "1.prems"(2) by simp
  then have "2 ^ s * unat j < 2 ^ s * 2 ^ (LENGTH('a) - s)" using "1.prems"(4) by (simp flip: power_add)
  then have room: "unat j < 2 ^ (LENGTH('a) - s)" by simp
  show ?case
  proof (cases "0x80 \<le> unat j")
    case False
    with read_last_byte [OF _ "1.prems"(1,2) room "1.prems"(3)] show ?thesis by simp
  next
    case True
    obtain w' where w': "read_varint_loop LENGTH('a) s r w (write_varint j @ rest) =
        read_varint_loop LENGTH('a) (s + 7) (r + 1) w' (write_varint (drop_bit 7 j) @ rest)"
      "unat w' = unat w + 2 ^ s * (unat j mod 128)" "unat w' < 2 ^ (s + 7)" "s + 7 < LENGTH('a)"
      using read_group [OF True "1.prems"(1) bound room] .
    have "2 ^ s * unat j = 2 ^ s * (unat j mod 128) + 2 ^ s * 128 * (unat j div 128)"
      by (metis add_mult_distrib2 mod_mult_div_eq mult.assoc)
    then have "unat w' + 2 ^ (s + 7) * unat (drop_bit 7 j) = unat i"
      unfolding w'(2) unat_drop_7 using "1.prems"(2) by (simp add: power_add)
    moreover have "drop_bit 7 j \<noteq> 0" using True unat_drop_7 [of j] by auto
    ultimately have "read_varint_loop LENGTH('a) (s + 7) (r + 1) w' (write_varint (drop_bit 7 j) @ rest)
        = (r + 1 + int (length (write_varint (drop_bit 7 j))), i, rest)"
      using "1.IH" [OF True w'(3)] w'(4) by blast
    then show ?thesis unfolding w'(1) using True by (simp add: write_varint.simps [of j])
  qed
qed

lemma read_write_varint:
  "read_varint (write_varint i @ rest) = (int (length (write_varint i)), i :: 'a::len word, rest)"
  unfolding read_varint_def read_varint_bits_def
  using read_varint_loop_write [of "0 :: 'a word" 0 i i 0 rest] by simp

text \<open>
  What a reader accepts from \<open>shift\<close> on: a written value on top of the bits read so far, or input that
  ended while the high bit still promised another byte.
\<close>

definition accepted :: "nat \<Rightarrow> 'a::len word \<Rightarrow> bytes \<Rightarrow> 'a word \<Rightarrow> bytes \<Rightarrow> bool" where
  "accepted s w used i rest \<longleftrightarrow>
     (\<exists>j :: 'a word. used = write_varint j \<and> (s = 0 \<or> j \<noteq> 0) \<and> unat i = unat w + 2 ^ s * unat j)
     \<or> rest = [] \<and> (\<forall>b \<in> set used. 128 \<le> unat b)"

lemma accepted_last:
  assumes "unat b < 128" "unat (v :: 'a::len word) = unat w + 2 ^ s * (unat b mod 128)" "\<not> (b = 0 \<and> s \<noteq> 0)"
  shows "accepted s w [b] v rest"
proof -
  have "unat b * 1 \<le> unat b * 2 ^ s" by (rule mult_le_mono2) simp
  then have "unat b \<le> unat v" using assms(1,2) by (simp add: mult.commute trans_le_add2)
  then have j: "[b] = write_varint (ucast b :: 'a word)" "unat (ucast b :: 'a word) = unat b"
    using last_byte_written [OF assms(1)] unat_less_two_power [of v] by (meson le_less_trans)+
  moreover have "s = 0 \<or> (ucast b :: 'a word) \<noteq> 0" using assms(3) j(2) by (metis unat_0 unat_eq_zero)
  ultimately show ?thesis using assms(1,2) unfolding accepted_def by (intro disjI1 exI [of _ "ucast b"]) simp
qed

lemma accepted_earlier:
  assumes "128 \<le> unat b" "unat (v :: 'a::len word) = unat w + 2 ^ s * (unat b mod 128)" "accepted (s + 7) v used i rest"
  shows "accepted s w (b # used) i rest"
  using assms(3) unfolding accepted_def
proof
  assume "\<exists>j :: 'a word. used = write_varint j \<and> (s + 7 = 0 \<or> j \<noteq> 0) \<and> unat i = unat v + 2 ^ (s + 7) * unat j"
  then obtain j :: "'a word" where j: "used = write_varint j" "j \<noteq> 0" "unat i = unat v + 2 ^ (s + 7) * unat j"
    by auto
  have all: "unat i = unat w + 2 ^ s * (unat b mod 128 + 128 * unat j)"
    using j(3) assms(2) by (simp add: power_add distrib_left)
  have "unat b mod 128 + 128 * unat j \<le> 2 ^ s * (unat b mod 128 + 128 * unat j)" by simp
  then have "unat b mod 128 + 128 * unat j < 2 ^ LENGTH('a)" using all unat_less_two_power [of i] by linarith
  then show "(\<exists>k :: 'a word. b # used = write_varint k \<and> (s = 0 \<or> k \<noteq> 0) \<and> unat i = unat w + 2 ^ s * unat k)
      \<or> rest = [] \<and> (\<forall>b \<in> set (b # used). 128 \<le> unat b)"
    using earlier_byte_written [OF assms(1) j(2)] all j(1) by metis
qed (use assms(1) in auto)

lemma more_bits_left:
  assumes "128 \<le> unat (b :: byte)" "\<not> (bits \<le> s + 7 \<and> 2 ^ (bits - s) \<le> unat b)"
  shows "s + 7 < bits"
proof (rule ccontr)
  assume "\<not> s + 7 < bits"
  then have "bits \<le> s + 7" by simp
  then have "(2 :: nat) ^ (bits - s) \<le> 2 ^ 7" by (intro power_increasing) simp_all
  with assms \<open>bits \<le> s + 7\<close> show False by simp
qed

text \<open>A loop that returns a count has accepted what it used of the input.\<close>

lemma read_varint_loop_accepts:
  assumes "read_varint_loop LENGTH('a) s r w bs = (n, i, rest)" "0 \<le> n" "0 \<le> r"
    "unat (w :: 'a::len word) < 2 ^ s" "s < LENGTH('a)"
  shows "\<exists>used. bs = used @ rest \<and> n = r + int (length used) \<and> accepted s w used i rest"
  using assms
proof (induction bs arbitrary: s r w)
  case Nil
  then show ?case by (simp add: accepted_def)
next
  case (Cons b bs)
  let ?w = "w OR push_bit s (ucast (b AND 0x7F))"
  have ok: "\<not> (LENGTH('a) \<le> s + 7 \<and> 2 ^ (LENGTH('a) - s) \<le> unat b)" "\<not> (b = 0 \<and> s \<noteq> 0)"
    using Cons.prems(1,2) by (auto simp: EVARINT_OVERFLOW_def EVARINT_REPRESENT_def split: if_splits)
  have place: "unat ?w = unat w + 2 ^ s * (unat b mod 128)"
    using Cons.prems(4,5) ok(1) by (rule place_read)
  show ?case
  proof (cases "b AND 0x80 = 0")
    case True
    then have "accepted s w [b] ?w bs" using accepted_last [OF _ place ok(2)] high_bit by blast
    moreover have "n = r + 1" "i = ?w" "rest = bs" using Cons.prems(1) ok True by auto
    ultimately show ?thesis by (intro exI [of _ "[b]"]) simp
  next
    case False
    then have b: "128 \<le> unat b" using high_bit [of b] by simp
    have "read_varint_loop LENGTH('a) (s + 7) (r + 1) ?w bs = (n, i, rest)"
      using Cons.prems(1) ok False by (auto simp: Let_def)
    then obtain used where "bs = used @ rest" "n = r + 1 + int (length used)" "accepted (s + 7) ?w used i rest"
      using Cons.IH [of "s + 7" "r + 1" ?w] Cons.prems(2,3) more_bits_left [OF b ok(1)] place_below [OF Cons.prems(4) place]
      by force
    then show ?thesis using accepted_earlier [OF b place] by (intro exI [of _ "b # used"]) simp
  qed
qed

lemma read_varint_accepts:
  assumes "read_varint bs = (n, i :: 'a::len word, rest)" "0 \<le> n"
  shows "\<exists>used. bs = used @ rest \<and> n = int (length used) \<and>
     (used = write_varint i \<or> rest = [] \<and> (\<forall>b \<in> set used. 128 \<le> unat b))"
proof -
  have "\<exists>used. bs = used @ rest \<and> n = 0 + int (length used) \<and> accepted 0 (0 :: 'a word) used i rest"
    using assms unfolding read_varint_def read_varint_bits_def by (intro read_varint_loop_accepts) simp_all
  then show ?thesis by (auto simp: accepted_def simp flip: word_unat_eq_iff)
qed

lemma length_write_varint: "length (write_varint j) = get_varint_byte_size j"
proof (induction j rule: write_varint.induct)
  case (1 j)
  have "drop_bit 7 j = 0 \<longleftrightarrow> unat j div 128 = 0" by (simp only: word_unat_eq_iff unat_drop_7 unat_0)
  then have "0x80 \<le> unat j \<longleftrightarrow> drop_bit 7 j \<noteq> 0" by (simp only: div_eq_0_iff) linarith
  with 1 show ?case by (simp add: write_varint.simps [of j] get_varint_byte_size.simps [of j])
qed

section \<open>Properties\<close>

text \<open>Reading back what was written gives the number, the count of its bytes and the rest of the input, for
  every unsigned type; and get_varint_byte_size is that count.\<close>

theorem varint_roundtrip:
  "read_varint (get_varint_data i @ rest) = (int (get_varint_byte_size i), i :: 'a::len word, rest)"
  by (simp add: get_varint_data_def read_write_varint length_write_varint)

text \<open>The encoding of a number is unique: bytes that read_varint accepts, whose last byte read has its high bit
  clear, are exactly the bytes write_varint gives for the number read, so overlong and overflowing forms
  are refused. A read that ends because the input does is the one exception.\<close>

theorem varint_canonical:
  assumes "read_varint bs = (n, i :: 'a::len word, rest)" "0 < n" "unat (bs ! (nat n - 1)) < 128"
  shows "bs = get_varint_data i @ rest \<and> n = int (get_varint_byte_size i)"
proof -
  obtain used where used: "bs = used @ rest" "n = int (length used)"
    "used = write_varint i \<or> rest = [] \<and> (\<forall>b \<in> set used. 128 \<le> unat b)"
    using read_varint_accepts [OF assms(1)] assms(2) by auto
  have "bs ! (nat n - 1) \<in> set used" using used(1,2) assms(2) by (simp add: nth_append)
  then have "used = write_varint i" using used(3) assms(3) by force
  then show ?thesis using used(1,2) by (simp add: get_varint_data_def length_write_varint)
qed

theorem varint_canonical_witness:
  "[0xAC, 0x02, 0x07] = get_varint_data (300 :: u64) @ [7] \<and> 2 = int (get_varint_byte_size (300 :: u64))"
proof (rule varint_canonical)
  show "read_varint [0xAC, 0x02, 0x07] = (2, 300 :: u64, [7])" by code_simp
qed simp_all

end
