(* ===== verification/Base58.thy ===== *)
theory Base58
  imports Varint Difficulty Keccak
begin

text \<open>
  vendor/monero/src/common/base58.cpp: the text form of addresses. Data is cut into blocks of eight
  bytes, each written as eleven digits in base 58, a shorter last block as fewer. A \<open>std::string\<close> of
  data is a list of bytes and one of digits a string; a function that returns false has the value None.
  The digits go into a string that the caller has filled with the digit zero, at a position.
\<close>

definition alphabet :: string where
  "alphabet = ''123456789ABCDEFGHJKLMNPQRSTUVWXYZabcdefghijkmnopqrstuvwxyz''"

definition alphabet_size :: nat where
  "alphabet_size = 58"

definition encoded_block_sizes :: "nat list" where
  "encoded_block_sizes = [0, 2, 3, 5, 6, 7, 9, 10, 11]"

definition full_block_size :: nat where
  "full_block_size = length encoded_block_sizes - 1"

definition full_encoded_block_size :: nat where
  "full_encoded_block_size = encoded_block_sizes ! full_block_size"

definition addr_checksum_size :: nat where
  "addr_checksum_size = 4"

text \<open>
  The tables of the two static objects. A letter below the first or from 128 on (a negative
  \<open>char\<close>) becomes a huge \<open>size_t\<close>; either way it is outside the table.
\<close>

definition reverse_table :: "int list" where
  "reverse_table = foldl (\<lambda>m i. m[of_char (alphabet ! i) - of_char (alphabet ! 0) := int i])
     (replicate (of_char (alphabet ! 57) - of_char (alphabet ! 0) + 1) (- 1)) [0..<alphabet_size]"

definition reverse_alphabet :: "char \<Rightarrow> int" where
  "reverse_alphabet letter =
     (let idx = int (of_char letter) - int (of_char (alphabet ! 0))
      in if 0 \<le> idx \<and> nat idx < length reverse_table then reverse_table ! nat idx else - 1)"

definition decoded_table :: "int list" where
  "decoded_table = foldl (\<lambda>m i. m[encoded_block_sizes ! i := int i])
     (replicate (full_encoded_block_size + 1) (- 1)) [0..<full_block_size + 1]"

definition decoded_block_sizes :: "nat \<Rightarrow> int result" where
  "decoded_block_sizes n = (if n \<le> full_encoded_block_size then Inr (decoded_table ! n) else Inl Aborted)"

section \<open>Blocks\<close>

text \<open>\<open>SWAP64BE\<close> on a little-endian machine.\<close>

definition SWAP64BE :: "u64 \<Rightarrow> u64" where
  "SWAP64BE w = le_to_word (rev (word_to_le 8 w))"

definition uint_8be_to_64 :: "bytes \<Rightarrow> u64 result" where
  "uint_8be_to_64 data =
     (if data = [] \<or> length data > 8 then Inl Aborted
      else Inr (SWAP64BE (le_to_word (replicate (8 - length data) 0 @ data))))"

definition uint_64_to_8be :: "u64 \<Rightarrow> nat \<Rightarrow> bytes result" where
  "uint_64_to_8be n width = (if width = 0 \<or> width > 8 then Inl Aborted else Inr (drop (8 - width) (word_to_le 8 (SWAP64BE n))))"

function digit_loop :: "u64 \<Rightarrow> int \<Rightarrow> string \<Rightarrow> string result" where
  "digit_loop n i res =
     (if n = 0 then Inr res
      else if i < 0 \<or> length res \<le> nat i then Inl OutOfBounds
      else digit_loop (n div 58) (i - 1) (res[nat i := alphabet ! unat (n mod 58)]))"
  by pat_completeness auto
termination
proof (relation "measure (\<lambda>(n, _). unat n)")
  fix n :: u64
  assume "n \<noteq> 0"
  then have "0 < unat n" by (simp add: unat_gt_0)
  then show "((n div 58, j - 1, res'), n, j, res) \<in> measure (\<lambda>(n, _). unat n)" for j :: int and res res' :: string
    by (simp add: unat_div)
qed simp

declare digit_loop.simps [simp del]

definition encode_block :: "bytes \<Rightarrow> nat \<Rightarrow> string \<Rightarrow> string result" where
  "encode_block block pos res =
     (if block = [] \<or> length block > full_block_size then Inl Aborted
      else bindr (uint_8be_to_64 block) (\<lambda>n.
        digit_loop n (int pos + int (encoded_block_sizes ! length block) - 1) res))"

text \<open>The loop of \<open>decode_block\<close> over the digits, last one first.\<close>

fun number_loop :: "string \<Rightarrow> u64 \<Rightarrow> u64 \<Rightarrow> u64 option" where
  "number_loop [] order res_num = Some res_num"
| "number_loop (c # cs) order res_num =
     (let digit = reverse_alphabet c in
      if digit < 0 then None
      else let (product_lo, product_hi) = mul128 order (of_int digit); tmp = res_num + product_lo in
        if tmp < res_num \<or> product_hi \<noteq> 0 then None
        else number_loop cs (order * 58) tmp)"

definition decode_block :: "string \<Rightarrow> nat \<Rightarrow> bytes \<Rightarrow> bytes option result" where
  "decode_block block pos res =
     (if block = [] \<or> length block > full_encoded_block_size then Inl Aborted
      else bindr (decoded_block_sizes (length block)) (\<lambda>res_size.
        if res_size \<le> 0 then Inr None
        else (case number_loop (rev block) 1 0 of
            None \<Rightarrow> Inr None
          | Some res_num \<Rightarrow>
              if nat res_size < full_block_size \<and> push_bit (8 * nat res_size) 1 \<le> res_num then Inr None
              else bindr (uint_64_to_8be res_num (nat res_size)) (\<lambda>bs. Inr (Some (overwrite pos bs res))))))"

section \<open>Strings\<close>

fun encode_loop :: "bytes \<Rightarrow> nat list \<Rightarrow> string \<Rightarrow> string result" where
  "encode_loop data [] res = Inr res"
| "encode_loop data (i # is) res =
     bindr (encode_block (take 8 (drop (i * full_block_size) data)) (i * full_encoded_block_size) res) (encode_loop data is)"

definition encode :: "bytes \<Rightarrow> string result" where
  "encode data =
     (if data = [] then Inr []
      else let full_block_count = length data div full_block_size;
               last_block_size = length data mod full_block_size;
               res_size = full_block_count * full_encoded_block_size + encoded_block_sizes ! last_block_size
           in bindr (encode_loop data [0..<full_block_count] (replicate res_size (alphabet ! 0))) (\<lambda>res.
              if 0 < last_block_size
              then encode_block (take last_block_size (drop (full_block_count * full_block_size) data))
                     (full_block_count * full_encoded_block_size) res
              else Inr res))"

fun decode_loop :: "string \<Rightarrow> nat list \<Rightarrow> bytes \<Rightarrow> bytes option result" where
  "decode_loop enc [] data = Inr (Some data)"
| "decode_loop enc (i # is) data =
     bindr (decode_block (take 11 (drop (i * full_encoded_block_size) enc)) (i * full_block_size) data)
       (\<lambda>r. case r of None \<Rightarrow> Inr None | Some data \<Rightarrow> decode_loop enc is data)"

definition decode :: "string \<Rightarrow> bytes option result" where
  "decode enc =
     (if enc = [] then Inr (Some [])
      else let full_block_count = length enc div full_encoded_block_size;
               last_block_size = length enc mod full_encoded_block_size
           in bindr (decoded_block_sizes last_block_size) (\<lambda>last_block_decoded_size.
              if last_block_decoded_size < 0 then Inr None
              else let data = replicate (full_block_count * full_block_size + nat last_block_decoded_size) 0 in
                bindr (decode_loop enc [0..<full_block_count] data) (\<lambda>r. case r of
                    None \<Rightarrow> Inr None
                  | Some data \<Rightarrow>
                      if 0 < last_block_size
                      then decode_block (take last_block_size (drop (full_block_count * full_encoded_block_size) enc))
                             (full_block_count * full_block_size) data
                      else Inr (Some data))))"

section \<open>Addresses\<close>

definition encode_addr :: "u64 \<Rightarrow> bytes \<Rightarrow> string result" where
  "encode_addr tag data =
     (let buf = get_varint_data tag @ data in
      bindr (cn_fast_hash buf) (\<lambda>hash. encode (buf @ take addr_checksum_size hash)))"

definition decode_addr :: "string \<Rightarrow> (u64 \<times> bytes) option result" where
  "decode_addr addr =
     bindr (decode addr) (\<lambda>r. case r of
         None \<Rightarrow> Inr None
       | Some addr_data \<Rightarrow>
           if length addr_data \<le> addr_checksum_size then Inr None
           else let checksum = drop (length addr_data - addr_checksum_size) addr_data;
                    addr_data = take (length addr_data - addr_checksum_size) addr_data
                in bindr (cn_fast_hash addr_data) (\<lambda>hash.
                   if take addr_checksum_size hash \<noteq> checksum then Inr None
                   else let (read, tag, _) = read_varint addr_data in
                     if read \<le> 0 then Inr None else Inr (Some (tag, drop (nat read) addr_data))))"

section \<open>Digits and numbers\<close>

text \<open>The specification: the digits of a number in base 58, most significant first, and their value.\<close>

fun digits58 :: "nat \<Rightarrow> nat \<Rightarrow> nat list" where
  "digits58 0 n = []"
| "digits58 (Suc k) n = digits58 k (n div 58) @ [n mod 58]"

fun value58 :: "nat list \<Rightarrow> nat" where
  "value58 [] = 0"
| "value58 (d # ds) = d + 58 * value58 ds"

definition be_nat :: "bytes \<Rightarrow> nat" where
  "be_nat bs = le_nat (rev bs)"

definition be_bytes :: "nat \<Rightarrow> nat \<Rightarrow> bytes" where
  "be_bytes k n = rev (word_to_le k (of_nat n :: u64))"

lemma table_defs: "full_block_size = 8" "full_encoded_block_size = 11"
  by (simp_all add: full_block_size_def full_encoded_block_size_def encoded_block_sizes_def)

lemma length_digits58 [simp]: "length (digits58 k n) = k"
  by (induction k arbitrary: n) simp_all

lemma digits58_less: "d \<in> set (digits58 k n) \<Longrightarrow> d < 58"
  by (induction k arbitrary: n) auto

lemma digits58_zero: "digits58 k 0 = replicate k 0"
  by (induction k) (simp_all add: replicate_append_same)

lemma value58_digits58: "n < 58 ^ k \<Longrightarrow> value58 (rev (digits58 k n)) = n"
proof (induction k arbitrary: n)
  case (Suc k)
  then have "n div 58 < 58 ^ k" by (simp add: less_mult_imp_div_less mult.commute)
  with Suc.IH show ?case by simp
qed simp

lemma digits58_value58: "\<forall>d \<in> set ds. d < 58 \<Longrightarrow> digits58 (length ds) (value58 ds) = rev ds"
  by (induction ds) auto

lemma value58_less: "\<forall>d \<in> set ds. d < 58 \<Longrightarrow> value58 ds < 58 ^ length ds"
  by (induction ds) auto

text \<open>The alphabet and its inverse.\<close>

text \<open>A table filled at distinct places.\<close>

lemma foldl_table:
  assumes "distinct (map p is)" "\<forall>i \<in> set is. p i < length m"
  shows "(\<forall>i \<in> set is. foldl (\<lambda>m i. m[p i := v i]) m is ! p i = v i)
     \<and> (\<forall>j. j \<notin> p ` set is \<longrightarrow> foldl (\<lambda>m i. m[p i := v i]) m is ! j = m ! j)"
  using assms
proof (induction "is" arbitrary: m)
  case (Cons i "is")
  from Cons.IH [of "m[p i := v i]"] Cons.prems show ?case by auto
qed simp

definition letter_place :: "nat \<Rightarrow> nat" where
  "letter_place i = of_char (alphabet ! i) - 49"

lemma alphabet_letters:
  "length alphabet = 58" "distinct alphabet" "\<forall>c \<in> set alphabet. 49 \<le> (of_char c :: nat) \<and> of_char c < (123 :: nat)"
  "of_char (alphabet ! 0) = (49 :: nat)" "of_char (alphabet ! 57) = (122 :: nat)"
  by (simp_all add: alphabet_def)

lemma letter_place_bounds:
  assumes "i < 58"
  shows "letter_place i < 74" "of_char (alphabet ! i) = letter_place i + 49"
proof -
  have "49 \<le> (of_char (alphabet ! i) :: nat) \<and> of_char (alphabet ! i) < (123 :: nat)"
    using assms alphabet_letters(1,3) nth_mem [of i alphabet] by auto
  then show "letter_place i < 74" "of_char (alphabet ! i) = letter_place i + 49" unfolding letter_place_def by arith+
qed

lemma reverse_table_eq: "reverse_table = foldl (\<lambda>m i. m[letter_place i := int i]) (replicate 74 (- 1)) [0..<58]"
  by (simp add: reverse_table_def letter_place_def alphabet_letters alphabet_size_def)

lemma reverse_table_nth:
  "length reverse_table = 74"
  "i < 58 \<Longrightarrow> reverse_table ! letter_place i = int i"
  "j < 74 \<Longrightarrow> \<not> (\<exists>i < 58. letter_place i = j) \<Longrightarrow> reverse_table ! j = - 1"
proof -
  have "inj_on letter_place {0..<58}"
  proof (rule inj_onI)
    fix i j assume ij: "i \<in> {0..<58}" "j \<in> {0..<58}" "letter_place i = letter_place j"
    then have "(of_char (alphabet ! i) :: nat) = of_char (alphabet ! j)" using letter_place_bounds(2) by auto
    then have "alphabet ! i = alphabet ! j" by (simp only: of_char_eq_iff)
    then show "i = j" using ij alphabet_letters(1,2) by (simp add: nth_eq_iff_index_eq)
  qed
  then have "distinct (map letter_place [0..<58])" by (simp add: distinct_map del: upt_Suc)
  moreover have "\<forall>i \<in> set [0..<58]. letter_place i < length (replicate 74 (- 1 :: int))" using letter_place_bounds(1) by auto
  ultimately have t: "(\<forall>i \<in> set [0..<58]. reverse_table ! letter_place i = int i)
      \<and> (\<forall>j. j \<notin> letter_place ` set [0..<58] \<longrightarrow> reverse_table ! j = replicate 74 (- 1) ! j)"
    unfolding reverse_table_eq by (rule foldl_table)
  have "length (foldl (\<lambda>m i. m[letter_place i := int i]) m is) = length m" for m "is"
    by (induction "is" arbitrary: m) simp_all
  then show "length reverse_table = 74" unfolding reverse_table_eq by simp
  show "i < 58 \<Longrightarrow> reverse_table ! letter_place i = int i" using t by simp
  show "reverse_table ! j = - 1" if "j < 74" "\<not> (\<exists>i < 58. letter_place i = j)"
  proof -
    have "j \<notin> letter_place ` set [0..<58]" using that(2) by auto
    then have "reverse_table ! j = replicate 74 (- 1) ! j" using t by blast
    then show ?thesis using that(1) by simp
  qed
qed

lemma reverse_alphabet_nth: "d < 58 \<Longrightarrow> reverse_alphabet (alphabet ! d) = int d"
  using letter_place_bounds [of d] reverse_table_nth(1,2)
  by (simp add: reverse_alphabet_def alphabet_letters Let_def)

lemma alphabet_reverse:
  assumes "0 \<le> reverse_alphabet c"
  shows "reverse_alphabet c < 58 \<and> alphabet ! nat (reverse_alphabet c) = c"
proof -
  let ?j = "nat (int (of_char c) - 49)"
  have r: "0 \<le> int (of_char c) - 49" "?j < 74" "reverse_alphabet c = reverse_table ! ?j"
    using assms reverse_table_nth(1) by (auto simp: reverse_alphabet_def alphabet_letters Let_def split: if_splits)
  then obtain i where i: "i < 58" "letter_place i = ?j" using reverse_table_nth(3) [of ?j] assms by fastforce
  then have "(of_char (alphabet ! i) :: nat) = of_char c" using letter_place_bounds(2) [of i] r(1) by simp
  then have "alphabet ! i = c" by (simp only: of_char_eq_iff)
  moreover have "reverse_alphabet c = int i" using i reverse_table_nth(2) r(3) by metis
  ultimately show ?thesis using i(1) by simp
qed

lemma decoded_sizes:
  "n \<le> 11 \<Longrightarrow> decoded_block_sizes n = Inr (decoded_table ! n)"
  "k \<le> 8 \<Longrightarrow> encoded_block_sizes ! k \<le> 11 \<and> decoded_table ! (encoded_block_sizes ! k) = int k"
  "n \<le> 11 \<Longrightarrow> 0 \<le> decoded_table ! n \<Longrightarrow> decoded_table ! n \<le> 8 \<and> encoded_block_sizes ! nat (decoded_table ! n) = n"
proof -
  have "\<forall>k \<in> set [0..<9]. encoded_block_sizes ! k \<le> 11 \<and> decoded_table ! (encoded_block_sizes ! k) = int k" by code_simp
  then show "k \<le> 8 \<Longrightarrow> encoded_block_sizes ! k \<le> 11 \<and> decoded_table ! (encoded_block_sizes ! k) = int k" by simp
  have "\<forall>n \<in> set [0..<12]. 0 \<le> decoded_table ! n \<longrightarrow> decoded_table ! n \<le> 8 \<and> encoded_block_sizes ! nat (decoded_table ! n) = n"
    by code_simp
  then show "n \<le> 11 \<Longrightarrow> 0 \<le> decoded_table ! n \<Longrightarrow> decoded_table ! n \<le> 8 \<and> encoded_block_sizes ! nat (decoded_table ! n) = n"
    by simp
qed (simp add: decoded_block_sizes_def table_defs)

section \<open>One block\<close>

text \<open>What a block of one to eight bytes is written as, and what a block of digits is read as.\<close>

definition code :: "bytes \<Rightarrow> string" where
  "code bs = map ((!) alphabet) (digits58 (encoded_block_sizes ! length bs) (be_nat bs))"

definition digit_values :: "string \<Rightarrow> nat list" where
  "digit_values s = map (nat \<circ> reverse_alphabet) s"

definition uncode :: "string \<Rightarrow> bytes option" where
  "uncode s =
     (let k = decoded_table ! length s; v = value58 (digit_values (rev s)) in
      if k \<le> 0 \<or> \<not> (\<forall>c \<in> set s. 0 \<le> reverse_alphabet c) \<or> 256 ^ nat k \<le> v then None
      else Some (be_bytes (nat k) v))"

lemma be_nat_less: "be_nat bs < 256 ^ length bs"
  using le_nat_bound [of "rev bs"] by (simp add: be_nat_def)

lemma pow256_le: "k \<le> 8 \<Longrightarrow> (256 :: nat) ^ k \<le> 256 ^ 8"
  by (rule power_increasing) simp_all

lemma SWAP64BE_bytes: "length bs = 8 \<Longrightarrow> SWAP64BE (le_to_word bs) = le_to_word (rev bs)"
  by (simp add: SWAP64BE_def)

lemma uint_8be_to_64_eq:
  assumes "bs \<noteq> []" "length bs \<le> 8"
  shows "uint_8be_to_64 bs = Inr (of_nat (be_nat bs))"
proof -
  have "unat (le_to_word (rev (replicate (8 - length bs) 0 @ bs)) :: u64) = be_nat bs"
    using assms(2) by (subst unat_le_to_word) (simp_all add: le_nat_append le_nat_replicate_0 be_nat_def)
  then have "le_to_word (rev (replicate (8 - length bs) 0 @ bs)) = (of_nat (be_nat bs) :: u64)"
    by (metis of_nat_unat_word)
  then show ?thesis using assms by (simp add: uint_8be_to_64_def SWAP64BE_bytes)
qed

lemma take_word_to_le: "k \<le> m \<Longrightarrow> take k (word_to_le m w) = word_to_le k w"
  by (rule nth_equalityI) (simp_all add: nth_word_to_le)

lemma uint_64_to_8be_eq: "0 < k \<Longrightarrow> k \<le> 8 \<Longrightarrow> uint_64_to_8be (of_nat n) k = Inr (be_bytes k n)"
proof -
  assume k: "0 < k" "k \<le> 8"
  have "word_to_le 8 (SWAP64BE (of_nat n)) = rev (word_to_le 8 (of_nat n :: u64))"
    unfolding SWAP64BE_def by (rule word_to_le_to_word) simp_all
  then have "drop (8 - k) (word_to_le 8 (SWAP64BE (of_nat n))) = rev (take k (word_to_le 8 (of_nat n :: u64)))"
    using k by (simp add: drop_rev)
  then show ?thesis using k by (simp add: uint_64_to_8be_def be_bytes_def take_word_to_le)
qed

lemma length_be_bytes [simp]: "length (be_bytes k n) = k"
  by (simp add: be_bytes_def)

lemma be_bytes_be_nat: "length bs \<le> 8 \<Longrightarrow> be_bytes (length bs) (be_nat bs) = bs"
proof -
  assume l: "length bs \<le> 8"
  have "unat (le_to_word (rev bs) :: u64) = be_nat bs" using l by (simp add: unat_le_to_word be_nat_def)
  then have "(of_nat (be_nat bs) :: u64) = le_to_word (rev bs)" by (metis of_nat_unat_word)
  then show ?thesis using l by (simp add: be_bytes_def)
qed

lemma be_nat_be_bytes:
  assumes "k \<le> 8" "n < 256 ^ k"
  shows "be_nat (be_bytes k n) = n"
proof -
  let ?w = "of_nat n :: u64"
  have n: "n < 2 ^ 64" using assms(2) pow256_le [OF assms(1)] by simp
  have "le_nat (word_to_le m w) = unat w mod 256 ^ m" for m and w :: u64
  proof (induction m arbitrary: w)
    case (Suc m)
    have "unat (ucast w :: byte) = unat w mod 256" by (simp add: unsigned_ucast_eq take_bit_eq_mod)
    moreover have "unat (drop_bit 8 w) = unat w div 256" unfolding unat_drop_bit_eq by (simp add: drop_bit_eq_div)
    ultimately show ?case using Suc.IH [of "drop_bit 8 w"] mod_mult2_eq [of "unat w" 256 "256 ^ m"] by simp
  qed simp
  then have "le_nat (word_to_le k ?w) = n" using n assms(2) by (simp add: unat_of_nat_small)
  then show ?thesis by (simp add: be_nat_def be_bytes_def)
qed

lemma digit_loop_eq:
  "n < 58 ^ k \<Longrightarrow> n < 2 ^ 64 \<Longrightarrow>
   digit_loop (of_nat n) (int (length P + k) - 1) (P @ replicate k (alphabet ! 0) @ R) =
     Inr (P @ map ((!) alphabet) (digits58 k n) @ R)"
proof (induction k arbitrary: n R)
  case 0
  then show ?case by (subst digit_loop.simps) simp
next
  case (Suc k)
  show ?case
  proof (cases "n = 0")
    case True
    then show ?thesis by (subst digit_loop.simps) (simp add: digits58_zero replicate_append_same)
  next
    case False
    let ?w = "of_nat n :: u64" and ?x = "alphabet ! (n mod 58)"
    have u: "unat ?w = n" using Suc.prems(2) by (simp add: unat_of_nat_small)
    have w: "?w \<noteq> 0" using u False by (metis unat_0)
    have "unat (?w div 58) = n div 58" "unat (?w mod 58) = n mod 58" by (simp_all add: unat_div unat_mod u)
    then have dm: "?w div 58 = of_nat (n div 58)" "unat (?w mod 58) = n mod 58" by (metis of_nat_unat_word, simp)
    have upd: "(P @ replicate (Suc k) (alphabet ! 0) @ R)[length P + k := ?x] = P @ replicate k (alphabet ! 0) @ ?x # R"
      by (simp add: list_update_append replicate_append_same [symmetric])
    have "digit_loop ?w (int (length P + Suc k) - 1) (P @ replicate (Suc k) (alphabet ! 0) @ R) =
        digit_loop (of_nat (n div 58)) (int (length P + k) - 1) (P @ replicate k (alphabet ! 0) @ ?x # R)"
      using w upd by (subst digit_loop.simps) (simp add: dm nat_add_distrib)
    also have "\<dots> = Inr (P @ map ((!) alphabet) (digits58 k (n div 58)) @ ?x # R)"
      using Suc.prems by (intro Suc.IH) (simp_all add: less_mult_imp_div_less mult.commute)
    finally show ?thesis by simp
  qed
qed

lemma block_room: "k \<le> 8 \<Longrightarrow> 256 ^ k \<le> (58 :: nat) ^ (encoded_block_sizes ! k)"
proof -
  assume "k \<le> 8"
  then have "k = 0 \<or> k = 1 \<or> k = 2 \<or> k = 3 \<or> k = 4 \<or> k = 5 \<or> k = 6 \<or> k = 7 \<or> k = 8" by linarith
  then show ?thesis by (elim disjE) (simp_all add: encoded_block_sizes_def)
qed

lemma length_code: "length (code bs) = encoded_block_sizes ! length bs"
  by (simp add: code_def)

lemma encode_block_eq:
  assumes "bs \<noteq> []" "length bs \<le> 8"
  shows "encode_block bs (length P) (P @ replicate (encoded_block_sizes ! length bs) (alphabet ! 0) @ R) = Inr (P @ code bs @ R)"
proof -
  have n: "be_nat bs < 58 ^ (encoded_block_sizes ! length bs)" "be_nat bs < 2 ^ 64"
    using be_nat_less [of bs] block_room [OF assms(2)] pow256_le [OF assms(2)] by simp_all
  show ?thesis
    using assms digit_loop_eq [OF n, of P R] by (simp add: encode_block_def uint_8be_to_64_eq table_defs code_def)
qed

text \<open>The overflow test of the reading loop is exact.\<close>

lemma sum_overflow: "r + l < r \<longleftrightarrow> 2 ^ 64 \<le> unat r + unat (l :: u64)"
proof (cases "unat r + unat l < 2 ^ 64")
  case True
  then have "unat (r + l) = unat r + unat l" by (intro unat_add_no_wrap) simp
  with True show ?thesis by (simp add: word_less_nat_alt)
next
  case False
  have "unat (r + l) = (unat r + unat l) mod 2 ^ 64" by (simp add: unat_word_ariths)
  also have "\<dots> = unat r + unat l - 2 ^ 64" using False unat_u64_less [of r] unat_u64_less [of l] by (simp add: mod_if)
  finally show ?thesis using False unat_u64_less [of l] by (simp add: word_less_nat_alt)
qed

lemma product_overflow:
  assumes "mul128 order d = (l, h)"
  shows "r + l < r \<or> h \<noteq> 0 \<longleftrightarrow> 2 ^ 64 \<le> unat r + unat order * unat d"
    "\<not> (r + l < r \<or> h \<noteq> 0) \<Longrightarrow> unat (r + l) = unat r + unat order * unat d"
proof -
  have m: "unat l + 2 ^ 64 * unat h = unat order * unat d" using mul128_exact [of order d] assms by simp
  show "r + l < r \<or> h \<noteq> 0 \<longleftrightarrow> 2 ^ 64 \<le> unat r + unat order * unat d"
  proof (cases "h = 0")
    case False
    then have "1 \<le> unat h" using unat_gt_0 [of h] by linarith
    then have "2 ^ 64 * 1 \<le> 2 ^ 64 * unat h" by (rule mult_le_mono2)
    then have "2 ^ 64 \<le> unat order * unat d" using m by linarith
    with False show ?thesis by simp
  qed (use m in \<open>simp add: sum_overflow\<close>)
  show "unat (r + l) = unat r + unat order * unat d" if "\<not> (r + l < r \<or> h \<noteq> 0)"
    using that m by (subst unat_add_no_wrap) (auto simp: sum_overflow)
qed

lemma number_loop_eq:
  "j + length cs \<le> 11 \<Longrightarrow>
   number_loop cs (of_nat (58 ^ j)) r =
     (if (\<forall>c \<in> set cs. 0 \<le> reverse_alphabet c) \<and> unat r + 58 ^ j * value58 (digit_values cs) < 2 ^ 64
      then Some (of_nat (unat r + 58 ^ j * value58 (digit_values cs))) else None)"
proof (induction cs arbitrary: j r)
  case Nil
  then show ?case using unat_u64_less [of r] by (simp add: digit_values_def)
next
  case (Cons c cs)
  show ?case
  proof (cases "0 \<le> reverse_alphabet c")
    case True
    define d where "d = nat (reverse_alphabet c)"
    have d: "d < 58" "(of_int (reverse_alphabet c) :: u64) = of_nat d" using alphabet_reverse [OF True] True by (simp_all add: d_def nat_less_iff)
    have "(58 :: nat) ^ j \<le> 58 ^ 10" using Cons.prems by (intro power_increasing) simp_all
    then have o: "unat (of_nat (58 ^ j) :: u64) = 58 ^ j" by (intro unat_of_nat_small) simp
    have du: "unat (of_nat d :: u64) = d" using d(1) by (intro unat_of_nat_small) simp
    obtain l h where m: "mul128 (of_nat (58 ^ j)) (of_nat d) = (l, h)" by fastforce
    note ov = product_overflow [OF m, of r, unfolded o du]
    have v: "58 ^ j * value58 (digit_values (c # cs)) = 58 ^ j * d + 58 ^ Suc j * value58 (digit_values cs)"
      by (simp add: digit_values_def d_def algebra_simps)
    show ?thesis
    proof (cases "r + l < r \<or> h \<noteq> 0")
      case True
      then have "number_loop (c # cs) (of_nat (58 ^ j)) r = None"
        using \<open>0 \<le> reverse_alphabet c\<close> m by (auto simp: d(2) Let_def simp del: of_nat_power)
      moreover have "\<not> unat r + 58 ^ j * value58 (digit_values (c # cs)) < 2 ^ 64"
        using ov(1) True unfolding v by linarith
      ultimately show ?thesis by simp
    next
      case False
      have "number_loop (c # cs) (of_nat (58 ^ j)) r = number_loop cs (of_nat (58 ^ Suc j)) (r + l)"
        using \<open>0 \<le> reverse_alphabet c\<close> m False by (simp add: d(2) Let_def mult.commute del: of_nat_power)
      then show ?thesis
        using \<open>0 \<le> reverse_alphabet c\<close> Cons.IH [of "Suc j" "r + l"] Cons.prems ov(2) [OF False] v
        by (simp only: length_Cons list.set ball_simps simp_thms add.assoc add_Suc_right add_Suc)
    qed
  qed simp
qed

lemma decode_block_eq:
  assumes "s \<noteq> []" "length s \<le> 11"
  shows "decode_block s pos res = Inr (map_option (\<lambda>bs. overwrite pos bs res) (uncode s))"
proof -
  define k where "k = decoded_table ! length s"
  define v where "v = value58 (digit_values (rev s))"
  have n: "number_loop (rev s) 1 0 = (if (\<forall>c \<in> set s. 0 \<le> reverse_alphabet c) \<and> v < 2 ^ 64 then Some (of_nat v) else None)"
    using number_loop_eq [of 0 "rev s" 0] assms(2) by (simp add: v_def)
  have sz: "decoded_block_sizes (length s) = Inr k" using decoded_sizes(1) [OF assms(2)] by (simp add: k_def)
  show ?thesis
  proof (cases "k \<le> 0 \<or> \<not> (\<forall>c \<in> set s. 0 \<le> reverse_alphabet c)")
    case True
    then show ?thesis using assms n sz by (auto simp: decode_block_def table_defs uncode_def k_def [symmetric] Let_def)
  next
    case False
    then have k: "0 < nat k" "nat k \<le> 8" using decoded_sizes(3) [OF assms(2)] by (auto simp: k_def)
    have v256: "256 ^ nat k \<le> v" if "2 ^ 64 \<le> v" using that pow256_le [OF k(2)] by simp
    have t: "push_bit (8 * nat k) 1 \<le> (of_nat v :: u64) \<longleftrightarrow> 256 ^ nat k \<le> v" if "v < 2 ^ 64" "nat k < 8"
    proof -
      have "(256 :: nat) ^ nat k \<le> 256 ^ 7" using that(2) by (intro power_increasing) simp_all
      then have "unat (of_nat (256 ^ nat k) :: u64) = 256 ^ nat k" by (intro unat_of_nat_small) simp
      moreover have "push_bit (8 * nat k) (1 :: u64) = of_nat (256 ^ nat k)"
        by (simp add: push_bit_eq_mult power_mult)
      ultimately show ?thesis using that(1) by (simp add: word_le_nat_alt unat_of_nat_small del: of_nat_power)
    qed
    show ?thesis
    proof (cases "v < 2 ^ 64")
      case True
      have "v < 256 ^ nat k" if "\<not> nat k < 8"
      proof -
        have "nat k = 8" using that k(2) by simp
        with True show ?thesis by simp
      qed
      then show ?thesis
        using assms n sz False True k t [OF True]
        by (cases "nat k < 8"; cases "256 ^ nat k \<le> v") (auto simp: decode_block_def table_defs uncode_def k_def [symmetric] v_def [symmetric] Let_def uint_64_to_8be_eq)
    next
      case F: False
      then show ?thesis
        using assms n sz False v256
        by (auto simp: decode_block_def table_defs uncode_def k_def [symmetric] v_def [symmetric] Let_def)
    qed
  qed
qed

lemma uncode_code:
  assumes "bs \<noteq> []" "length bs \<le> 8"
  shows "uncode (code bs) = Some bs"
proof -
  let ?k = "encoded_block_sizes ! length bs" and ?ds = "digits58 (encoded_block_sizes ! length bs) (be_nat bs)"
  have r: "0 \<le> reverse_alphabet (alphabet ! d)" "nat (reverse_alphabet (alphabet ! d)) = d" if "d \<in> set ?ds" for d
    using digits58_less [OF that] reverse_alphabet_nth by simp_all
  then have "map (\<lambda>d. nat (reverse_alphabet (alphabet ! d))) (rev ?ds) = rev ?ds" by (intro map_idI) simp
  then have "value58 (digit_values (rev (code bs))) = be_nat bs"
    using be_nat_less [of bs] block_room [OF assms(2)]
    by (simp add: digit_values_def code_def rev_map comp_def value58_digits58)
  moreover have "decoded_table ! length (code bs) = int (length bs)"
    using decoded_sizes(2) [OF assms(2)] by (simp add: length_code)
  moreover have "\<forall>c \<in> set (code bs). 0 \<le> reverse_alphabet c" using r(1) by (auto simp: code_def)
  ultimately show ?thesis
    using assms be_nat_less [of bs] be_bytes_be_nat [OF assms(2)] by (simp add: uncode_def)
qed

lemma code_uncode:
  assumes "uncode s = Some bs" "length s \<le> 11"
  shows "bs \<noteq> [] \<and> length bs \<le> 8 \<and> s = code bs"
proof -
  define k where "k = decoded_table ! length s"
  define v where "v = value58 (digit_values (rev s))"
  have k: "0 < k" "\<forall>c \<in> set s. 0 \<le> reverse_alphabet c" "v < 256 ^ nat k" "bs = be_bytes (nat k) v"
    using assms(1) by (auto simp: uncode_def k_def v_def Let_def not_le split: if_splits)
  have sz: "k \<le> 8" "encoded_block_sizes ! nat k = length s" using decoded_sizes(3) [OF assms(2)] k(1) by (simp_all add: k_def)
  let ?ds = "digit_values (rev s)"
  have ds: "\<forall>d \<in> set ?ds. d < 58" using k(2) alphabet_reverse by (auto simp: digit_values_def nat_less_iff)
  have "digits58 (length s) v = rev ?ds" using digits58_value58 [OF ds] by (simp add: v_def digit_values_def)
  then have "code bs = map (\<lambda>c. alphabet ! nat (reverse_alphabet c)) s"
    using be_nat_be_bytes [of "nat k" v] k sz by (simp add: code_def digit_values_def rev_map comp_def)
  also have "\<dots> = s" using k(2) alphabet_reverse by (intro map_idI) auto
  finally show ?thesis using k(1,4) sz(1) by (auto simp: simp flip: length_0_conv)
qed

section \<open>Whole strings\<close>

text \<open>The specification: the blocks, each written or read on its own.\<close>

function chunks :: "nat \<Rightarrow> 'a list \<Rightarrow> 'a list list" where
  "chunks n xs = (if n = 0 \<or> xs = [] then [] else take n xs # chunks n (drop n xs))"
  by pat_completeness auto
termination by (relation "measure (\<lambda>(_, xs). length xs)") auto

declare chunks.simps [simp del]

definition spec_encode :: "bytes \<Rightarrow> string" where
  "spec_encode data = concat (map code (chunks 8 data))"

definition spec_decode :: "string \<Rightarrow> bytes option" where
  "spec_decode s = map_option concat (those (map uncode (chunks 11 s)))"

lemma chunks_Nil [simp]: "chunks n [] = []"
  by (simp add: chunks.simps)

lemma chunks_one: "xs \<noteq> [] \<Longrightarrow> length xs \<le> n \<Longrightarrow> chunks n xs = [xs]"
  by (cases n) (simp_all add: chunks.simps)

lemma chunks_append: "0 < n \<Longrightarrow> length xs = n \<Longrightarrow> chunks n (xs @ ys) = xs # chunks n ys"
  by (subst chunks.simps) auto

lemma chunks_eq:
  "0 < n \<Longrightarrow> chunks n xs = map (\<lambda>i. take n (drop (i * n) xs)) [0..<length xs div n]
     @ (if length xs mod n = 0 then [] else [drop (length xs div n * n) xs])"
proof (induction n xs rule: chunks.induct)
  case (1 n xs)
  show ?case
  proof (cases "length xs < n")
    case True
    then show ?thesis by (cases "xs = []") (simp_all add: chunks_one)
  next
    case False
    then have q: "length xs div n = Suc (length (drop n xs) div n)" "length (drop n xs) mod n = length xs mod n"
      using "1.prems" by (simp_all add: le_div_geq le_mod_geq)
    have up: "[0..<Suc m] = 0 # map Suc [0..<m]" for m by (simp add: upt_conv_Cons map_Suc_upt del: upt_Suc)
    have "chunks n xs = take n xs # chunks n (drop n xs)" using "1.prems" False by (subst chunks.simps) auto
    also have "chunks n (drop n xs) = map (\<lambda>i. take n (drop (i * n) (drop n xs))) [0..<length (drop n xs) div n]
        @ (if length xs mod n = 0 then [] else [drop (length (drop n xs) div n * n) (drop n xs)])"
      using "1.IH" "1.prems" False q(2) by fastforce
    finally show ?thesis unfolding q(1) up by (simp add: comp_def add.commute)
  qed
qed

lemma those_append_None: "those (xs @ [None]) = None"
  by (induction xs) (auto split: option.split)

lemma those_append_Some: "those (xs @ [Some y]) = map_option (\<lambda>ys. ys @ [y]) (those xs)"
  by (induction xs) (auto simp: option.map_comp comp_def split: option.split)

lemma block_eleven: "k \<le> 8 \<Longrightarrow> encoded_block_sizes ! k = 11 \<longleftrightarrow> k = 8"
  "k \<le> 8 \<Longrightarrow> encoded_block_sizes ! k \<le> 11" "k \<le> 8 \<Longrightarrow> encoded_block_sizes ! k = 0 \<longleftrightarrow> k = 0"
proof -
  have *: "(encoded_block_sizes ! k = 11 \<longleftrightarrow> k = 8) \<and> encoded_block_sizes ! k \<le> 11 \<and> (encoded_block_sizes ! k = 0 \<longleftrightarrow> k = 0)" if "k \<le> 8"
  proof -
    have "k = 0 \<or> k = 1 \<or> k = 2 \<or> k = 3 \<or> k = 4 \<or> k = 5 \<or> k = 6 \<or> k = 7 \<or> k = 8" using that by linarith
    then show ?thesis by (elim disjE) (simp_all add: encoded_block_sizes_def)
  qed
  then show "k \<le> 8 \<Longrightarrow> encoded_block_sizes ! k = 11 \<longleftrightarrow> k = 8" "k \<le> 8 \<Longrightarrow> encoded_block_sizes ! k \<le> 11"
    "k \<le> 8 \<Longrightarrow> encoded_block_sizes ! k = 0 \<longleftrightarrow> k = 0" by (simp_all only: *)
qed

lemma spec_encode_block:
  "length b = 8 \<Longrightarrow> spec_encode (b @ d) = code b @ spec_encode d"
  "b \<noteq> [] \<Longrightarrow> length b \<le> 8 \<Longrightarrow> spec_encode b = code b"
  by (simp_all add: spec_encode_def chunks_append chunks_one)

lemma spec_encode_Nil [simp]: "spec_encode [] = []"
  by (simp add: spec_encode_def)

lemma spec_decode_step: "s \<noteq> [] \<Longrightarrow> spec_decode s =
    (case uncode (take 11 s) of None \<Rightarrow> None | Some b \<Rightarrow> map_option (\<lambda>d. b @ d) (spec_decode (drop 11 s)))"
  unfolding spec_decode_def by (subst chunks.simps) (simp add: option.map_comp comp_def split: option.split)

lemma code_nonempty: "b \<noteq> [] \<Longrightarrow> length b \<le> 8 \<Longrightarrow> code b \<noteq> []"
  using length_code [of b] block_eleven(3) [of "length b"] by fastforce

text \<open>Reading and writing are inverse to each other, block by block.\<close>

lemma spec_decode_encode: "spec_decode (spec_encode d) = Some d"
proof (induction d rule: measure_induct_rule [of length])
  case (less d)
  consider "d = []" | "d \<noteq> []" "length d \<le> 8" | "8 < length d" by fastforce
  then show ?case
  proof cases
    case 1
    then show ?thesis by (simp add: spec_decode_def)
  next
    case 2
    then have "length (code d) \<le> 11" by (simp add: length_code block_eleven(2))
    with 2 show ?thesis
      using code_nonempty [OF 2] by (simp add: spec_encode_block spec_decode_step uncode_code) (simp add: spec_decode_def)
  next
    case 3
    define b where "b = take 8 d"
    have b: "length b = 8" "b \<noteq> []" "d = b @ drop 8 d" using 3 by (auto simp: b_def)
    have l: "length (code b) = 11" using b(1) block_eleven(1) [of 8] by (simp add: length_code)
    have "spec_encode d = code b @ spec_encode (drop 8 d)" using spec_encode_block(1) [OF b(1)] b(3) by metis
    moreover have "spec_decode (spec_encode (drop 8 d)) = Some (drop 8 d)" using less.IH [of "drop 8 d"] 3 by simp
    ultimately show ?thesis
      using l b uncode_code [OF b(2)] code_nonempty [OF b(2)] by (simp add: spec_decode_step)
  qed
qed

lemma spec_encode_decode: "spec_decode s = Some d \<Longrightarrow> s = spec_encode d"
proof (induction s arbitrary: d rule: measure_induct_rule [of length])
  case (less s)
  show ?case
  proof (cases "s = []")
    case True
    then show ?thesis using less.prems by (simp add: spec_decode_def)
  next
    case False
    then obtain b d' where b: "uncode (take 11 s) = Some b" "spec_decode (drop 11 s) = Some d'" "d = b @ d'"
      using less.prems by (auto simp: spec_decode_step split: option.splits)
    have c: "b \<noteq> []" "length b \<le> 8" "take 11 s = code b" using code_uncode [OF b(1)] by simp_all
    have d': "drop 11 s = spec_encode d'" using less.IH [of "drop 11 s" d'] False b(2) by simp
    show ?thesis
    proof (cases "length s \<le> 11")
      case True
      then have "d' = []" using b(2) by (simp add: spec_decode_def)
      with True c b(3) show ?thesis by (simp add: spec_encode_block)
    next
      case F: False
      then have "length (code b) = 11" using c(3) [symmetric] by simp
      then have "length b = 8" using block_eleven(1) [OF c(2)] by (simp add: length_code)
      then show ?thesis using c(3) d' b(3) by (metis append_take_drop_id spec_encode_block(1))
    qed
  qed
qed

text \<open>The loops over a prepared string are the specification.\<close>

lemma upt_left: "[i..<i + Suc m] = i # [Suc i..<Suc i + m]"
  by (simp add: upt_rec)

lemma encode_loop_eq:
  "length P = i * 11 \<Longrightarrow> (i + m) * 8 \<le> length data \<Longrightarrow>
   encode_loop data [i..<i + m] (P @ replicate (11 * m + L) (alphabet ! 0)) =
     Inr (P @ concat (map (\<lambda>i. code (take 8 (drop (i * 8) data))) [i..<i + m]) @ replicate L (alphabet ! 0))"
proof (induction m arbitrary: i P)
  case (Suc m)
  let ?b = "take 8 (drop (i * 8) data)"
  have b: "length ?b = 8" "?b \<noteq> []" using Suc.prems(2) by auto
  have c: "encoded_block_sizes ! length ?b = 11" using b(1) block_eleven(1) [of 8] by simp
  have "encode_block ?b (length P) (P @ replicate 11 (alphabet ! 0) @ replicate (11 * m + L) (alphabet ! 0)) =
      Inr (P @ code ?b @ replicate (11 * m + L) (alphabet ! 0))"
    using encode_block_eq [of ?b P] b(2) c by simp
  then have "encode_loop data [i..<i + Suc m] (P @ replicate (11 * Suc m + L) (alphabet ! 0)) =
      encode_loop data [Suc i..<Suc i + m] ((P @ code ?b) @ replicate (11 * m + L) (alphabet ! 0))"
    using Suc.prems(1) unfolding upt_left by (simp add: table_defs replicate_add [symmetric] add.assoc del: upt_Suc)
  also have "\<dots> = Inr ((P @ code ?b) @ concat (map (\<lambda>i. code (take 8 (drop (i * 8) data))) [Suc i..<Suc i + m]) @ replicate L (alphabet ! 0))"
    using Suc.prems c by (intro Suc.IH) (simp_all add: length_code)
  finally show ?case unfolding upt_left by (simp del: upt_Suc)
qed simp

lemma length_concat_equal: "\<forall>x \<in> set xs. length (f x) = k \<Longrightarrow> length (concat (map f xs)) = length xs * k"
  by (induction xs) simp_all

lemma encode_spec: "encode data = Inr (spec_encode data)"
proof (cases "data = []")
  case False
  define q r where "q = length data div 8" and "r = length data mod 8"
  have qr: "length data = q * 8 + r" "r < 8" by (simp_all add: q_def r_def)
  define last where "last = drop (q * 8) data"
  have l: "length last = r" "take r (drop (q * 8) data) = last" using qr by (simp_all add: last_def)
  let ?full = "concat (map (\<lambda>i. code (take 8 (drop (i * 8) data))) [0..<q])"
  have loop: "encode_loop data [0..<q] (replicate (q * 11 + encoded_block_sizes ! r) (alphabet ! 0)) =
      Inr (?full @ replicate (encoded_block_sizes ! r) (alphabet ! 0))"
    using encode_loop_eq [of "[]" 0 q data "encoded_block_sizes ! r"] qr by (simp add: mult.commute)
  have "length (code (take 8 (drop (i * 8) data))) = 11" if "i < q" for i
  proof -
    have "(i + 1) * 8 \<le> q * 8" using that by (intro mult_le_mono1) simp
    then show ?thesis using qr block_eleven(1) [of 8] by (simp add: length_code)
  qed
  then have full: "length ?full = q * 11" by (subst length_concat_equal [where k = 11]) auto
  have spec: "spec_encode data = ?full @ (if r = 0 then [] else code last)"
    unfolding spec_encode_def by (subst chunks_eq) (simp_all add: q_def r_def last_def comp_def)
  show ?thesis
  proof (cases "r = 0")
    case True
    then show ?thesis using False loop spec by (simp add: encode_def table_defs q_def [symmetric] r_def [symmetric] encoded_block_sizes_def)
  next
    case nz: False
    then have "encode_block last (length ?full) (?full @ replicate (encoded_block_sizes ! length last) (alphabet ! 0) @ []) = Inr (?full @ code last @ [])"
      using l qr(2) by (intro encode_block_eq) auto
    then show ?thesis
      using False nz loop spec l full by (simp add: encode_def table_defs q_def [symmetric] r_def [symmetric])
  qed
qed (simp add: encode_def)

lemma overwrite_prefix: "length b = k \<Longrightarrow> overwrite (length P) b (P @ replicate k x @ R) = P @ b @ R"
  by (simp add: overwrite_def)

lemma decode_loop_eq:
  "length P = i * 8 \<Longrightarrow> (i + m) * 11 \<le> length enc \<Longrightarrow>
   decode_loop enc [i..<i + m] (P @ replicate (8 * m + L) 0) =
     Inr (map_option (\<lambda>bs. P @ concat bs @ replicate L 0) (those (map (\<lambda>i. uncode (take 11 (drop (i * 11) enc))) [i..<i + m])))"
proof (induction m arbitrary: i P)
  case (Suc m)
  let ?s = "take 11 (drop (i * 11) enc)"
  have s: "length ?s = 11" "?s \<noteq> []" using Suc.prems(2) by auto
  have d: "decode_block ?s (length P) data = Inr (map_option (\<lambda>bs. overwrite (length P) bs data) (uncode ?s))" for data
    using s by (intro decode_block_eq) simp_all
  show ?case
  proof (cases "uncode ?s")
    case None
    then show ?thesis using Suc.prems(1) d unfolding upt_left by (simp add: table_defs del: upt_Suc)
  next
    case (Some b)
    have c: "length b \<le> 8" "?s = code b" using code_uncode [OF Some] s(1) by simp_all
    then have "length (code b) = 11" using s(1) by metis
    then have "length b = 8" using block_eleven(1) [OF c(1)] by (simp add: length_code)
    then have w: "overwrite (length P) b (P @ replicate (8 * Suc m + L) 0) = (P @ b) @ replicate (8 * m + L) 0"
      using overwrite_prefix [of b 8 P 0 "replicate (8 * m + L) 0"] by (simp add: replicate_add [symmetric] add.assoc)
    then have "decode_loop enc [i..<i + Suc m] (P @ replicate (8 * Suc m + L) 0) =
        decode_loop enc [Suc i..<Suc i + m] ((P @ b) @ replicate (8 * m + L) 0)"
      using Suc.prems(1) d Some unfolding upt_left by (simp add: table_defs del: upt_Suc replicate_Suc)
    also have "\<dots> = Inr (map_option (\<lambda>bs. (P @ b) @ concat bs @ replicate L 0)
        (those (map (\<lambda>i. uncode (take 11 (drop (i * 11) enc))) [Suc i..<Suc i + m])))"
      using Suc.prems \<open>length b = 8\<close> by (intro Suc.IH) simp_all
    finally show ?thesis using Some unfolding upt_left by (simp add: option.map_comp comp_def del: upt_Suc)
  qed
qed simp

lemma uncode_length: "uncode s = Some bs \<Longrightarrow> length bs = nat (decoded_table ! length s)"
  by (auto simp: uncode_def Let_def split: if_splits)

lemma those_length: "those xs = Some ys \<Longrightarrow> length ys = length xs"
  by (induction xs arbitrary: ys) (auto split: option.splits)

lemma full_blocks_length:
  assumes "those (map (\<lambda>i. uncode (take 11 (drop (i * 11) enc))) is) = Some bs" "\<forall>i \<in> set is. (i + 1) * 11 \<le> length enc"
  shows "length (concat bs) = length is * 8"
  using assms
proof (induction "is" arbitrary: bs)
  case (Cons i "is")
  have "decoded_table ! 11 = 8" by code_simp
  with Cons show ?case by (auto dest!: uncode_length split: option.splits)
qed simp

lemma decode_spec: "decode enc = Inr (spec_decode enc)"
proof (cases "enc = []")
  case False
  define q r where "q = length enc div 11" and "r = length enc mod 11"
  have qr: "length enc = q * 11 + r" "r < 11" by (simp_all add: q_def r_def)
  define last where "last = drop (q * 11) enc"
  have l: "length last = r" "take r (drop (q * 11) enc) = last" using qr by (simp_all add: last_def)
  define firsts where "firsts = map (\<lambda>i. uncode (take 11 (drop (i * 11) enc))) [0..<q]"
  define k where "k = decoded_table ! r"
  have sz: "decoded_block_sizes r = Inr k" using decoded_sizes(1) [of r] qr(2) by (simp add: k_def)
  have loop: "decode_loop enc [0..<q] (replicate (q * 8 + L) 0) = Inr (map_option (\<lambda>bs. concat bs @ replicate L 0) (those firsts))" for L
    using decode_loop_eq [of "[]" 0 q enc L] qr by (simp add: mult.commute firsts_def)
  have len: "length (concat bs) = q * 8" if "those firsts = Some bs" for bs
    using full_blocks_length [of enc "[0..<q]" bs] that qr by (auto simp: firsts_def)
  have spec: "spec_decode enc = map_option concat (those (firsts @ (if r = 0 then [] else [uncode last])))"
    unfolding spec_decode_def by (subst chunks_eq) (simp_all add: q_def r_def last_def firsts_def comp_def)
  have dec: "decode enc = (if k < 0 then Inr None
      else case those firsts of None \<Rightarrow> Inr None | Some bs \<Rightarrow>
        if r = 0 then Inr (Some (concat bs @ replicate (nat k) 0))
        else decode_block last (q * 8) (concat bs @ replicate (nat k) 0))"
    using False l by (simp add: decode_def table_defs q_def [symmetric] r_def [symmetric] sz loop Let_def split: option.split)
  show ?thesis
  proof (cases "r = 0")
    case True
    have "decoded_table ! 0 = 0" by code_simp
    with True show ?thesis by (simp add: dec spec k_def split: option.split)
  next
    case nz: False
    then have "last \<noteq> []" using l by auto
    then have db: "decode_block last pos res = Inr (map_option (\<lambda>bs. overwrite pos bs res) (uncode last))" for pos res
      using l qr(2) by (intro decode_block_eq) simp_all
    show ?thesis
    proof (cases "uncode last")
      case None
      with nz show ?thesis by (auto simp: dec spec db those_append_None split: option.split)
    next
      case (Some b)
      then have b: "length b = nat k" "\<not> k < 0" using l(1) by (auto simp: uncode_def k_def Let_def split: if_splits)
      have "overwrite (q * 8) b (concat bs @ replicate (nat k) 0) = concat bs @ b" if "those firsts = Some bs" for bs
        using overwrite_prefix [OF b(1), of "concat bs" 0 "[]"] len [OF that] by simp
      with nz Some b(2) show ?thesis by (simp add: dec spec db those_append_Some split: option.split)
    qed
  qed
qed (simp add: decode_def spec_decode_def)

section \<open>Properties\<close>

text \<open>C26: Base 58 text and data are in one-to-one correspondence: encode and decode always return, decode gives
  back what encode wrote, and a string that decode accepts is the one encode writes for the data, so
  no data has two texts. Digits outside the alphabet, block lengths that encode never writes and
  blocks whose number is too large are refused.\<close>

theorem base58_bijective:
  "\<exists>enc r. encode data = Inr enc \<and> decode s = Inr r \<and> decode enc = Inr (Some data) \<and> (r = Some data \<longleftrightarrow> s = enc)"
  using spec_decode_encode [of data] spec_encode_decode [of s data]
  by (auto simp: encode_spec decode_spec)

text \<open>What decode_addr accepts, in terms of the text's data.\<close>

lemma decode_addr_eq:
  "decode_addr s = Inr (Some (tag, data)) \<longleftrightarrow>
     (\<exists>buf n. s = spec_encode (buf @ take 4 (fast_hash buf)) \<and> read_varint buf = (n, tag, data) \<and> 0 < n)"
proof
  assume "\<exists>buf n. s = spec_encode (buf @ take 4 (fast_hash buf)) \<and> read_varint buf = (n, tag, data) \<and> 0 < n"
  then obtain buf n where b: "s = spec_encode (buf @ take 4 (fast_hash buf))" "read_varint buf = (n, tag, data)" "0 < n" by blast
  obtain used where "buf = used @ data" "n = int (length used)" using read_varint_accepts [OF b(2)] b(3) by auto
  then have "drop (nat n) buf = data" "buf \<noteq> []" using b(3) by auto
  then show "decode_addr s = Inr (Some (tag, data))"
    using b by (simp add: decode_addr_def decode_spec spec_decode_encode addr_checksum_size_def cn_fast_hash_eq Let_def)
next
  assume d: "decode_addr s = Inr (Some (tag, data))"
  then obtain all where all: "spec_decode s = Some all"
    by (auto simp: decode_addr_def decode_spec split: option.splits)
  define buf where "buf = take (length all - 4) all"
  obtain n data' and tag' :: u64 where r: "read_varint buf = (n, tag', data')" by (metis prod_cases3)
  have f: "take 4 (fast_hash buf) = drop (length all - 4) all" "0 < n" "tag' = tag" "data = drop (nat n) buf"
    using d by (auto simp: decode_addr_def decode_spec all addr_checksum_size_def Let_def cn_fast_hash_eq
        buf_def [symmetric] r split: if_splits)
  obtain used where "buf = used @ data'" "n = int (length used)" using read_varint_accepts [OF r] f(2) by auto
  then have "data' = data" using f(4) by simp
  moreover have "all = buf @ take 4 (fast_hash buf)" using f(1) by (metis append_take_drop_id buf_def)
  ultimately show "\<exists>buf n. s = spec_encode (buf @ take 4 (fast_hash buf)) \<and> read_varint buf = (n, tag, data) \<and> 0 < n"
    using spec_encode_decode [OF all] r f(2,3) by blast
qed

lemma encode_addr_eq: "encode_addr tag data = Inr (spec_encode ((get_varint_data tag @ data) @ take 4 (fast_hash (get_varint_data tag @ data))))"
  by (simp add: encode_addr_def encode_spec cn_fast_hash_eq addr_checksum_size_def Let_def)

lemma decode_encoded_addr: "encode_addr tag data = Inr s \<Longrightarrow> decode_addr s = Inr (Some (tag, data))"
proof -
  assume "encode_addr tag data = Inr s"
  moreover have "read_varint (get_varint_data tag @ data) = (int (length (write_varint tag)), tag, data)" "0 < length (write_varint tag)"
    by (simp_all add: get_varint_data_def read_write_varint) (subst write_varint.simps, simp)
  ultimately show ?thesis unfolding decode_addr_eq encode_addr_eq by fastforce
qed

text \<open>C27: An address with a payload has one text: for a tag and nonempty data, encode_addr returns a text that
  decode_addr takes apart again, and no other text is accepted for them; a wrong checksum, an
  overlong tag or a different spelling of the digits are all refused.\<close>

theorem address_text_unique:
  assumes "data \<noteq> []"
  shows "\<exists>addr. encode_addr tag data = Inr addr \<and> (decode_addr s = Inr (Some (tag, data)) \<longleftrightarrow> s = addr)"
proof -
  obtain addr where a: "encode_addr tag data = Inr addr" by (simp add: encode_addr_eq)
  have "s = addr" if d: "decode_addr s = Inr (Some (tag, data))"
  proof -
    obtain buf n where b: "s = spec_encode (buf @ take 4 (fast_hash buf))" "read_varint buf = (n, tag, data)" "0 < n"
      using d unfolding decode_addr_eq by blast
    then obtain used where "buf = used @ data" "used = write_varint tag" using read_varint_accepts [OF b(2)] assms by auto
    then show ?thesis using a b(1) by (simp add: encode_addr_eq get_varint_data_def)
  qed
  then show ?thesis using a decode_encoded_addr [OF a] by blast
qed

theorem address_text_unique_witness:
  "\<exists>addr. encode_addr 18 [1, 2, 3] = Inr addr \<and> decode_addr addr = Inr (Some (18, [1, 2, 3]))"
proof -
  obtain addr where a: "encode_addr 18 [1, 2, 3] = Inr addr" by (simp add: encode_addr_eq)
  with address_text_unique [of "[1, 2, 3]" 18 addr] show ?thesis by auto
qed

text \<open>Without data a truncated tag is accepted too: the single byte 0x80 reads as tag 0 although a byte is missing.\<close>

lemma truncated_tag_accepted:
  "\<exists>s. decode_addr s = Inr (Some (0, [])) \<and> encode_addr 0 [] \<noteq> Inr s"
proof -
  let ?s = "\<lambda>buf. spec_encode (buf @ take 4 (fast_hash buf))"
  have "read_varint [0x80] = (1, 0 :: u64, [])" by code_simp
  then have "decode_addr (?s [0x80]) = Inr (Some (0, []))" unfolding decode_addr_eq by (intro exI [of _ "[0x80]"]) auto
  moreover have "encode_addr 0 [] = Inr (?s [0])"
    by (simp add: encode_addr_eq get_varint_data_def write_varint.simps)
  moreover have "?s [0x80] \<noteq> ?s [0]"
  proof
    assume "?s [0x80] = ?s [0]"
    then have "Some ([0x80] @ take 4 (fast_hash [0x80])) = Some ([0] @ take 4 (fast_hash [0]))"
      using spec_decode_encode by metis
    then show False by simp
  qed
  ultimately show ?thesis by fastforce
qed

end
