(* ===== verification/Blake2b.thy ===== *)
theory Blake2b
  imports Complex_Main Bytes
begin

unbundle bit_operations_syntax

text \<open>
  vendor/monero/src/crypto/blake2b.c and blake2b.h, which CMakeLists.txt links into the prototype:
  BLAKE2b with its streaming state, on a little-endian machine. A function that returns an
  \<open>int\<close> returns it beside the state. Buffers and their lengths are byte lists, so a null pointer
  is the empty list; \<open>memwipe\<close> of a dead buffer is left out. \<open>blake2b_long\<close> and
  \<open>blake2b_monero\<close> are in Blake2b_Variants. The second half states RFC 7693, its two tables
  included, and shows that the code computes it.
\<close>

section \<open>The code\<close>

definition rotr64 :: "u64 \<Rightarrow> nat \<Rightarrow> u64" where
  "rotr64 w c = drop_bit c w OR push_bit (64 - c) w"

definition blake2b_IV :: "u64 list" where
  "blake2b_IV =
    [0x6a09e667f3bcc908, 0xbb67ae8584caa73b, 0x3c6ef372fe94f82b, 0xa54ff53a5f1d36f1,
     0x510e527fade682d1, 0x9b05688c2b3e6c1f, 0x1f83d9abfb41bd6b, 0x5be0cd19137e2179]"

definition blake2b_sigma :: "nat list list" where
  "blake2b_sigma =
    [[0, 1, 2, 3, 4, 5, 6, 7, 8, 9, 10, 11, 12, 13, 14, 15],
     [14, 10, 4, 8, 9, 15, 13, 6, 1, 12, 0, 2, 11, 7, 5, 3],
     [11, 8, 12, 0, 5, 2, 15, 13, 10, 14, 3, 6, 7, 1, 9, 4],
     [7, 9, 3, 1, 13, 12, 11, 14, 2, 6, 5, 10, 4, 0, 15, 8],
     [9, 0, 5, 7, 2, 4, 10, 15, 14, 1, 11, 12, 6, 8, 3, 13],
     [2, 12, 6, 10, 0, 11, 8, 3, 4, 13, 7, 5, 15, 14, 1, 9],
     [12, 5, 1, 15, 14, 13, 4, 10, 0, 7, 6, 3, 9, 2, 8, 11],
     [13, 11, 7, 14, 12, 1, 3, 9, 5, 0, 15, 4, 8, 6, 2, 10],
     [6, 15, 14, 9, 11, 3, 0, 8, 12, 2, 13, 7, 1, 4, 10, 5],
     [10, 2, 8, 4, 7, 6, 1, 5, 15, 11, 9, 14, 3, 12, 13, 0],
     [0, 1, 2, 3, 4, 5, 6, 7, 8, 9, 10, 11, 12, 13, 14, 15],
     [14, 10, 4, 8, 9, 15, 13, 6, 1, 12, 0, 2, 11, 7, 5, 3]]"

record blake2b_param =
  digest_length :: u8
  key_length :: u8
  fanout :: u8
  param_depth :: u8
  leaf_length :: u32
  node_offset :: u64
  node_depth :: u8
  inner_length :: u8
  reserved :: bytes
  salt :: bytes
  personal :: bytes

record blake2b_state =
  b2_h :: "u64 list"
  b2_t :: "u64 \<times> u64"
  b2_f :: "u64 \<times> u64"
  b2_buf :: bytes
  b2_buflen :: nat
  b2_outlen :: nat
  b2_last_node :: u8

text \<open>The packed layout of the parameter block.\<close>

definition param_bytes :: "blake2b_param \<Rightarrow> bytes" where
  "param_bytes p = [digest_length p, key_length p, fanout p, param_depth p] @ word_to_le 4 (leaf_length p)
     @ word_to_le 8 (node_offset p) @ [node_depth p, inner_length p] @ reserved p @ salt p @ personal p"

definition load64s :: "nat \<Rightarrow> bytes \<Rightarrow> u64 list" where
  "load64s n bs = map (\<lambda>i. le_to_word (take 8 (drop (8 * i) bs))) [0..<n]"

definition zero_state :: blake2b_state where
  "zero_state = \<lparr>b2_h = replicate 8 0, b2_t = (0, 0), b2_f = (0, 0), b2_buf = replicate 128 0, b2_buflen = 0,
     b2_outlen = 0, b2_last_node = 0\<rparr>"

definition blake2b_set_lastnode :: "blake2b_state \<Rightarrow> blake2b_state" where
  "blake2b_set_lastnode S = S\<lparr>b2_f := (fst (b2_f S), - 1)\<rparr>"

definition blake2b_set_lastblock :: "blake2b_state \<Rightarrow> blake2b_state" where
  "blake2b_set_lastblock S =
     (let S = (if b2_last_node S \<noteq> 0 then blake2b_set_lastnode S else S) in S\<lparr>b2_f := (- 1, snd (b2_f S))\<rparr>)"

definition blake2b_increment_counter :: "blake2b_state \<Rightarrow> u64 \<Rightarrow> blake2b_state" where
  "blake2b_increment_counter S inc =
     (let t0 = fst (b2_t S) + inc in S\<lparr>b2_t := (t0, snd (b2_t S) + (if t0 < inc then 1 else 0))\<rparr>)"

definition blake2b_invalidate_state :: "blake2b_state \<Rightarrow> blake2b_state" where
  "blake2b_invalidate_state S = blake2b_set_lastblock zero_state"

definition blake2b_init0 :: "blake2b_state \<Rightarrow> blake2b_state" where
  "blake2b_init0 S = zero_state\<lparr>b2_h := blake2b_IV\<rparr>"

definition blake2b_init_param :: "blake2b_state \<Rightarrow> blake2b_param \<Rightarrow> int \<times> blake2b_state" where
  "blake2b_init_param S P =
     (let S = blake2b_init0 S;
          S = S\<lparr>b2_h := map2 (XOR) (b2_h S) (load64s 8 (param_bytes P))\<rparr>
      in (0, S\<lparr>b2_outlen := unat (digest_length P)\<rparr>))"

definition sequential_param :: "nat \<Rightarrow> nat \<Rightarrow> blake2b_param" where
  "sequential_param outlen keylen =
     \<lparr>digest_length = of_nat outlen, key_length = of_nat keylen, fanout = 1, param_depth = 1, leaf_length = 0,
      node_offset = 0, node_depth = 0, inner_length = 0, reserved = replicate 14 0, salt = replicate 16 0,
      personal = replicate 16 0\<rparr>"

definition blake2b_init :: "blake2b_state \<Rightarrow> nat \<Rightarrow> int \<times> blake2b_state" where
  "blake2b_init S outlen =
     (if outlen = 0 \<or> outlen > 64 then (- 1, blake2b_invalidate_state S)
      else blake2b_init_param S (sequential_param outlen 0))"

text \<open>The macro G on positions a, b, c, d of v, and the eight of a ROUND.\<close>

definition G_macro :: "u64 list \<Rightarrow> nat \<Rightarrow> u64 list \<Rightarrow> nat \<times> nat \<times> nat \<times> nat \<times> nat \<Rightarrow> u64 list" where
  "G_macro m r v = (\<lambda>(i, a, b, c, d).
     let v = v[a := v ! a + v ! b + m ! (blake2b_sigma ! r ! (2 * i + 0))];
         v = v[d := rotr64 (v ! d XOR v ! a) 32];
         v = v[c := v ! c + v ! d];
         v = v[b := rotr64 (v ! b XOR v ! c) 24];
         v = v[a := v ! a + v ! b + m ! (blake2b_sigma ! r ! (2 * i + 1))];
         v = v[d := rotr64 (v ! d XOR v ! a) 16];
         v = v[c := v ! c + v ! d];
         v = v[b := rotr64 (v ! b XOR v ! c) 63]
     in v)"

definition ROUND :: "u64 list \<Rightarrow> u64 list \<Rightarrow> nat \<Rightarrow> u64 list" where
  "ROUND m v r = foldl (G_macro m r) v
     [(0, 0, 4, 8, 12), (1, 1, 5, 9, 13), (2, 2, 6, 10, 14), (3, 3, 7, 11, 15),
      (4, 0, 5, 10, 15), (5, 1, 6, 11, 12), (6, 2, 7, 8, 13), (7, 3, 4, 9, 14)]"

definition blake2b_compress :: "blake2b_state \<Rightarrow> bytes \<Rightarrow> blake2b_state" where
  "blake2b_compress S block =
     (let m = load64s 16 block;
          v = map (\<lambda>i. b2_h S ! i) [0..<8] @
            [blake2b_IV ! 0, blake2b_IV ! 1, blake2b_IV ! 2, blake2b_IV ! 3,
             blake2b_IV ! 4 XOR fst (b2_t S), blake2b_IV ! 5 XOR snd (b2_t S),
             blake2b_IV ! 6 XOR fst (b2_f S), blake2b_IV ! 7 XOR snd (b2_f S)];
          v = foldl (ROUND m) v [0..<12]
      in S\<lparr>b2_h := map (\<lambda>i. b2_h S ! i XOR v ! i XOR v ! (i + 8)) [0..<8]\<rparr>)"

definition store_at :: "nat \<Rightarrow> bytes \<Rightarrow> bytes \<Rightarrow> bytes" where
  "store_at pos src dst = take pos dst @ src @ drop (pos + length src) dst"

function update_loop :: "blake2b_state \<Rightarrow> bytes \<Rightarrow> blake2b_state \<times> bytes" where
  "update_loop S pin =
     (if length pin > 128
      then update_loop (blake2b_compress (blake2b_increment_counter S 128) (take 128 pin)) (drop 128 pin)
      else (S, pin))"
  by pat_completeness auto
termination by (relation "measure (\<lambda>(S, pin). length pin)") auto

declare update_loop.simps [simp del]

text \<open>Completing the current block, then the blocks that need no copy.\<close>

definition complete_block :: "blake2b_state \<Rightarrow> bytes \<Rightarrow> blake2b_state \<times> bytes" where
  "complete_block S pin =
     (let left = b2_buflen S; fill = 128 - left;
          S = S\<lparr>b2_buf := store_at left (take fill pin) (b2_buf S)\<rparr>;
          S = blake2b_compress (blake2b_increment_counter S 128) (b2_buf S)
      in update_loop (S\<lparr>b2_buflen := 0\<rparr>) (drop fill pin))"

definition blake2b_update :: "blake2b_state \<Rightarrow> bytes \<Rightarrow> int \<times> blake2b_state" where
  "blake2b_update S inp =
     (if inp = [] then (0, S)
      else if fst (b2_f S) \<noteq> 0 then (- 1, S)
      else let (S, pin) = (if b2_buflen S + length inp > 128 then complete_block S inp else (S, inp))
        in (0, S\<lparr>b2_buf := store_at (b2_buflen S) pin (b2_buf S), b2_buflen := b2_buflen S + length pin\<rparr>))"

definition blake2b_final :: "blake2b_state \<Rightarrow> bytes \<Rightarrow> nat \<Rightarrow> int \<times> bytes \<times> blake2b_state" where
  "blake2b_final S out outlen =
     (if outlen < b2_outlen S then (- 1, out, S)
      else if fst (b2_f S) \<noteq> 0 then (- 1, out, S)
      else let S = blake2b_set_lastblock (blake2b_increment_counter S (of_nat (b2_buflen S)));
               S = S\<lparr>b2_buf := store_at (b2_buflen S) (replicate (128 - b2_buflen S) 0) (b2_buf S)\<rparr>;
               S = blake2b_compress S (b2_buf S);
               buffer = concat (map (word_to_le 8) (b2_h S))
        in (0, store_at 0 (take (b2_outlen S) buffer) out,
            S\<lparr>b2_buf := replicate 128 0, b2_h := replicate 8 0\<rparr>))"

definition blake2b_init_key :: "blake2b_state \<Rightarrow> nat \<Rightarrow> bytes \<Rightarrow> int \<times> blake2b_state" where
  "blake2b_init_key S outlen key =
     (if outlen = 0 \<or> outlen > 64 then (- 1, blake2b_invalidate_state S)
      else if key = [] \<or> length key > 64 then (- 1, blake2b_invalidate_state S)
      else let (r, S) = blake2b_init_param S (sequential_param outlen (length key)) in
        if r < 0 then (- 1, blake2b_invalidate_state S)
        else let (r, S) = blake2b_update S (store_at 0 key (replicate 128 0)) in if r < 0 then (- 1, S) else (0, S))"

text \<open>The local state starts undefined: it is an argument. Returns the code and the output buffer.\<close>

definition blake2b :: "blake2b_state \<Rightarrow> bytes \<Rightarrow> nat \<Rightarrow> bytes \<Rightarrow> bytes \<Rightarrow> int \<times> bytes" where
  "blake2b S out outlen inp key =
     (if outlen = 0 \<or> outlen > 64 then (- 1, out)
      else if length key > 64 then (- 1, out)
      else let (r, S) = (if key \<noteq> [] then blake2b_init_key S outlen key else blake2b_init S outlen) in
        if r < 0 then (- 1, out)
        else let (r, S) = blake2b_update S inp in
          if r < 0 then (- 1, out)
          else let (ret, out, _) = blake2b_final S out outlen in (ret, out))"

section \<open>RFC 7693\<close>

text \<open>
  The tables of the RFC, written from it and not from the code. Section 2.6 gives the initialization
  vector by a formula: word i is floor (2^64 * frac (sqrt (prime (i + 1)))), for the first eight
  primes. Section 2.7 gives the message schedule as ten permutations of the sixteen message words.
\<close>

definition rfc_IV :: "u64 list" where
  "rfc_IV = map (\<lambda>p. word_of_int \<lfloor>2 ^ 64 * frac (sqrt p)\<rfloor>) [2, 3, 5, 7, 11, 13, 17, 19]"

definition rfc_SIGMA :: "nat list list" where
  "rfc_SIGMA =
    [[0, 1, 2, 3, 4, 5, 6, 7, 8, 9, 10, 11, 12, 13, 14, 15],
     [14, 10, 4, 8, 9, 15, 13, 6, 1, 12, 0, 2, 11, 7, 5, 3],
     [11, 8, 12, 0, 5, 2, 15, 13, 10, 14, 3, 6, 7, 1, 9, 4],
     [7, 9, 3, 1, 13, 12, 11, 14, 2, 6, 5, 10, 4, 0, 15, 8],
     [9, 0, 5, 7, 2, 4, 10, 15, 14, 1, 11, 12, 6, 8, 3, 13],
     [2, 12, 6, 10, 0, 11, 8, 3, 4, 13, 7, 5, 15, 14, 1, 9],
     [12, 5, 1, 15, 14, 13, 4, 10, 0, 7, 6, 3, 9, 2, 8, 11],
     [13, 11, 7, 14, 12, 1, 3, 9, 5, 0, 15, 4, 8, 6, 2, 10],
     [6, 15, 14, 9, 11, 3, 0, 8, 12, 2, 13, 7, 1, 4, 10, 5],
     [10, 2, 8, 4, 7, 6, 1, 5, 15, 11, 9, 14, 3, 12, 13, 0]]"

text \<open>
  Sections 2.7, 3.1, 3.2 and 3.3 of the RFC for 64-bit words: the mixing function on four words, a
  round as columns then diagonals, the compression function with its 128-bit offset counter and
  final flag, and the hash of the padded data blocks.
\<close>

definition rfc_mix :: "u64 \<times> u64 \<times> u64 \<times> u64 \<Rightarrow> u64 \<Rightarrow> u64 \<Rightarrow> u64 \<times> u64 \<times> u64 \<times> u64" where
  "rfc_mix v x y =
     (let (a, b, c, d) = v;
          a = a + b + x; d = word_rotr 32 (d XOR a); c = c + d; b = word_rotr 24 (b XOR c);
          a = a + b + y; d = word_rotr 16 (d XOR a); c = c + d; b = word_rotr 63 (b XOR c)
      in (a, b, c, d))"

text \<open>A local vector of 16 words, and mixing four of its positions.\<close>

definition mix_at :: "u64 list \<Rightarrow> nat \<times> nat \<times> nat \<times> nat \<Rightarrow> u64 \<Rightarrow> u64 \<Rightarrow> u64 list" where
  "mix_at v p x y =
     (let (i, j, k, l) = p; (a, b, c, d) = rfc_mix (v ! i, v ! j, v ! k, v ! l) x y
      in v[i := a, j := b, k := c, l := d])"

definition rfc_round :: "u64 list \<Rightarrow> nat list \<Rightarrow> u64 list \<Rightarrow> u64 list" where
  "rfc_round m s v =
     foldl (\<lambda>v (p, i). mix_at v p (m ! (s ! (2 * i))) (m ! (s ! (2 * i + 1)))) v
       [((0, 4, 8, 12), 0), ((1, 5, 9, 13), 1), ((2, 6, 10, 14), 2), ((3, 7, 11, 15), 3),
        ((0, 5, 10, 15), 4), ((1, 6, 11, 12), 5), ((2, 7, 8, 13), 6), ((3, 4, 9, 14), 7)]"

definition rfc_F :: "u64 list \<Rightarrow> bytes \<Rightarrow> nat \<Rightarrow> bool \<Rightarrow> u64 list" where
  "rfc_F h block t f =
     (let m = map (\<lambda>i. le_to_word (take 8 (drop (8 * i) block))) [0..<16];
          v = h @ rfc_IV;
          v = v[12 := v ! 12 XOR of_nat (t mod 2 ^ 64), 13 := v ! 13 XOR of_nat (t div 2 ^ 64)];
          v = (if f then v[14 := NOT (v ! 14)] else v);
          v = foldl (\<lambda>v i. rfc_round m (rfc_SIGMA ! (i mod 10)) v) v [0..<12]
      in map (\<lambda>i. h ! i XOR v ! i XOR v ! (i + 8)) [0..<8])"

definition pad_block :: "bytes \<Rightarrow> bytes" where
  "pad_block bs = bs @ replicate (128 - length bs) 0"

definition rfc_blake2b :: "nat \<Rightarrow> bytes \<Rightarrow> bytes \<Rightarrow> bytes" where
  "rfc_blake2b nn key inp =
     (let data = (if key = [] then [] else pad_block key) @ inp;
          d = (\<lambda>i. pad_block (take 128 (drop (128 * i) data)));
          dd = max 1 ((length data + 127) div 128);
          h = rfc_IV[0 := rfc_IV ! 0 XOR 0x01010000 XOR push_bit 8 (of_nat (length key)) XOR of_nat nn];
          h = foldl (\<lambda>h i. rfc_F h (d i) ((i + 1) * 128) False) h [0..<dd - 1]
      in take nn (concat (map (word_to_le 8) (rfc_F h (d (dd - 1)) (length data) True))))"

text \<open>The same from any initial words, on data that already holds the padded key.\<close>

definition rfc_hash_from :: "u64 list \<Rightarrow> nat \<Rightarrow> bytes \<Rightarrow> bytes" where
  "rfc_hash_from h nn data =
     (let d = (\<lambda>i. pad_block (take 128 (drop (128 * i) data)));
          dd = max 1 ((length data + 127) div 128);
          h = foldl (\<lambda>h i. rfc_F h (d i) ((i + 1) * 128) False) h [0..<dd - 1]
      in take nn (concat (map (word_to_le 8) (rfc_F h (d (dd - 1)) (length data) True))))"

section \<open>One compression\<close>

lemma rotr64_word_rotr:
  assumes "0 < c" "c < 64"
  shows "rotr64 w c = word_rotr c w"
proof (rule bit_word_eqI)
  fix n assume n: "n < LENGTH(64)"
  have high: "\<not> bit w (n + c)" if "64 \<le> n + c" using that bit_imp_le_length [of w "n + c"] by auto
  show "bit (rotr64 w c) n = bit (word_rotr c w) n"
  proof (cases "n + c < 64")
    case True
    then have "\<not> 64 - c \<le> n" by simp
    then show ?thesis using True n assms
      by (simp add: rotr64_def bit_or_iff bit_drop_bit_eq bit_push_bit_iff bit_word_rotr_iff add.commute)
  next
    case False
    then have "(n + c) mod 64 = n + c - 64" "n - (64 - c) = n + c - 64" "64 - c \<le> n"
      using n assms by (simp_all add: le_mod_geq)
    then show ?thesis using n assms high False
      by (simp add: rotr64_def bit_or_iff bit_drop_bit_eq bit_push_bit_iff bit_word_rotr_iff add.commute)
  qed
qed

text \<open>The code's tables are the RFC's.\<close>

lemma sqrt_fraction:
  fixes p a x :: nat
  assumes "x ^ 2 \<le> p * 2 ^ 128" "p * 2 ^ 128 < (x + 1) ^ 2" "a ^ 2 \<le> p" "p < (a + 1) ^ 2"
  shows "\<lfloor>2 ^ 64 * frac (sqrt (real p))\<rfloor> = int x - int a * 2 ^ 64"
proof -
  have q: "2 ^ 64 * sqrt (real p) = sqrt (real (p * 2 ^ 128))"
    by (simp add: real_sqrt_mult)
  have "real x \<le> sqrt (real (p * 2 ^ 128))" using assms(1) by (intro real_le_rsqrt) (simp flip: of_nat_power)
  moreover have "sqrt (real (p * 2 ^ 128)) < real (x + 1)"
    using assms(2) by (intro real_less_lsqrt) (simp_all only: of_nat_power [symmetric] of_nat_less_iff of_nat_0_le_iff)
  ultimately have x: "\<lfloor>2 ^ 64 * sqrt (real p)\<rfloor> = int x" unfolding q by (intro floor_unique) simp_all
  have "real a \<le> sqrt (real p)" using assms(3) by (intro real_le_rsqrt) (simp flip: of_nat_power)
  moreover have "sqrt (real p) < real (a + 1)"
    using assms(4) by (intro real_less_lsqrt) (simp_all only: of_nat_power [symmetric] of_nat_less_iff of_nat_0_le_iff)
  ultimately have "\<lfloor>sqrt (real p)\<rfloor> = int a" by (intro floor_unique) simp_all
  then have "2 ^ 64 * frac (sqrt (real p)) = 2 ^ 64 * sqrt (real p) - of_int (int a * 2 ^ 64)"
    by (simp add: frac_def algebra_simps)
  then show ?thesis by (simp only: floor_diff_of_int x)
qed

lemma IV_rfc: "rfc_IV = blake2b_IV"
  using sqrt_fraction [of "1 * 2 ^ 64 + 0x6a09e667f3bcc908" 2 1] sqrt_fraction [of "1 * 2 ^ 64 + 0xbb67ae8584caa73b" 3 1]
    sqrt_fraction [of "2 * 2 ^ 64 + 0x3c6ef372fe94f82b" 5 2] sqrt_fraction [of "2 * 2 ^ 64 + 0xa54ff53a5f1d36f1" 7 2]
    sqrt_fraction [of "3 * 2 ^ 64 + 0x510e527fade682d1" 11 3] sqrt_fraction [of "3 * 2 ^ 64 + 0x9b05688c2b3e6c1f" 13 3]
    sqrt_fraction [of "4 * 2 ^ 64 + 0x1f83d9abfb41bd6b" 17 4] sqrt_fraction [of "4 * 2 ^ 64 + 0x5be0cd19137e2179" 19 4]
  by (simp add: rfc_IV_def blake2b_IV_def power2_eq_square)

lemma let_step: "e = e' \<Longrightarrow> f e' = g \<Longrightarrow> (let v = e in f v) = g"
  by simp

lemma G_macro_mix:
  assumes "length v = 16" "distinct [a, b, c, d]" "\<forall>k \<in> set [a, b, c, d]. k < 16"
  shows "G_macro m r v (i, a, b, c, d)
    = mix_at v (a, b, c, d) (m ! (blake2b_sigma ! r ! (2 * i))) (m ! (blake2b_sigma ! r ! (2 * i + 1)))"
proof -
  define x y where xy: "x = m ! (blake2b_sigma ! r ! (2 * i + 0))" "y = m ! (blake2b_sigma ! r ! (2 * i + 1))"
  define a1 where "a1 = v ! a + v ! b + x"
  define d1 where "d1 = word_rotr 32 (v ! d XOR a1)"
  define c1 where "c1 = v ! c + d1"
  define b1 where "b1 = word_rotr 24 (v ! b XOR c1)"
  define a2 where "a2 = a1 + b1 + y"
  define d2 where "d2 = word_rotr 16 (d1 XOR a2)"
  define c2 where "c2 = c1 + d2"
  define b2 where "b2 = word_rotr 63 (b1 XOR c2)"
  note words = a1_def d1_def c1_def b1_def a2_def d2_def c2_def b2_def
  let ?v4 = "v[a := a1, d := d1, c := c1, b := b1]"
  have E1: "v[a := v ! a + v ! b + x] = v[a := a1]" by (simp add: a1_def)
  have E2: "v[a := a1, d := rotr64 (v[a := a1] ! d XOR v[a := a1] ! a) 32] = v[a := a1, d := d1]"
    using assms by (simp add: d1_def rotr64_word_rotr)
  have E3: "v[a := a1, d := d1, c := v[a := a1, d := d1] ! c + v[a := a1, d := d1] ! d] = v[a := a1, d := d1, c := c1]"
    using assms by (simp add: c1_def)
  have E4: "v[a := a1, d := d1, c := c1, b := rotr64 (v[a := a1, d := d1, c := c1] ! b XOR v[a := a1, d := d1, c := c1] ! c) 24] = ?v4"
    using assms by (simp add: b1_def rotr64_word_rotr)
  have E5: "?v4[a := ?v4 ! a + ?v4 ! b + y] = ?v4[a := a2]"
    using assms by (simp add: a2_def)
  have E6: "?v4[a := a2, d := rotr64 (?v4[a := a2] ! d XOR ?v4[a := a2] ! a) 16] = ?v4[a := a2, d := d2]"
    using assms by (simp add: d2_def rotr64_word_rotr)
  have E7: "?v4[a := a2, d := d2, c := ?v4[a := a2, d := d2] ! c + ?v4[a := a2, d := d2] ! d] = ?v4[a := a2, d := d2, c := c2]"
    using assms by (simp add: c2_def)
  have E8: "?v4[a := a2, d := d2, c := c2, b := rotr64 (?v4[a := a2, d := d2, c := c2] ! b XOR ?v4[a := a2, d := d2, c := c2] ! c) 63]
      = v[a := a2, b := b2, c := c2, d := d2]"
  proof -
    have "?v4[a := a2, d := d2, c := c2, b := b2] = v[a := a2, b := b2, c := c2, d := d2]"
      using assms(2) by (simp add: list_update_swap)
    then show ?thesis using assms by (simp add: b2_def rotr64_word_rotr)
  qed
  have "G_macro m r v (i, a, b, c, d) = v[a := a2, b := b2, c := c2, d := d2]"
    unfolding G_macro_def prod.case xy [symmetric] 
    by (rule let_step [OF E1], rule let_step [OF E2], rule let_step [OF E3], rule let_step [OF E4],
        rule let_step [OF E5], rule let_step [OF E6], rule let_step [OF E7], rule let_step [OF E8], rule refl)
  also have "\<dots> = mix_at v (a, b, c, d) x y" by (simp add: mix_at_def rfc_mix_def Let_def words)
  finally show ?thesis by (simp only: xy add_0_right)
qed

lemma length_mix_at [simp]: "length (mix_at v p x y) = length v"
  by (simp add: mix_at_def Let_def split: prod.splits)

lemma sigma_rfc: "r < 12 \<Longrightarrow> blake2b_sigma ! r = rfc_SIGMA ! (r mod 10)"
proof -
  assume "r < 12"
  then have "r \<in> {0, 1, 2, 3, 4, 5, 6, 7, 8, 9, 10, 11}" by (simp add: eval_nat_numeral less_Suc_eq)
  then show ?thesis by (auto simp: blake2b_sigma_def rfc_SIGMA_def)
qed

lemma ROUND_rfc_round:
  assumes "length v = 16" "r < 12"
  shows "ROUND m v r = rfc_round m (rfc_SIGMA ! (r mod 10)) v"
  using assms(1) by (simp add: ROUND_def rfc_round_def G_macro_mix sigma_rfc [OF assms(2)])

lemma length_rfc_round [simp]: "length (rfc_round m s v) = length v"
  by (simp add: rfc_round_def)

lemma rounds_rfc:
  assumes "length v = 16"
  shows "foldl (ROUND m) v [0..<12] = foldl (\<lambda>v i. rfc_round m (rfc_SIGMA ! (i mod 10)) v) v [0..<12]"
proof -
  have "foldl (ROUND m) v rs = foldl (\<lambda>v i. rfc_round m (rfc_SIGMA ! (i mod 10)) v) v rs"
    if "\<forall>r \<in> set rs. r < 12" for rs
    using that assms by (induction rs arbitrary: v) (simp_all add: ROUND_rfc_round)
  then show ?thesis by simp
qed

text \<open>The two counter words stand for an offset, the two flag words for the final flag.\<close>

definition offset_words :: "nat \<Rightarrow> u64 \<times> u64" where
  "offset_words t = (of_nat (t mod 2 ^ 64), of_nat (t div 2 ^ 64))"

definition flag_words :: "bool \<Rightarrow> u64 \<times> u64" where
  "flag_words f = (if f then - 1 else 0, 0)"

lemma compress_F:
  assumes "length (b2_h S) = 8" "b2_t S = offset_words t" "b2_f S = flag_words f"
  shows "blake2b_compress S block = S\<lparr>b2_h := rfc_F (b2_h S) block t f\<rparr>"
proof -
  have h: "map (\<lambda>i. b2_h S ! i) [0..<8] = b2_h S" using assms(1) by (metis map_nth)
  have n: "x XOR - 1 = NOT x" for x :: u64 by (rule bit_word_eqI) (simp add: bit_xor_iff bit_not_iff)
  define v1 where "v1 = b2_h S @
            [blake2b_IV ! 0, blake2b_IV ! 1, blake2b_IV ! 2, blake2b_IV ! 3,
             blake2b_IV ! 4 XOR fst (b2_t S), blake2b_IV ! 5 XOR snd (b2_t S),
             blake2b_IV ! 6 XOR fst (b2_f S), blake2b_IV ! 7 XOR snd (b2_f S)]"
  define v2 where "v2 = (let v = b2_h S @ blake2b_IV;
          v = v[12 := v ! 12 XOR of_nat (t mod 2 ^ 64), 13 := v ! 13 XOR of_nat (t div 2 ^ 64)]
      in if f then v[14 := NOT (v ! 14)] else v)"
  have "v1 = v2"
    using assms by (simp add: v1_def v2_def Let_def nth_append list_update_append offset_words_def flag_words_def
        blake2b_IV_def n)
  moreover have "length v1 = 16" using assms(1) by (simp add: v1_def)
  ultimately show ?thesis
    unfolding blake2b_compress_def rfc_F_def load64s_def h IV_rfc Let_def v1_def [symmetric]
    by (simp add: rounds_rfc) (simp add: v2_def Let_def)
qed

lemma length_rfc_F [simp]: "length (rfc_F h b t f) = 8"
  by (simp add: rfc_F_def Let_def)

lemma add_carry:
  fixes t n q :: nat
  assumes "n < q"
  shows "(t + n) mod q = (if q \<le> t mod q + n then t mod q + n - q else t mod q + n)"
    and "(t + n) div q = t div q + (if q \<le> t mod q + n then 1 else 0)"
proof -
  define a where "a = t mod q"
  have a: "a < q" using assms by (simp add: a_def)
  have t: "t + n = (a + n) + q * (t div q)" by (simp add: a_def)
  have m: "(a + n) mod q = (if q \<le> a + n then a + n - q else a + n)"
    using a assms by (simp add: le_mod_geq)
  have d: "(a + n) div q = (if q \<le> a + n then 1 else 0)"
    using a assms by (simp add: le_div_geq)
  show "(t + n) mod q = (if q \<le> t mod q + n then t mod q + n - q else t mod q + n)"
    unfolding t a_def [symmetric] using m by simp
  show "(t + n) div q = t div q + (if q \<le> t mod q + n then 1 else 0)"
    unfolding t a_def [symmetric] using d assms by (simp add: add.commute)
qed

lemma increment_offset:
  assumes "b2_t S = offset_words t" "n < 2 ^ 64"
  shows "blake2b_increment_counter S (of_nat n) = S\<lparr>b2_t := offset_words (t + n)\<rparr>"
proof -
  define q where "q = (2 :: nat) ^ 64"
  have q: "0 < q" "n < q" using assms(2) by (simp_all add: q_def)
  have u: "unat (of_nat k :: u64) = k" if "k < q" for k using that by (simp add: q_def unat_of_nat)
  have "(of_nat (t mod q) :: u64) + of_nat n = of_nat (t mod q + n)" by simp
  also have "\<dots> = of_nat ((t + n) mod q)"
    by (simp only: word_unat_eq_iff unat_of_nat q_def) (simp add: mod_simps)
  finally have w: "(of_nat (t mod q) :: u64) + of_nat n = of_nat ((t + n) mod q)" .
  have "(t + n) mod q < n \<longleftrightarrow> q \<le> t mod q + n"
  proof -
    define m where "m = t mod q"
    have "m < q" using q(1) by (simp add: m_def)
    then show ?thesis using q(2) unfolding add_carry(1) [OF q(2)] m_def [symmetric] by (cases "q \<le> m + n") auto
  qed
  then have c: "(of_nat ((t + n) mod q) :: u64) < of_nat n \<longleftrightarrow> q \<le> t mod q + n"
    unfolding word_less_nat_alt using q by (simp only: u mod_less_divisor)
  have d: "of_nat (t div q) + (if q \<le> t mod q + n then 1 else 0) = (of_nat ((t + n) div q) :: u64)"
    unfolding add_carry(2) [OF q(2)] by simp
  show ?thesis
    unfolding blake2b_increment_counter_def assms(1) offset_words_def q_def [symmetric] fst_conv snd_conv Let_def w c d
    by simp
qed

section \<open>Streaming\<close>

text \<open>
  Absorbing with the last block kept back: the chaining value, the offset and the bytes that wait
  in the buffer.
\<close>

function absorb :: "u64 list \<Rightarrow> nat \<Rightarrow> bytes \<Rightarrow> u64 list \<times> nat \<times> bytes" where
  "absorb h t inp =
     (if 128 < length inp then absorb (rfc_F h (take 128 inp) (t + 128) False) (t + 128) (drop 128 inp)
      else (h, t, inp))"
  by pat_completeness auto
termination by (relation "measure (\<lambda>(h, t, inp). length inp)") auto

declare absorb.simps [simp del]

lemma blocks_absorb_short: "length inp \<le> 128 \<Longrightarrow> absorb h t inp = (h, t, inp)"
  by (simp add: absorb.simps)

lemma absorb_long:
  "length a = 128 \<Longrightarrow> b \<noteq> [] \<Longrightarrow> absorb h t (a @ b) = absorb (rfc_F h a (t + 128) False) (t + 128) b"
  by (subst absorb.simps) simp

lemma blocks_absorb_append:
  "absorb h t (a @ b) = (case absorb h t a of (h', t', r) \<Rightarrow> absorb h' t' (r @ b))"
proof (induction h t a rule: absorb.induct)
  case (1 h t a)
  show ?case
  proof (cases "128 < length a")
    case True
    with 1 [OF True] show ?thesis by (subst absorb.simps, subst (2) absorb.simps) simp
  qed (simp add: blocks_absorb_short)
qed

lemma absorb_bounds:
  assumes "absorb h t inp = (h', t', r)" "length h = 8"
  shows "length h' = 8 \<and> length r \<le> 128 \<and> t' + length r = t + length inp"
  using assms
proof (induction h t inp rule: absorb.induct)
  case (1 h t inp)
  show ?case
  proof (cases "128 < length inp")
    case True
    with 1 show ?thesis by (simp add: absorb.simps [of h])
  next
    case False
    with 1 show ?thesis by (auto simp: blocks_absorb_short)
  qed
qed

text \<open>The state after \<open>inp\<close> has been fed to a state with chaining value \<open>h\<close>.\<close>

definition holds_input :: "u64 list \<Rightarrow> bytes \<Rightarrow> blake2b_state \<Rightarrow> bool" where
  "holds_input h inp S \<longleftrightarrow>
     (case absorb h 0 inp of (h', t, r) \<Rightarrow>
        b2_h S = h' \<and> b2_t S = offset_words t \<and> b2_f S = (0, 0) \<and> b2_last_node S = 0
        \<and> length (b2_buf S) = 128 \<and> b2_buflen S = length r \<and> take (length r) (b2_buf S) = r)"

lemma update_loop_absorb:
  assumes "length (b2_h S) = 8" "b2_t S = offset_words t" "b2_f S = (0, 0)" "absorb (b2_h S) t pin = (h', t', r)"
  shows "update_loop S pin = (S\<lparr>b2_h := h', b2_t := offset_words t'\<rparr>, r)"
  using assms
proof (induction S pin arbitrary: t rule: update_loop.induct)
  case (1 S pin)
  show ?case
  proof (cases "128 < length pin")
    case True
    have inc: "blake2b_increment_counter S 128 = S\<lparr>b2_t := offset_words (t + 128)\<rparr>"
      using increment_offset [OF "1.prems"(2), of 128] by simp
    then have c: "blake2b_compress (blake2b_increment_counter S 128) (take 128 pin)
        = S\<lparr>b2_t := offset_words (t + 128), b2_h := rfc_F (b2_h S) (take 128 pin) (t + 128) False\<rparr>"
      using compress_F [of "blake2b_increment_counter S 128" "t + 128" False] "1.prems"(1,3)
      by (simp add: flag_words_def)
    have "absorb (rfc_F (b2_h S) (take 128 pin) (t + 128) False) (t + 128) (drop 128 pin) = (h', t', r)"
      using "1.prems"(4) True by (simp add: absorb.simps [of "b2_h S"])
    then have "update_loop (blake2b_compress (blake2b_increment_counter S 128) (take 128 pin)) (drop 128 pin)
        = (S\<lparr>b2_h := h', b2_t := offset_words t'\<rparr>, r)"
      using "1.IH" [OF True, of "t + 128"] "1.prems"(3) by (simp add: c)
    then show ?thesis using True by (simp add: update_loop.simps [of S])
  next
    case False
    then show ?thesis using "1.prems" by (simp add: update_loop.simps [of S] blocks_absorb_short) 
  qed
qed

lemma length_store_at: "pos + length src \<le> length dst \<Longrightarrow> length (store_at pos src dst) = length dst"
  by (simp add: store_at_def)

lemma take_store_at: "pos + length src \<le> length dst \<Longrightarrow> take (pos + length src) (store_at pos src dst) = take pos dst @ src"
  by (simp add: store_at_def)

lemma holds_input_iff:
  "absorb h 0 inp = (h', t, r) \<Longrightarrow> holds_input h inp S \<longleftrightarrow>
     b2_h S = h' \<and> b2_t S = offset_words t \<and> b2_f S = (0, 0) \<and> b2_last_node S = 0
     \<and> length (b2_buf S) = 128 \<and> b2_buflen S = length r \<and> take (length r) (b2_buf S) = r"
  by (simp add: holds_input_def)

lemma complete_block_absorb:
  assumes "length (b2_h S) = 8" "b2_t S = offset_words t" "b2_f S = (0, 0)" "length (b2_buf S) = 128"
    and "b2_buflen S = length r" "take (length r) (b2_buf S) = r" "length r \<le> 128" "128 < length r + length d"
    and "absorb (b2_h S) t (r @ d) = (h', t', r')"
  shows "\<exists>buf. length buf = 128
     \<and> complete_block S d = (S\<lparr>b2_buf := buf, b2_t := offset_words t', b2_h := h', b2_buflen := 0\<rparr>, r')"
proof -
  define fill where "fill = 128 - length r"
  define blk where "blk = r @ take fill d"
  have d: "fill < length d" using assms(7,8) by (simp add: fill_def)
  have buf: "store_at (length r) (take fill d) (b2_buf S) = blk"
    using assms(4,6,7) d by (simp add: store_at_def fill_def blk_def)
  have len: "length blk = 128" using d assms(7) by (simp add: fill_def blk_def)
  let ?S = "S\<lparr>b2_buf := blk\<rparr>"
  have "blake2b_increment_counter ?S 128 = ?S\<lparr>b2_t := offset_words (t + 128)\<rparr>"
    using increment_offset [of ?S t 128] assms(2) by simp
  then have c: "blake2b_compress (blake2b_increment_counter ?S 128) (b2_buf ?S)
      = ?S\<lparr>b2_t := offset_words (t + 128), b2_h := rfc_F (b2_h S) blk (t + 128) False\<rparr>"
    using compress_F [of "?S\<lparr>b2_t := offset_words (t + 128)\<rparr>" "t + 128" False blk] assms(1,3)
    by (simp add: flag_words_def)
  have "absorb (b2_h S) t (r @ d) = absorb (b2_h S) t (blk @ drop fill d)" by (simp add: blk_def)
  then have "absorb (rfc_F (b2_h S) blk (t + 128) False) (t + 128) (drop fill d) = (h', t', r')"
    using absorb_long [OF len, of "drop fill d"] d assms(9) by simp
  then have "update_loop (?S\<lparr>b2_t := offset_words (t + 128), b2_h := rfc_F (b2_h S) blk (t + 128) False, b2_buflen := 0\<rparr>)
      (drop fill d) = (S\<lparr>b2_buf := blk, b2_t := offset_words t', b2_h := h', b2_buflen := 0\<rparr>, r')"
    using update_loop_absorb [of "?S\<lparr>b2_t := offset_words (t + 128), b2_h := rfc_F (b2_h S) blk (t + 128) False, b2_buflen := 0\<rparr>"
        "t + 128" "drop fill d" h' t' r'] assms(3) by simp
  then have "complete_block S d = (S\<lparr>b2_buf := blk, b2_t := offset_words t', b2_h := h', b2_buflen := 0\<rparr>, r')"
    unfolding complete_block_def Let_def assms(5) fill_def [symmetric] buf c by simp
  with len show ?thesis by blast
qed

lemma update_holds:
  assumes "holds_input h inp S" "length h = 8"
  shows "\<exists>S'. blake2b_update S d = (0, S') \<and> holds_input h (inp @ d) S' \<and> b2_outlen S' = b2_outlen S"
proof -
  obtain h' t r where a: "absorb h 0 inp = (h', t, r)" by (cases "absorb h 0 inp")
  have b: "length h' = 8" "length r \<le> 128" using absorb_bounds [OF a assms(2)] by simp_all
  note S = assms(1) [unfolded holds_input_iff [OF a]]
  have ab: "absorb h 0 (inp @ d) = absorb h' t (r @ d)" unfolding blocks_absorb_append [of h 0 inp] a by simp
  consider (empty) "d = []" | (fits) "d \<noteq> []" "length r + length d \<le> 128" | (more) "128 < length r + length d"
    by (meson not_le)
  then show ?thesis
  proof cases
    case empty
    then show ?thesis using assms(1) by (simp add: blake2b_update_def)
  next
    case fits
    then have "absorb h 0 (inp @ d) = (h', t, r @ d)" by (simp add: ab blocks_absorb_short)
    then show ?thesis
      using fits S take_store_at [of "length r" d "b2_buf S"] length_store_at [of "length r" d "b2_buf S"]
      by (simp add: blake2b_update_def holds_input_iff)
  next
    case more
    obtain h2 t2 r2 where l: "absorb h' t (r @ d) = (h2, t2, r2)" by (metis prod_cases3)
    have r2: "length r2 \<le> 128" using absorb_bounds [OF l b(1)] by simp
    obtain buf where buf: "length buf = 128"
      "complete_block S d = (S\<lparr>b2_buf := buf, b2_t := offset_words t2, b2_h := h2, b2_buflen := 0\<rparr>, r2)"
      using complete_block_absorb [of S t r d h2 t2 r2] S b more l by auto
    have "d \<noteq> []" using more b(2) by auto
    then have "blake2b_update S d = (0, S\<lparr>b2_buf := store_at 0 r2 buf, b2_t := offset_words t2, b2_h := h2, b2_buflen := length r2\<rparr>)"
      using more S buf(2) by (simp add: blake2b_update_def)
    moreover have "holds_input h (inp @ d) (S\<lparr>b2_buf := store_at 0 r2 buf, b2_t := offset_words t2, b2_h := h2, b2_buflen := length r2\<rparr>)"
      unfolding holds_input_iff [OF ab [unfolded l]] using r2 S buf(1) by (simp add: store_at_def)
    ultimately show ?thesis by simp
  qed
qed

section \<open>The whole hash\<close>

definition init_words :: "nat \<Rightarrow> nat \<Rightarrow> u64 list" where
  "init_words nn kk = blake2b_IV[0 := blake2b_IV ! 0 XOR 0x01010000 XOR push_bit 8 (of_nat kk) XOR of_nat nn]"

lemma length_init_words [simp]: "length (init_words nn kk) = 8"
  by (simp add: init_words_def blake2b_IV_def)

lemma param_word:
  assumes "nn \<le> 64" "kk \<le> 64"
  shows "(le_to_word [of_nat nn, of_nat kk, 1, 1, 0, 0, 0, 0] :: u64) = 0x01010000 XOR push_bit 8 (of_nat kk) XOR of_nat nn"
proof -
  have u: "(ucast (of_nat k :: byte) :: u64) = of_nat k" if "k \<le> 64" for k
    using that by (simp add: word_unat_eq_iff unsigned_ucast_eq unat_of_nat take_bit_nat_eq_self)
  have small: "bit (of_nat k :: u64) i \<Longrightarrow> i < 8" if "k \<le> 64" for k i
    using bit_imp_le_length [of "of_nat k :: byte" i] unfolding u [OF that, symmetric] bit_ucast_iff by simp
  have C: "(0x01010000 :: u64) = push_bit 16 0x0101" by simp
  have A: "(le_to_word [of_nat nn, of_nat kk, 1, 1, 0, 0, 0, 0] :: u64)
      = of_nat nn OR (push_bit 8 (of_nat kk) OR push_bit 16 0x0101)"
    using assms by (simp add: u push_bit_or)
  have B: "of_nat nn OR (push_bit 8 (of_nat kk) OR push_bit 16 c) = push_bit 16 c XOR push_bit 8 (of_nat kk) XOR (of_nat nn :: u64)" for c
    by (rule bit_word_eqI) (auto simp: bit_or_iff bit_xor_iff bit_push_bit_iff dest: small [OF assms(1)] small [OF assms(2)])
  show ?thesis by (simp only: A B C)
qed

lemma init_param_from:
  "\<exists>S'. blake2b_init_param S P = (0, S') \<and> holds_input (map2 (XOR) blake2b_IV (load64s 8 (param_bytes P))) [] S'
     \<and> b2_outlen S' = unat (digest_length P)"
  by (simp add: blake2b_init_param_def blake2b_init0_def zero_state_def Let_def holds_input_def blocks_absorb_short offset_words_def)

lemma init_param_holds:
  assumes "nn \<le> 64" "kk \<le> 64"
  shows "\<exists>S'. blake2b_init_param S (sequential_param nn kk) = (0, S') \<and> holds_input (init_words nn kk) [] S' \<and> b2_outlen S' = nn"
proof -
  have P: "param_bytes (sequential_param nn kk) = [of_nat nn, of_nat kk, 1, 1, 0, 0, 0, 0] @ replicate 56 0"
    by (simp add: param_bytes_def sequential_param_def eval_nat_numeral)
  have L: "load64s 8 (w @ replicate 56 0) = le_to_word w # replicate 7 0" if "length w = 8" for w
  proof (rule nth_equalityI)
    fix i assume "i < length (load64s 8 (w @ replicate 56 0))"
    then have i: "i < 8" by (simp add: load64s_def)
    have z: "(le_to_word (replicate n 0) :: u64) = 0" for n by (induction n) simp_all
    show "load64s 8 (w @ replicate 56 0) ! i = (le_to_word w # replicate 7 0) ! i"
    proof (cases i)
      case 0
      then show ?thesis using that by (simp add: load64s_def)
    next
      case (Suc j)
      then have "take 8 (drop (8 * i) (w @ replicate 56 0)) = replicate 8 (0 :: byte)" using that i by simp
      then show ?thesis using Suc i z by (simp add: load64s_def)
    qed
  qed (simp add: load64s_def)
  have "load64s 8 (param_bytes (sequential_param nn kk))
      = le_to_word [of_nat nn, of_nat kk, 1, 1, 0, 0, 0, 0] # replicate 7 0" unfolding P by (rule L) simp
  then have "map2 (XOR) blake2b_IV (load64s 8 (param_bytes (sequential_param nn kk))) = init_words nn kk"
    unfolding param_word [OF assms] by (simp add: init_words_def blake2b_IV_def eval_nat_numeral ac_simps)
  moreover have "unat (of_nat nn :: u8) = nn" using assms(1) by (simp add: unat_of_nat)
  ultimately show ?thesis
    using init_param_from [of S "sequential_param nn kk"] by (simp add: P) (simp add: sequential_param_def)
qed

lemma final_holds:
  assumes "holds_input h inp S" "length h = 8" "b2_outlen S \<le> outlen" "absorb h 0 inp = (h', t, r)"
  shows "\<exists>S'. blake2b_final S out outlen =
     (0, store_at 0 (take (b2_outlen S) (concat (map (word_to_le 8) (rfc_F h' (pad_block r) (length inp) True)))) out, S')"
proof -
  note S = assms(1) [unfolded holds_input_iff [OF assms(4)]]
  have b: "length h' = 8" "length r \<le> 128" "t + length r = length inp" using absorb_bounds [OF assms(4,2)] by simp_all
  have buf: "store_at (length r) (replicate (128 - length r) 0) (b2_buf S) = pad_block r"
    using S b(2) by (simp add: store_at_def pad_block_def)
  have "blake2b_set_lastblock (blake2b_increment_counter S (of_nat (b2_buflen S)))
      = S\<lparr>b2_t := offset_words (length inp), b2_f := flag_words True\<rparr>"
    using increment_offset [of S t "length r"] S b by (simp add: blake2b_set_lastblock_def flag_words_def)
  then show ?thesis
    using assms(3) S buf b(1) compress_F [of "S\<lparr>b2_t := offset_words (length inp), b2_f := flag_words True, b2_buf := pad_block r\<rparr>"
        "length inp" True "pad_block r"]
    by (simp add: blake2b_final_def Let_def)
qed

text \<open>Absorbing, block by block.\<close>

lemma absorb_rounds:
  "absorb h t inp =
     (let n = (length inp - 1) div 128 in
      (foldl (\<lambda>h i. rfc_F h (pad_block (take 128 (drop (128 * i) inp))) (t + (i + 1) * 128) False) h [0..<n],
       t + 128 * n, drop (128 * n) inp))"
proof (induction h t inp rule: absorb.induct)
  case (1 h t inp)
  show ?case
  proof (cases "128 < length inp")
    case False
    then have "(length inp - 1) div 128 = 0" by simp
    with False show ?thesis by (simp add: blocks_absorb_short)
  next
    case True
    define n where "n = (length (drop 128 inp) - 1) div 128"
    have e: "length inp - 1 = (length (drop 128 inp) - 1) + 128" using True by simp
    have n: "(length inp - 1) div 128 = Suc n" unfolding n_def e by (subst div_add_self2) simp_all
    have p: "pad_block (take 128 inp) = take 128 inp" using True by (simp add: pad_block_def)
    have u: "[0..<Suc n] = 0 # map Suc [0..<n]" by (simp add: upt_conv_Cons map_Suc_upt del: upt_Suc)
    have "absorb h t inp = absorb (rfc_F h (take 128 inp) (t + 128) False) (t + 128) (drop 128 inp)"
      using True by (simp add: absorb.simps [of h])
    moreover have "drop (128 * i) (drop 128 inp) = drop (128 * Suc i) inp" for i by (simp add: add.commute)
    moreover have "t + 128 + (i + 1) * 128 = t + (Suc i + 1) * 128" for i by simp
    moreover have "t + 128 + 128 * n = t + 128 * Suc n" by simp
    ultimately show ?thesis
      unfolding "1.IH" [OF True] n Let_def n_def [symmetric] u foldl_Cons foldl_map
      by (simp only: mult_0_right drop_0 add_0 mult_1 p)
  qed
qed

lemma final_from:
  assumes "holds_input h0 data S" "length h0 = 8" "b2_outlen S = nn" "nn \<le> 64"
  shows "\<exists>S'. blake2b_final S out nn = (0, rfc_hash_from h0 nn data @ drop nn out, S')"
proof -
  define n where "n = (length data - 1) div 128"
  define F where "F = (\<lambda>h i. rfc_F h (pad_block (take 128 (drop (128 * i) data))) ((i + 1) * 128) False)"
  define h where "h = foldl F h0 [0..<n]"
  have a: "absorb h0 0 data = (h, 128 * n, drop (128 * n) data)"
    unfolding absorb_rounds [of _ 0 data] Let_def h_def n_def [symmetric] F_def by simp
  have r: "take 128 (drop (128 * n) data) = drop (128 * n) data" using absorb_bounds [OF a assms(2)] by simp
  have dd: "max 1 ((length data + 127) div 128) - 1 = n"
  proof (cases "length data")
    case (Suc k)
    then have "length data + 127 = k + 128" by simp
    then have "(length data + 127) div 128 = Suc (k div 128)" by simp
    with Suc show ?thesis by (simp add: n_def)
  qed (simp add: n_def)
  define digest where "digest = concat (map (word_to_le 8) (rfc_F h (pad_block (drop (128 * n) data)) (length data) True))"
  have rfc: "rfc_hash_from h0 nn data = take nn digest"
    unfolding rfc_hash_from_def Let_def dd F_def [symmetric] h_def [symmetric] r digest_def ..
  have "length digest = 64"
    unfolding digest_def length_concat map_map by (simp add: comp_def sum_list_triv)
  then have "store_at 0 (take nn digest) out = rfc_hash_from h0 nn data @ drop nn out"
    using assms(4) by (simp add: rfc store_at_def)
  then show ?thesis using final_holds [OF assms(1,2) _ a, where outlen = nn and out = out] assms(3,4) by (simp add: digest_def)
qed

lemma rfc_blake2b_from:
  "rfc_blake2b nn key inp = rfc_hash_from (init_words nn (length key)) nn ((if key = [] then [] else pad_block key) @ inp)"
  unfolding rfc_blake2b_def rfc_hash_from_def init_words_def IV_rfc Let_def ..

lemma final_rfc:
  assumes "holds_input (init_words nn (length key)) ((if key = [] then [] else pad_block key) @ inp) S"
    and "b2_outlen S = nn" "nn \<le> 64"
  shows "\<exists>S'. blake2b_final S out nn = (0, rfc_blake2b nn key inp @ drop nn out, S')"
  unfolding rfc_blake2b_from using assms by (intro final_from) simp_all

lemma init_key_holds:
  assumes "0 < nn" "nn \<le> 64" "key \<noteq> []" "length key \<le> 64"
  shows "\<exists>S'. blake2b_init_key S nn key = (0, S') \<and> holds_input (init_words nn (length key)) (pad_block key) S' \<and> b2_outlen S' = nn"
proof -
  obtain S1 where S1: "blake2b_init_param S (sequential_param nn (length key)) = (0, S1)"
    "holds_input (init_words nn (length key)) [] S1" "b2_outlen S1 = nn"
    using init_param_holds [OF assms(2,4)] by blast
  have k: "store_at 0 key (replicate 128 0) = pad_block key" using assms(4) by (simp add: store_at_def pad_block_def)
  obtain S2 where "blake2b_update S1 (pad_block key) = (0, S2)" "holds_input (init_words nn (length key)) (pad_block key) S2"
    "b2_outlen S2 = nn"
    using update_holds [OF S1(2) length_init_words, of "pad_block key"] S1(3) by auto
  with assms S1 show ?thesis by (simp add: blake2b_init_key_def k)
qed

lemma init_holds:
  assumes "0 < nn" "nn \<le> 64"
  shows "\<exists>S'. blake2b_init S nn = (0, S') \<and> holds_input (init_words nn 0) [] S' \<and> b2_outlen S' = nn"
  using init_param_holds [OF assms(2), of 0 S] assms by (simp add: blake2b_init_def)

lemma blake2b_code:
  "blake2b S out nn inp key =
     (if nn = 0 \<or> 64 < nn \<or> 64 < length key then (- 1, out) else (0, rfc_blake2b nn key inp @ drop nn out))"
proof (cases "nn = 0 \<or> 64 < nn \<or> 64 < length key")
  case False
  define kb where "kb = (if key = [] then [] else pad_block key)"
  obtain S1 where S1: "(if key \<noteq> [] then blake2b_init_key S nn key else blake2b_init S nn) = (0, S1)"
    "holds_input (init_words nn (length key)) kb S1" "b2_outlen S1 = nn"
    using init_key_holds [of nn key S] init_holds [of nn S] False by (cases "key = []") (auto simp: kb_def)
  obtain S2 where S2: "blake2b_update S1 inp = (0, S2)" "holds_input (init_words nn (length key)) (kb @ inp) S2" "b2_outlen S2 = nn"
    using update_holds [OF S1(2) length_init_words, of inp] S1(3) by auto
  obtain S3 where "blake2b_final S2 out nn = (0, rfc_blake2b nn key inp @ drop nn out, S3)"
    using final_rfc [OF S2(2) [unfolded kb_def] S2(3)] False by auto
  with False S1(1) S2(1) show ?thesis by (simp add: blake2b_def)
qed (auto simp: blake2b_def)

section \<open>Properties\<close>

text \<open>C33: The code computes BLAKE2b as RFC 7693 defines it, keyed or not, for every digest length from 1 to 64 and
  every message: the lazily filled buffer, the two-word byte counter, the twelve-row schedule and the
  initial words amount to the padded blocks, the 128-bit offset, the ten permutations and the fractions
  of the square roots of the first eight primes of the RFC, all stated apart from the code's tables.
  Other digest lengths and keys over 64 bytes are refused with -1 and the output left alone.\<close>

theorem blake2b_is_rfc7693:
  "blake2b S out nn inp key =
     (if nn = 0 \<or> 64 < nn \<or> 64 < length key then (- 1, out) else (0, rfc_blake2b nn key inp @ drop nn out))"
  by (rule blake2b_code)

fun blake2b_updates :: "blake2b_state \<Rightarrow> bytes list \<Rightarrow> int \<times> blake2b_state" where
  "blake2b_updates S [] = (0, S)"
| "blake2b_updates S (d # ds) = (let (r, S) = blake2b_update S d in if r < 0 then (r, S) else blake2b_updates S ds)"

lemma updates_hold:
  "holds_input h inp S \<Longrightarrow> length h = 8 \<Longrightarrow>
   \<exists>S'. blake2b_updates S ds = (0, S') \<and> holds_input h (inp @ concat ds) S' \<and> b2_outlen S' = b2_outlen S"
proof (induction ds arbitrary: inp S)
  case (Cons d ds)
  obtain S1 where S1: "blake2b_update S d = (0, S1)" "holds_input h (inp @ d) S1" "b2_outlen S1 = b2_outlen S"
    using update_holds [OF Cons.prems] by blast
  with Cons.IH [OF S1(2) Cons.prems(2)] show ?case by auto
qed simp

text \<open>Streaming agrees with one-shot hashing: initialising a state, feeding it a message in any pieces, empty ones
  included, and finishing gives the digest of the whole message, and no step fails.\<close>

theorem blake2b_streaming_agrees:
  assumes "0 < nn" "nn \<le> 64"
  shows "\<exists>S1 S2 S3. blake2b_init S nn = (0, S1) \<and> blake2b_updates S1 ds = (0, S2)
     \<and> blake2b_final S2 out nn = (0, rfc_blake2b nn [] (concat ds) @ drop nn out, S3)"
proof -
  obtain S1 where S1: "blake2b_init S nn = (0, S1)" "holds_input (init_words nn 0) [] S1" "b2_outlen S1 = nn"
    using init_holds [OF assms] by blast
  obtain S2 where S2: "blake2b_updates S1 ds = (0, S2)" "holds_input (init_words nn 0) (concat ds) S2" "b2_outlen S2 = nn"
    using updates_hold [OF S1(2) length_init_words, of ds] S1(3) by auto
  have "holds_input (init_words nn (length [])) ((if ([] :: bytes) = [] then [] else pad_block []) @ concat ds) S2"
    using S2(2) by simp
  from final_rfc [OF this S2(3) assms(2)] S1(1) S2(1) show ?thesis by blast
qed

theorem blake2b_streaming_agrees_witness:
  "\<exists>S1 S2 S3. blake2b_init zero_state 32 = (0, S1) \<and> blake2b_updates S1 [[97], [], [98, 99]] = (0, S2)
     \<and> blake2b_final S2 (replicate 32 0) 32 = (0, rfc_blake2b 32 [] [97, 98, 99], S3)"
  using blake2b_streaming_agrees [of 32 zero_state "[[97], [], [98, 99]]" "replicate 32 0"] by simp

end
