(* ===== verification/Blake2b_Variants.thy ===== *)
theory Blake2b_Variants
  imports Blake2b
begin

text \<open>
  The two further entry points of vendor/monero/src/crypto/blake2b.c: \<open>blake2b_long\<close>, the hash of
  any length of Argon2, and \<open>blake2b_monero\<close>, the keyed hash with Monero's personalisation string. A
  pointer that may be null is an option; \<open>assert\<close> is active or not, as the build defines \<open>NDEBUG\<close>.
\<close>

section \<open>Hashes of any length\<close>

text \<open>
  The loop of \<open>blake2b_long\<close>: the bytes to produce, the position of the output pointer, the last block
  and the output. Returns the code of the first call that failed, or 0.
\<close>

function long_loop :: "blake2b_state \<Rightarrow> nat \<Rightarrow> nat \<Rightarrow> bytes \<Rightarrow> bytes \<Rightarrow> int \<times> nat \<times> nat \<times> bytes \<times> bytes" where
  "long_loop S toproduce pos out_buffer out =
     (if toproduce > 64 then
        let (ret, out_buffer) = blake2b S out_buffer 64 out_buffer [] in
        if ret < 0 then (ret, toproduce, pos, out_buffer, out)
        else long_loop S (toproduce - 32) (pos + 32) out_buffer (store_at pos (take 32 out_buffer) out)
      else (0, toproduce, pos, out_buffer, out))"
  by pat_completeness auto
termination by (relation "measure (\<lambda>(S, n, _). n)") auto

declare long_loop.simps [simp del]

text \<open>A digest of the length bytes and the input, through the streaming calls; \<open>out\<close> is written on success.\<close>

definition prefixed_hash :: "blake2b_state \<Rightarrow> nat \<Rightarrow> bytes \<Rightarrow> bytes \<Rightarrow> bytes \<Rightarrow> int \<times> bytes" where
  "prefixed_hash S nn outlen_bytes inp out =
     (let (ret, S) = blake2b_init S nn in
      if ret < 0 then (ret, out)
      else let (ret, S) = blake2b_update S outlen_bytes in
      if ret < 0 then (ret, out)
      else let (ret, S) = blake2b_update S inp in
      if ret < 0 then (ret, out)
      else let (ret, out, _) = blake2b_final S out nn in (ret, out))"

definition blake2b_long :: "blake2b_state \<Rightarrow> bytes \<Rightarrow> bytes \<Rightarrow> nat \<Rightarrow> bytes \<Rightarrow> int \<times> bytes" where
  "blake2b_long S junk out outlen inp =
     (if outlen > 0xFFFFFFFF then (- 1, out)
      else let outlen_bytes = word_to_le 4 (of_nat outlen :: u32) in
        if outlen \<le> 64 then prefixed_hash S outlen outlen_bytes inp out
        else let (ret, out_buffer) = prefixed_hash S 64 outlen_bytes inp junk in
          if ret < 0 then (ret, out)
          else let out = store_at 0 (take 32 out_buffer) out;
                   (ret, toproduce, pos, out_buffer, out) = long_loop S (outlen - 32) 32 out_buffer out in
          if ret < 0 then (ret, out)
          else let (ret, out_buffer) = blake2b S out_buffer toproduce out_buffer [] in
          if ret < 0 then (ret, out)
          else (ret, store_at pos (take toproduce out_buffer) out))"

text \<open>
  The variable-length hash H' of RFC 9106, section 3.3: one hash up to 64 bytes; beyond, the first halves
  of r hashes of 64 bytes, each of the one before, and a last hash of what is left.
\<close>

definition rfc_V :: "bytes \<Rightarrow> nat \<Rightarrow> bytes" where
  "rfc_V A i = (rfc_blake2b 64 [] ^^ i) A"

definition rfc_H_prime :: "nat \<Rightarrow> bytes \<Rightarrow> bytes" where
  "rfc_H_prime T A =
     (let A = word_to_le 4 (of_nat T :: u32) @ A; r = (T + 31) div 32 - 2 in
      if T \<le> 64 then rfc_blake2b T [] A
      else concat (map (\<lambda>i. take 32 (rfc_V A i)) [1..<r + 1]) @ rfc_blake2b (T - 32 * r) [] (rfc_V A r))"

lemma length_rfc_blake2b: "nn \<le> 64 \<Longrightarrow> length (rfc_blake2b nn key inp) = nn"
  unfolding rfc_blake2b_def Let_def
  by (simp add: length_concat comp_def sum_list_triv)

lemma prefixed_hash_eq:
  assumes "0 < nn" "nn \<le> 64"
  shows "prefixed_hash S nn pre inp out = (0, rfc_blake2b nn [] (pre @ inp) @ drop nn out)"
proof -
  obtain S1 where S1: "blake2b_init S nn = (0, S1)" "holds_input (init_words nn 0) [] S1" "b2_outlen S1 = nn"
    using init_holds [OF assms] by blast
  obtain S2 where S2: "blake2b_update S1 pre = (0, S2)" "holds_input (init_words nn 0) pre S2" "b2_outlen S2 = nn"
    using update_holds [OF S1(2) length_init_words, of pre] S1(3) by auto
  obtain S3 where S3: "blake2b_update S2 inp = (0, S3)" "holds_input (init_words nn 0) (pre @ inp) S3" "b2_outlen S3 = nn"
    using update_holds [OF S2(2) length_init_words, of inp] S2(3) by auto
  have "holds_input (init_words nn (length [])) ((if ([] :: bytes) = [] then [] else pad_block []) @ pre @ inp) S3"
    using S3(2) by simp
  then obtain S4 where "blake2b_final S3 out nn = (0, rfc_blake2b nn [] (pre @ inp) @ drop nn out, S4)"
    using final_rfc [OF _ S3(3) assms(2)] by blast
  with S1(1) S2(1) S3(1) show ?thesis by (simp add: prefixed_hash_def)
qed

lemma length_rfc_V: "0 < i \<Longrightarrow> length (rfc_V A i) = 64"
  by (cases i) (simp_all add: rfc_V_def length_rfc_blake2b)

lemma rfc_V_Suc: "rfc_V A (Suc i) = rfc_V (rfc_blake2b 64 [] A) i"
  by (simp only: rfc_V_def funpow_Suc_right o_apply)

text \<open>The first halves of the first k hashes of the chain.\<close>

definition halves :: "bytes \<Rightarrow> nat \<Rightarrow> bytes" where
  "halves A k = concat (map (\<lambda>i. take 32 (rfc_V A i)) [1..<k + 1])"

lemma halves_0 [simp]: "halves A 0 = []"
  by (simp add: halves_def)

lemma halves_Suc: "halves A (Suc k) = take 32 (rfc_blake2b 64 [] A) @ halves (rfc_blake2b 64 [] A) k"
proof -
  have "[1..<Suc k + 1] = 1 # map Suc [1..<k + 1]" by (simp add: upt_conv_Cons map_Suc_upt del: upt_Suc)
  moreover have "rfc_V A 1 = rfc_blake2b 64 [] A" by (simp add: rfc_V_def)
  ultimately show ?thesis unfolding halves_def by (simp add: comp_def rfc_V_Suc del: upt_Suc One_nat_def)
qed

lemma length_halves: "length (halves A k) = 32 * k"
proof (induction k arbitrary: A)
  case (Suc k)
  then show ?case by (simp add: halves_Suc length_rfc_blake2b)
qed simp

lemma long_loop_eq:
  assumes "length ob = 64" "pos + n \<le> length out" "k = (n - 33) div 32"
  shows "long_loop S n pos ob out =
     (0, n - 32 * k, pos + 32 * k, rfc_V ob k,
      take pos out @ halves ob k @ drop (pos + 32 * k) out)"
  using assms
proof (induction k arbitrary: n pos ob out)
  case 0
  then have "n \<le> 64" by simp
  then show ?case by (subst long_loop.simps) (simp add: rfc_V_def)
next
  case (Suc k)
  let ?ob = "rfc_blake2b 64 [] ob"
  have n: "64 < n" using Suc.prems(3) by (cases "n \<le> 64") auto
  have b: "blake2b S ob 64 ob [] = (0, ?ob)" using Suc.prems(1) by (simp add: blake2b_code)
  have ob: "length ?ob = 64" by (simp add: length_rfc_blake2b)
  have k: "k = (n - 32 - 33) div 32"
  proof -
    have "n - 33 = (n - 32 - 33) + 32" using n by simp
    then show ?thesis using Suc.prems(3) by simp
  qed
  let ?out = "store_at pos (take 32 ?ob) out"
  have out: "length ?out = length out" "take (pos + 32) ?out = take pos out @ take 32 ?ob"
    "drop (pos + 32 + m) ?out = drop (pos + 32 + m) out" for m
    using n Suc.prems(2) ob by (simp_all add: store_at_def add.commute [of m])
  have "long_loop S n pos ob out = long_loop S (n - 32) (pos + 32) ?ob ?out"
    using n b by (subst long_loop.simps) simp
  also have "\<dots> = (0, n - 32 - 32 * k, pos + 32 + 32 * k, rfc_V ?ob k,
      take (pos + 32) ?out @ halves ?ob k @ drop (pos + 32 + 32 * k) ?out)"
    using n Suc.prems(2) out(1) by (intro Suc.IH [OF ob _ k]) simp
  finally show ?case unfolding out halves_Suc rfc_V_Suc by (simp add: add.assoc)
qed

lemma long_case:
  assumes "64 < outlen" "outlen \<le> 0xFFFFFFFF" "outlen \<le> length out" "length junk = 64"
  shows "blake2b_long S junk out outlen inp = (0, rfc_H_prime outlen inp @ drop outlen out)"
proof -
  define A where "A = word_to_le 4 (of_nat outlen :: u32) @ inp"
  let ?V = "rfc_blake2b 64 [] A"
  define k where "k = (outlen - 65) div 32"
  define m where "m = outlen - 32 - 32 * k"
  have "32 * k \<le> outlen - 65" "outlen - 65 < 32 * k + 32" unfolding k_def by (simp_all add: dividend_less_times_div)
  then have left: "0 < m" "m \<le> 64" "32 + 32 * k + m = outlen" unfolding m_def using assms(1) by linarith+
  have "outlen + 31 = (outlen - 65) + 3 * 32" using assms(1) by simp
  then have r: "(outlen + 31) div 32 - 2 = Suc k" unfolding k_def by simp
  have lV: "length ?V = 64" by (simp add: length_rfc_blake2b)
  let ?out = "store_at 0 (take 32 ?V) out"
  have out: "take 32 ?out = take 32 ?V" "drop (32 + j) ?out = drop (32 + j) out" "length ?out = length out" for j
    using assms(1,3) lV by (simp_all add: store_at_def add.commute [of j])
  have "long_loop S (outlen - 32) 32 ?V ?out = (0, m, 32 + 32 * k, rfc_V ?V k,
      take 32 ?out @ halves ?V k @ drop (32 + 32 * k) ?out)"
    unfolding m_def using assms(1,3) out(3) by (intro long_loop_eq [OF lV]) (simp_all add: k_def)
  then have loop: "long_loop S (outlen - 32) 32 ?V ?out = (0, m, 32 + 32 * k, rfc_V A (Suc k), halves A (Suc k) @ drop (32 + 32 * k) out)"
    by (simp add: out halves_Suc rfc_V_Suc)
  let ?last = "rfc_blake2b m [] (rfc_V A (Suc k))"
  have ll: "length ?last = m" using left(2) by (rule length_rfc_blake2b)
  have "take (32 + 32 * k) (halves A (Suc k) @ drop (32 + 32 * k) out) = halves A (Suc k)"
    "drop (32 + 32 * k + m) (halves A (Suc k) @ drop (32 + 32 * k) out) = drop outlen out"
    using length_halves [of A "Suc k"] left(3) by simp_all
  then have st: "store_at (32 + 32 * k) ?last (halves A (Suc k) @ drop (32 + 32 * k) out) = halves A (Suc k) @ ?last @ drop outlen out"
    unfolding store_at_def ll by simp
  have pre: "prefixed_hash S 64 (word_to_le 4 (of_nat outlen :: u32)) inp junk = (0, ?V)"
    using assms(4) by (simp add: prefixed_hash_eq A_def)
  have fin: "blake2b S (rfc_V A (Suc k)) m (rfc_V A (Suc k)) [] = (0, ?last @ drop m (rfc_V A (Suc k)))"
    using left by (simp add: blake2b_code)
  have "blake2b_long S junk out outlen inp = (0, halves A (Suc k) @ ?last @ drop outlen out)"
    using assms(1,2) st ll by (simp add: blake2b_long_def pre loop fin del: word_to_le.simps)
  moreover have "outlen - 32 * Suc k = m" using left(3) by simp
  then have "rfc_H_prime outlen inp = halves A (Suc k) @ ?last"
    using assms(1) unfolding rfc_H_prime_def Let_def A_def [symmetric] r halves_def by simp
  ultimately show ?thesis by simp
qed

text \<open>blake2b_long computes the variable-length hash H' of RFC 9106, for every input and every length from 1
  to 2^32 - 1, into a buffer with room for it; longer and empty requests are refused with -1.\<close>

theorem blake2b_long_is_H_prime:
  assumes "outlen \<le> length out" "length junk = 64"
  shows "blake2b_long S junk out outlen inp =
     (if outlen = 0 \<or> 0xFFFFFFFF < outlen then (- 1, out) else (0, rfc_H_prime outlen inp @ drop outlen out))"
proof -
  consider "outlen = 0" | "0xFFFFFFFF < outlen" | "0 < outlen" "outlen \<le> 64" | "64 < outlen" "outlen \<le> 0xFFFFFFFF" by linarith
  then show ?thesis
  proof cases
    case 1
    then show ?thesis by (simp add: blake2b_long_def prefixed_hash_def blake2b_init_def Let_def)
  next
    case 2
    then show ?thesis by (simp add: blake2b_long_def)
  next
    case 3
    then show ?thesis by (simp add: blake2b_long_def prefixed_hash_eq rfc_H_prime_def Let_def)
  next
    case 4
    then show ?thesis using long_case [OF 4 assms] by simp
  qed
qed

theorem blake2b_long_is_H_prime_witness:
  "blake2b_long zero_state (replicate 64 0) (replicate 100 0) 100 [1, 2, 3] = (0, rfc_H_prime 100 [1, 2, 3])"
  using blake2b_long_is_H_prime [of 100 "replicate 100 0" "replicate 64 0" zero_state "[1, 2, 3]"] by simp

section \<open>Monero's keyed hash\<close>

definition PERSONAL :: bytes where
  "PERSONAL = [0x4D, 0x6F, 0x6E, 0x65, 0x72, 0x6F] @ replicate 10 0"

definition monero_param :: "nat \<Rightarrow> nat \<Rightarrow> blake2b_param" where
  "monero_param outlen keylen =
     \<lparr>digest_length = of_nat outlen, key_length = of_nat keylen, fanout = 1, param_depth = 1, leaf_length = 0,
      node_offset = 0, node_depth = 0, inner_length = 0, reserved = replicate 14 0, salt = replicate 16 0,
      personal = PERSONAL\<rparr>"

definition blake2b_monero :: "bool \<Rightarrow> blake2b_state \<Rightarrow> bytes \<Rightarrow> nat \<Rightarrow> bytes \<Rightarrow> bytes option \<Rightarrow> (int \<times> bytes) result" where
  "blake2b_monero asserts S out outlen inp key =
     (let keylen = (case key of None \<Rightarrow> 0 | Some k \<Rightarrow> length k) in
      if asserts \<and> keylen \<noteq> 0 \<and> keylen \<noteq> 32 then Inl Aborted
      else if outlen = 0 \<or> outlen > 64 then Inr (- 1, out)
      else if keylen > 64 then Inr (- 1, out)
      else if key \<noteq> None \<and> keylen = 0 then Inr (- 1, out)
      else let (r, S) = blake2b_init_param S (monero_param outlen keylen) in
        if r < 0 then Inr (- 1, out)
        else let (r, S) = (case key of None \<Rightarrow> (0, S) | Some k \<Rightarrow> blake2b_update S (store_at 0 k (replicate 128 0))) in
          if r < 0 then Inr (- 1, out)
          else let (r, S) = blake2b_update S inp in
            if r < 0 then Inr (- 1, out)
            else let (ret, out, _) = blake2b_final S out outlen in Inr (ret, out))"

text \<open>
  The specification: the hash of the padded key and the message from the initial words that the BLAKE2
  parameter block of the two lengths, sequential mode and the personalisation Monero gives.
\<close>

definition monero_words :: "nat \<Rightarrow> nat \<Rightarrow> u64 list" where
  "monero_words nn kk = map2 (XOR) blake2b_IV
     (load64s 8 ([of_nat nn, of_nat kk, 1, 1] @ replicate 44 0 @ [0x4D, 0x6F, 0x6E, 0x65, 0x72, 0x6F] @ replicate 10 0))"

lemma length_monero_words [simp]: "length (monero_words nn kk) = 8"
  by (simp add: monero_words_def load64s_def blake2b_IV_def)

lemma monero_param_bytes: "map2 (XOR) blake2b_IV (load64s 8 (param_bytes (monero_param nn kk))) = monero_words nn kk"
proof -
  have "param_bytes (monero_param nn kk) = [of_nat nn, of_nat kk, 1, 1] @ replicate 44 0 @ [0x4D, 0x6F, 0x6E, 0x65, 0x72, 0x6F] @ replicate 10 0"
    by (simp add: param_bytes_def monero_param_def PERSONAL_def eval_nat_numeral)
  then show ?thesis by (simp only: monero_words_def)
qed

text \<open>blake2b_monero is the personalised BLAKE2b: for a null key, or a key of 1 to 64 bytes the assertion
  lets through, it writes the hash of the padded key and the message from the personalised
  parameter block; a non-null empty key and other lengths are refused.\<close>

theorem blake2b_monero_is_personalised:
  "blake2b_monero asserts S out nn inp key =
     (let kk = (case key of None \<Rightarrow> 0 | Some k \<Rightarrow> length k) in
      if asserts \<and> kk \<notin> {0, 32} then Inl Aborted
      else if nn = 0 \<or> 64 < nn \<or> 64 < kk \<or> key = Some [] then Inr (- 1, out)
      else Inr (0, rfc_hash_from (monero_words nn kk) nn ((case key of None \<Rightarrow> [] | Some k \<Rightarrow> pad_block k) @ inp) @ drop nn out))"
proof -
  define kk where "kk = (case key of None \<Rightarrow> 0 | Some k \<Rightarrow> length k)"
  define kb where "kb = (case key of None \<Rightarrow> [] | Some k \<Rightarrow> pad_block k)"
  show ?thesis
  proof (cases "(asserts \<and> kk \<notin> {0, 32}) \<or> nn = 0 \<or> 64 < nn \<or> 64 < kk \<or> key = Some []")
    case True
    then show ?thesis unfolding kk_def by (auto simp: blake2b_monero_def Let_def split: option.splits)
  next
    case False
    obtain S1 where S1: "blake2b_init_param S (monero_param nn kk) = (0, S1)"
      "holds_input (monero_words nn kk) [] S1" "b2_outlen S1 = nn"
      using init_param_from [of S "monero_param nn kk"] False unfolding monero_param_bytes
      by (auto simp: monero_param_def unat_of_nat)
    have "\<exists>S2. (case key of None \<Rightarrow> (0, S1) | Some k \<Rightarrow> blake2b_update S1 (store_at 0 k (replicate 128 0))) = (0 :: int, S2)
        \<and> holds_input (monero_words nn kk) kb S2 \<and> b2_outlen S2 = nn"
    proof (cases key)
      case (Some k)
      have "length k \<le> 64" using False Some by (simp add: kk_def)
      then have "store_at 0 k (replicate 128 0) = kb" by (simp add: store_at_def pad_block_def kb_def Some)
      then show ?thesis using update_holds [OF S1(2) length_monero_words, of kb] S1(3) Some by simp
    qed (use S1 in \<open>simp add: kb_def\<close>)
    then obtain S2 where S2: "(case key of None \<Rightarrow> (0, S1) | Some k \<Rightarrow> blake2b_update S1 (store_at 0 k (replicate 128 0))) = (0 :: int, S2)"
      "holds_input (monero_words nn kk) kb S2" "b2_outlen S2 = nn" by blast
    obtain S3 where S3: "blake2b_update S2 inp = (0, S3)" "holds_input (monero_words nn kk) (kb @ inp) S3" "b2_outlen S3 = nn"
      using update_holds [OF S2(2) length_monero_words, of inp] S2(3) by auto
    obtain S4 where "blake2b_final S3 out nn = (0, rfc_hash_from (monero_words nn kk) nn (kb @ inp) @ drop nn out, S4)"
      using final_from [OF S3(2) length_monero_words S3(3), of out] False by auto
    moreover have "\<not> (key \<noteq> None \<and> kk = 0)" using False by (auto simp: kk_def split: option.splits)
    ultimately show ?thesis
      using False S1(1) S2(1) S3(1) unfolding blake2b_monero_def Let_def kk_def [symmetric] kb_def [symmetric]
      by auto
  qed
qed

end
