(* ===== verification/Pruning.thy ===== *)
theory Pruning
  imports Prelude
begin

text \<open>
  vendor/monero/src/common/pruning.cpp and pruning.h: which blocks a pruned node of the network keeps. The
  chain is cut into stripes of 4096 blocks dealt out in turn, a node keeps the blocks of its stripe and
  the last 5500 in full, and tells its peers which with a seed. \<open>unsigned long\<close>, the type of \<open>1ul\<close>,
  is taken at the 32 bits it has in the project's Windows build; a shift by 32 or more is undefined there.
\<close>

definition CRYPTONOTE_PRUNING_STRIPE_SIZE :: "'a::len word" where
  "CRYPTONOTE_PRUNING_STRIPE_SIZE = 4096"

definition CRYPTONOTE_PRUNING_LOG_STRIPES :: u64 where
  "CRYPTONOTE_PRUNING_LOG_STRIPES = 3"

definition CRYPTONOTE_PRUNING_TIP_BLOCKS :: u64 where
  "CRYPTONOTE_PRUNING_TIP_BLOCKS = 5500"

definition CRYPTONOTE_MAX_BLOCK_NUMBER :: u64 where
  "CRYPTONOTE_MAX_BLOCK_NUMBER = 500000000"

definition PRUNING_SEED_LOG_STRIPES_SHIFT :: nat where "PRUNING_SEED_LOG_STRIPES_SHIFT = 7"
definition PRUNING_SEED_LOG_STRIPES_MASK :: u32 where "PRUNING_SEED_LOG_STRIPES_MASK = 0x7"
definition PRUNING_SEED_STRIPE_SHIFT :: nat where "PRUNING_SEED_STRIPE_SHIFT = 0"
definition PRUNING_SEED_STRIPE_MASK :: u32 where "PRUNING_SEED_STRIPE_MASK = 0x7F"

lemmas pruning_consts = CRYPTONOTE_PRUNING_STRIPE_SIZE_def CRYPTONOTE_PRUNING_LOG_STRIPES_def
  CRYPTONOTE_PRUNING_TIP_BLOCKS_def CRYPTONOTE_MAX_BLOCK_NUMBER_def PRUNING_SEED_LOG_STRIPES_SHIFT_def
  PRUNING_SEED_LOG_STRIPES_MASK_def PRUNING_SEED_STRIPE_SHIFT_def PRUNING_SEED_STRIPE_MASK_def

definition get_pruning_log_stripes :: "u32 \<Rightarrow> u32" where
  "get_pruning_log_stripes pruning_seed =
     drop_bit PRUNING_SEED_LOG_STRIPES_SHIFT pruning_seed AND PRUNING_SEED_LOG_STRIPES_MASK"

definition seed_stripe :: "u32 \<Rightarrow> u32" where
  "seed_stripe pruning_seed =
     (if pruning_seed = 0 then 0
      else 1 + (drop_bit PRUNING_SEED_STRIPE_SHIFT pruning_seed AND PRUNING_SEED_STRIPE_MASK))"

definition make_pruning_seed :: "u32 \<Rightarrow> u32 \<Rightarrow> u32 result" where
  "make_pruning_seed stripe log_stripes =
     (if \<not> log_stripes \<le> PRUNING_SEED_LOG_STRIPES_MASK then Inl Thrown
      else if \<not> (stripe > 0 \<and> stripe \<le> push_bit (unat log_stripes) 1) then Inl Thrown
      else Inr (push_bit PRUNING_SEED_LOG_STRIPES_SHIFT log_stripes OR push_bit PRUNING_SEED_STRIPE_SHIFT (stripe - 1)))"

text \<open>The three-argument \<open>get_pruning_stripe\<close>: the stripe of a block, 0 near the tip.\<close>

definition block_stripe :: "u64 \<Rightarrow> u64 \<Rightarrow> u32 \<Rightarrow> u32 result" where
  "block_stripe block_height blockchain_height log_stripes =
     (if block_height + CRYPTONOTE_PRUNING_TIP_BLOCKS \<ge> blockchain_height then Inr 0
      else if \<not> unat log_stripes < 32 then Inl ShiftRange
      else Inr (ucast ((block_height div CRYPTONOTE_PRUNING_STRIPE_SIZE AND (push_bit (unat log_stripes) 1 - 1)) + 1)))"

definition has_unpruned_block :: "u64 \<Rightarrow> u64 \<Rightarrow> u32 \<Rightarrow> bool result" where
  "has_unpruned_block block_height blockchain_height pruning_seed =
     (let stripe = seed_stripe pruning_seed in
      if stripe = 0 then Inr True
      else bindr (block_stripe block_height blockchain_height (get_pruning_log_stripes pruning_seed))
             (\<lambda>bs. Inr (bs = 0 \<or> bs = stripe)))"

definition get_pruning_seed :: "u64 \<Rightarrow> u64 \<Rightarrow> u32 \<Rightarrow> u32 result" where
  "get_pruning_seed block_height blockchain_height log_stripes =
     bindr (block_stripe block_height blockchain_height log_stripes) (\<lambda>stripe.
       if stripe = 0 then Inr 0 else make_pruning_seed stripe log_stripes)"

text \<open>
  A failed check logs and returns the height asked for. The number of bits comes from three bits of the seed
  or is 3, so the shifts are in range.
\<close>

definition get_next_unpruned_block_height :: "u64 \<Rightarrow> u64 \<Rightarrow> u32 \<Rightarrow> u64" where
  "get_next_unpruned_block_height block_height blockchain_height pruning_seed =
     (if \<not> block_height \<le> CRYPTONOTE_MAX_BLOCK_NUMBER + 1 then block_height
      else if \<not> blockchain_height \<le> CRYPTONOTE_MAX_BLOCK_NUMBER + 1 then block_height
      else let stripe = seed_stripe pruning_seed in
      if stripe = 0 then block_height
      else if block_height + CRYPTONOTE_PRUNING_TIP_BLOCKS \<ge> blockchain_height then block_height
      else let seed_log_stripes = get_pruning_log_stripes pruning_seed;
               log_stripes = (if seed_log_stripes \<noteq> 0 then ucast seed_log_stripes else CRYPTONOTE_PRUNING_LOG_STRIPES);
               mask = push_bit (unat log_stripes) 1 - 1;
               block_pruning_stripe = ucast ((block_height div CRYPTONOTE_PRUNING_STRIPE_SIZE AND mask) + 1)
      in if block_pruning_stripe = stripe then block_height
         else let cycles = drop_bit (unat log_stripes) (block_height div CRYPTONOTE_PRUNING_STRIPE_SIZE);
                  cycle_start = cycles + (if stripe > block_pruning_stripe then 0 else 1);
                  h = cycle_start * push_bit (unat log_stripes) CRYPTONOTE_PRUNING_STRIPE_SIZE
                      + ucast ((stripe - 1) * CRYPTONOTE_PRUNING_STRIPE_SIZE)
         in if h + CRYPTONOTE_PRUNING_TIP_BLOCKS > blockchain_height
            then if blockchain_height < CRYPTONOTE_PRUNING_TIP_BLOCKS then 0 else blockchain_height - CRYPTONOTE_PRUNING_TIP_BLOCKS
            else if \<not> h \<ge> block_height then block_height
            else h)"

definition get_next_pruned_block_height :: "u64 \<Rightarrow> u64 \<Rightarrow> u32 \<Rightarrow> u64 result" where
  "get_next_pruned_block_height block_height blockchain_height pruning_seed =
     (let stripe = seed_stripe pruning_seed in
      if stripe = 0 then Inr blockchain_height
      else if block_height + CRYPTONOTE_PRUNING_TIP_BLOCKS \<ge> blockchain_height then Inr blockchain_height
      else let seed_log_stripes = get_pruning_log_stripes pruning_seed;
               log_stripes = (if seed_log_stripes \<noteq> 0 then ucast seed_log_stripes else CRYPTONOTE_PRUNING_LOG_STRIPES);
               mask = push_bit (unat log_stripes) 1 - 1;
               block_pruning_seed = ucast ((block_height div CRYPTONOTE_PRUNING_STRIPE_SIZE AND mask) + 1) :: u32
      in if block_pruning_seed \<noteq> stripe then Inr block_height
         else let next_stripe = ucast (1 + (ucast block_pruning_seed AND mask))
         in bindr (make_pruning_seed next_stripe (ucast log_stripes))
              (\<lambda>seed. Inr (get_next_unpruned_block_height block_height blockchain_height seed)))"

text \<open>The random byte is an argument.\<close>

definition get_random_stripe :: "u8 \<Rightarrow> u32" where
  "get_random_stripe r = 1 + ucast r mod push_bit (unat CRYPTONOTE_PRUNING_LOG_STRIPES) 1"

section \<open>Who keeps which block\<close>

text \<open>The rule without words: node \<open>s\<close> of \<open>S\<close>, a chain of \<open>B\<close> blocks, block \<open>m\<close>.\<close>

definition keeps_block :: "nat \<Rightarrow> nat \<Rightarrow> nat \<Rightarrow> nat \<Rightarrow> bool" where
  "keeps_block S s B m \<longleftrightarrow> B \<le> m + 5500 \<or> m div 4096 mod S = s"

definition next_kept :: "nat \<Rightarrow> nat \<Rightarrow> nat \<Rightarrow> nat \<Rightarrow> nat" where
  "next_kept S s B m =
     (if keeps_block S s B m then m
      else let h = 4096 * ((m div 4096 div S + (if m div 4096 mod S < s then 0 else 1)) * S + s)
           in if B < h + 5500 then B - 5500 else h)"

lemma no_stripe_between:
  fixes q :: nat
  assumes "q mod S \<noteq> s" "s < S" "q \<le> q'" "q' < (q div S + (if q mod S < s then 0 else 1)) * S + s"
  shows "q' mod S \<noteq> s"
proof -
  have S: "0 < S" using assms(2) by simp
  have q: "q = q div S * S + q mod S" by simp
  show ?thesis
  proof (cases "q' div S = q div S")
    case True
    then have "q' mod S = q' - q div S * S" by (simp add: modulo_nat_def)
    moreover have "q mod S = q - q div S * S" by (simp add: modulo_nat_def)
    ultimately show ?thesis using assms True q by (cases "q mod S < s") (auto simp: algebra_simps)
  next
    case False
    then have "q div S < q' div S" using assms(3) by (simp add: le_neq_trans div_le_mono)
    then have up: "(q div S + 1) * S \<le> q'"
      by (metis Suc_eq_plus1 Suc_leI S less_eq_div_iff_mult_less_eq)
    have n: "\<not> q mod S < s"
    proof
      assume "q mod S < s"
      then have "q' < q div S * S + s" using assms(4) by simp
      with up assms(2) show False by simp
    qed
    then have "q' < (q div S + 1) * S + s" using assms(4) by simp
    then have "q' - (q div S + 1) * S < s" using up by linarith
    moreover have "q' mod S = (q' - (q div S + 1) * S) mod S"
      using up by (metis le_add_diff_inverse mod_mult_self3)
    moreover have "(q' - (q div S + 1) * S) mod S \<le> q' - (q div S + 1) * S" by (rule mod_less_eq_dividend)
    ultimately show ?thesis by linarith
  qed
qed

lemma next_kept_least:
  assumes "s < S"
  shows "keeps_block S s B (next_kept S s B m) \<and> m \<le> next_kept S s B m
     \<and> (\<forall>k. m \<le> k \<and> k < next_kept S s B m \<longrightarrow> \<not> keeps_block S s B k)"
proof (cases "keeps_block S s B m")
  case False
  define q where "q = m div 4096"
  define t where "t = (q div S + (if q mod S < s then 0 else 1)) * S + s"
  have n: "next_kept S s B m = (if B < 4096 * t + 5500 then B - 5500 else 4096 * t)"
    using False by (simp add: next_kept_def q_def t_def Let_def)
  have m: "m + 5500 < B" "q mod S \<noteq> s" using False by (auto simp: keeps_block_def q_def)
  have S: "0 < S" using assms(1) by simp
  have ts: "t mod S = s" using assms(1) by (simp add: t_def)
  have "q < t"
  proof -
    have "t = q div S * S + s \<or> t = q div S * S + S + s" "q mod S < s \<or> t = q div S * S + S + s"
      by (simp_all add: t_def)
    moreover have "q = q div S * S + q mod S" "q mod S < S" using S by simp_all
    ultimately show ?thesis by linarith
  qed
  then have mt: "m < 4096 * t" by (simp add: q_def div_less_iff_less_mult mult.commute)
  have gap: "\<not> keeps_block S s B k" if "m \<le> k" "k < 4096 * t" "k + 5500 < B" for k
  proof -
    have "q \<le> k div 4096" using that(1) by (simp add: q_def div_le_mono)
    moreover have "k div 4096 < t" using that(2) by (simp add: div_less_iff_less_mult mult.commute)
    ultimately have "k div 4096 mod S \<noteq> s" using no_stripe_between [OF m(2) assms(1)] by (simp add: t_def)
    with that(3) show ?thesis by (simp add: keeps_block_def)
  qed
  show ?thesis
  proof (cases "B < 4096 * t + 5500")
    case True
    then show ?thesis using n m gap by (auto simp: keeps_block_def less_diff_conv)
  next
    case False
    then show ?thesis using n mt ts gap by (auto simp: keeps_block_def)
  qed
qed (auto simp: next_kept_def)

section \<open>The code keeps the rule\<close>

lemma unat_low_mask: "unat (x AND (push_bit n 1 - 1) :: 'a::len word) = unat x mod 2 ^ n"
proof -
  have "x AND (push_bit n 1 - 1) = take_bit n x"
    by (simp add: take_bit_eq_mask mask_eq_exp_minus_1 push_bit_of_1)
  then have "unat (x AND (push_bit n 1 - 1)) = take_bit n (unat x)" by (simp only: unsigned_take_bit_eq)
  then show ?thesis by (simp only: take_bit_eq_mod)
qed

text \<open>A seed that \<open>make_pruning_seed\<close> returns: 0, when there is one stripe, or the two fields.\<close>

lemma seed_fields:
  assumes "make_pruning_seed stripe log_stripes = Inr seed"
  shows "unat log_stripes \<le> 7" "0 < unat stripe" "unat stripe \<le> 2 ^ unat log_stripes"
    "seed_stripe seed = (if log_stripes = 0 then 0 else stripe)" "get_pruning_log_stripes seed = log_stripes"
proof -
  have l: "unat log_stripes \<le> 7" and "stripe > 0" and le: "stripe \<le> push_bit (unat log_stripes) 1"
    and seed: "seed = push_bit 7 log_stripes OR (stripe - 1)"
    using assms by (auto simp: make_pruning_seed_def pruning_consts word_le_nat_alt split: if_splits)
  show "unat log_stripes \<le> 7" by (rule l)
  have s0: "0 < unat stripe" using \<open>stripe > 0\<close> by (simp add: unat_gt_0)
  have "(2 :: nat) ^ unat log_stripes < 2 ^ 32" using l by (intro power_strict_increasing) simp_all
  moreover have "(push_bit (unat log_stripes) 1 :: u32) = of_nat (2 ^ unat log_stripes)" by simp
  ultimately have "unat (push_bit (unat log_stripes) 1 :: u32) = 2 ^ unat log_stripes"
    by (simp add: unat_of_nat_small del: of_nat_power of_nat_numeral push_bit_of_1)
  with le have sl: "unat stripe \<le> 2 ^ unat log_stripes" by (simp add: word_le_nat_alt)
  show "0 < unat stripe" "unat stripe \<le> 2 ^ unat log_stripes" by (rule s0, rule sl)
  have "(2 :: nat) ^ unat log_stripes \<le> 2 ^ 7" using l by (intro power_increasing) simp_all
  then have s1: "unat (stripe - 1) < 128" "unat (stripe - 1) = unat stripe - 1"
    using s0 sl by (simp_all add: unat_sub_le word_le_nat_alt)
  have p: "unat (push_bit 7 log_stripes) = 128 * unat log_stripes"
    unfolding unsigned_push_bit_eq using l by (simp add: push_bit_eq_mult take_bit_nat_eq_self)
  have "push_bit 7 log_stripes + (stripe - 1) = push_bit 7 log_stripes OR (stripe - 1)"
  proof (rule disjunctive_add)
    fix n
    have "take_bit 7 (stripe - 1) = stripe - 1"
      using s1(1) by (simp add: word_unat_eq_iff unsigned_take_bit_eq take_bit_nat_eq_self)
    then have "bit (stripe - 1) n \<Longrightarrow> n < 7" by (metis bit_take_bit_iff)
    then show "\<not> bit (push_bit 7 log_stripes) n \<or> \<not> bit (stripe - 1) n" by (auto simp: bit_push_bit_iff)
  qed
  then have u: "unat seed = 128 * unat log_stripes + (unat stripe - 1)"
    using l s1 unat_add_no_wrap [of "push_bit 7 log_stripes" "stripe - 1"] unfolding seed by (simp add: p)
  have low: "unat (seed AND 0x7F) = unat stripe - 1"
    using unat_low_mask [of seed 7] u s1 by (simp add: push_bit_of_1)
  have "unat (drop_bit 7 seed) = unat log_stripes"
    unfolding unat_drop_bit_eq using u s1 by (simp add: drop_bit_eq_div)
  then have "drop_bit 7 seed = log_stripes" by (simp only: word_unat_eq_iff)
  moreover have "unat (log_stripes AND 0x7) = unat log_stripes"
    using unat_low_mask [of log_stripes 3] l by (simp add: push_bit_of_1)
  then have "log_stripes AND 0x7 = log_stripes" by (simp only: word_unat_eq_iff)
  ultimately show "get_pruning_log_stripes seed = log_stripes"
    by (simp add: get_pruning_log_stripes_def pruning_consts)
  have "seed AND 0x7F = stripe - 1" using low s1(2) by (simp only: word_unat_eq_iff)
  moreover have "seed = 0 \<longleftrightarrow> log_stripes = 0"
    using u s0 sl by (auto simp: word_unat_eq_iff)
  ultimately show "seed_stripe seed = (if log_stripes = 0 then 0 else stripe)"
    by (simp add: seed_stripe_def pruning_consts)
qed

lemma unat_block_stripe:
  assumes "unat log_stripes \<le> 7"
  shows "unat (ucast ((h div 4096 AND (push_bit (unat log_stripes) 1 - 1)) + 1 :: u64) :: u32)
     = unat h div 4096 mod 2 ^ unat log_stripes + 1"
proof -
  have "unat h div 4096 mod 2 ^ unat log_stripes < 2 ^ unat log_stripes" by simp
  also have "(2 :: nat) ^ unat log_stripes \<le> 2 ^ 7" using assms by (intro power_increasing) simp_all
  finally have l: "unat h div 4096 mod 2 ^ unat log_stripes < 128" by simp
  have m: "unat (h div 4096 AND (push_bit (unat log_stripes) 1 - 1)) = unat h div 4096 mod 2 ^ unat log_stripes"
    unfolding unat_low_mask by (simp add: unat_div)
  have "unat ((h div 4096 AND (push_bit (unat log_stripes) 1 - 1)) + 1) = unat h div 4096 mod 2 ^ unat log_stripes + 1"
    by (subst unat_add_no_wrap) (use l m in simp_all)
  then show ?thesis using l by (simp add: unsigned_ucast_eq take_bit_nat_eq_self)
qed

lemma has_unpruned_eq:
  assumes "make_pruning_seed stripe log_stripes = Inr seed" "unat h + 5500 < 2 ^ 64"
  shows "has_unpruned_block h B seed = Inr (keeps_block (2 ^ unat log_stripes) (unat stripe - 1) (unat B) (unat h))"
proof -
  note f = seed_fields [OF assms(1)]
  have tip: "h + 5500 \<ge> B \<longleftrightarrow> unat B \<le> unat h + 5500"
    using assms(2) by (simp add: word_le_nat_alt unat_add_no_wrap)
  show ?thesis
  proof (cases "log_stripes = 0")
    case True
    then show ?thesis using f by (simp add: has_unpruned_block_def keeps_block_def)
  next
    case False
    have "stripe \<noteq> 0" using f(2) by auto
    have "ucast ((h div 4096 AND (push_bit (unat log_stripes) 1 - 1)) + 1 :: u64) = stripe \<longleftrightarrow>
        unat h div 4096 mod 2 ^ unat log_stripes = unat stripe - 1"
      unfolding word_unat_eq_iff unat_block_stripe [OF f(1)] using f(2) by auto
    moreover have "ucast ((h div 4096 AND (push_bit (unat log_stripes) 1 - 1)) + 1 :: u64) \<noteq> (0 :: u32)"
      unfolding word_unat_eq_iff unat_block_stripe [OF f(1)] by simp
    ultimately show ?thesis
      using False f(1,4,5) tip \<open>stripe \<noteq> 0\<close>
      by (simp add: has_unpruned_block_def block_stripe_def pruning_consts Let_def keeps_block_def del: push_bit_of_1)
  qed
qed

text \<open>The first block of a stripe in a cycle, in words and in numbers.\<close>

lemma cycle_bound:
  assumes "n \<le> 7" "m \<le> 500000001"
  shows "(m div 4096 div 2 ^ n + (if b then 0 else 1)) * 2 ^ n \<le> (122199 :: nat)" "(2 :: nat) ^ n \<le> 128"
proof -
  show S: "(2 :: nat) ^ n \<le> 128" using power_increasing [OF assms(1), of "2 :: nat"] by simp
  have "m div 4096 div 2 ^ n * 2 ^ n \<le> m div 4096" by simp
  also have "m div 4096 \<le> 122071" using div_le_mono [OF assms(2), of 4096] by simp
  finally show "(m div 4096 div 2 ^ n + (if b then 0 else 1)) * 2 ^ n \<le> (122199 :: nat)" using S by auto
qed

lemma unat_stripe_start:
  assumes "n \<le> 7" "unat (stripe :: u32) \<le> 2 ^ n" "0 < unat stripe" "unat m \<le> 500000001"
  shows "unat ((drop_bit n (m div 4096 :: u64) + (if b then 0 else 1)) * push_bit n 4096 + ucast ((stripe - 1) * 4096))
     = 4096 * ((unat m div 4096 div 2 ^ n + (if b then 0 else 1)) * 2 ^ n + (unat stripe - 1))"
proof -
  define c where "c = unat m div 4096 div 2 ^ n + (if b then 0 else 1)"
  have cS: "c * 2 ^ n \<le> 122199" "(2 :: nat) ^ n \<le> 128"
    using cycle_bound(1) [OF assms(1,4), of b] cycle_bound(2) [OF assms(1,4)] by (simp_all add: c_def)
  have d: "unat (drop_bit n (m div 4096)) = unat m div 4096 div 2 ^ n"
    unfolding unat_drop_bit_eq by (simp add: drop_bit_eq_div unat_div)
  have le: "unat m div 4096 div 2 ^ n \<le> unat m" by (meson div_le_dividend le_trans)
  have uc: "unat (drop_bit n (m div 4096) + (if b then 0 else 1)) = c"
  proof (cases b)
    case False
    have "unat (drop_bit n (m div 4096) + 1) = unat (drop_bit n (m div 4096)) + unat (1 :: u64)"
      using le assms(4) by (intro unat_add_no_wrap) (simp add: d)
    then show ?thesis using False by (simp only: c_def d if_False unat_1)
  qed (simp only: c_def d if_True add_0_right)
  have p: "unat (push_bit n 4096 :: u64) = 4096 * 2 ^ n"
    unfolding unsigned_push_bit_eq using cS(2) by (simp add: push_bit_eq_mult take_bit_nat_eq_self)
  have "c * (4096 * 2 ^ n) = 4096 * (c * 2 ^ n)" by (rule mult.left_commute)
  then have pr: "unat ((drop_bit n (m div 4096) + (if b then 0 else 1)) * push_bit n 4096) = 4096 * (c * 2 ^ n)"
    using cS(1) unat_mult_no_wrap [of "drop_bit n (m div 4096) + (if b then 0 else 1)" "push_bit n 4096", unfolded uc p]
    by (simp only: len_of_numeral_defs) simp
  have "unat (stripe - 1) = unat stripe - 1" using assms(3) by (simp add: unat_sub_le word_le_nat_alt)
  then have "unat ((stripe - 1) * 4096) = (unat stripe - 1) * 4096"
    using assms(2) cS(2) by (subst unat_mult_no_wrap) simp_all
  then have "unat (ucast ((stripe - 1) * 4096) :: u64) = 4096 * (unat stripe - 1)"
    using assms(2) cS(2) by (simp add: unsigned_ucast_eq take_bit_nat_eq_self)
  then show ?thesis
    unfolding c_def [symmetric] distrib_left using cS assms(2) pr by (subst unat_add_no_wrap) (simp_all only:, simp)
qed

lemma next_unpruned_eq:
  assumes "make_pruning_seed stripe log_stripes = Inr seed" "unat m \<le> 500000001" "unat B \<le> 500000001"
  shows "unat (get_next_unpruned_block_height m B seed) =
     next_kept (2 ^ unat log_stripes) (unat stripe - 1) (unat B) (unat m)"
proof -
  note f = seed_fields [OF assms(1)]
  let ?S = "2 ^ unat log_stripes :: nat" and ?s = "unat stripe - 1"
  have in_range: "m \<le> CRYPTONOTE_MAX_BLOCK_NUMBER + 1" "B \<le> CRYPTONOTE_MAX_BLOCK_NUMBER + 1"
    using assms(2,3) by (simp_all add: pruning_consts word_le_nat_alt)
  have tip: "m + 5500 \<ge> B \<longleftrightarrow> unat B \<le> unat m + 5500"
    using assms(2) by (simp add: word_le_nat_alt unat_add_no_wrap)
  show ?thesis
  proof (cases "log_stripes = 0 \<or> unat B \<le> unat m + 5500")
    case True
    moreover have "next_kept ?S ?s (unat B) (unat m) = unat m"
      using True f(2,3) by (auto simp: next_kept_def keeps_block_def)
    ultimately show ?thesis
      using f(4) tip in_range by (auto simp: get_next_unpruned_block_height_def pruning_consts(3))
  next
    case False
    then have nz: "log_stripes \<noteq> 0" "stripe \<noteq> 0" "\<not> unat B \<le> unat m + 5500" using f(2) by auto
    have l: "unat (ucast log_stripes :: u64) = unat log_stripes"
      using f(1) by (simp add: unsigned_ucast_eq take_bit_nat_eq_self)
    define bs :: u32 where "bs = ucast ((m div 4096 AND (push_bit (unat log_stripes) 1 - 1)) + 1)"
    have bs: "unat bs = unat m div 4096 mod ?S + 1" unfolding bs_def by (rule unat_block_stripe [OF f(1)])
    have eq: "bs = stripe \<longleftrightarrow> unat m div 4096 mod ?S = ?s" "stripe > bs \<longleftrightarrow> unat m div 4096 mod ?S < ?s"
      using bs f(2) by (auto simp: word_unat_eq_iff word_less_nat_alt)
    define h where "h = (drop_bit (unat log_stripes) (m div 4096) + (if stripe > bs then 0 else 1))
        * push_bit (unat log_stripes) 4096 + ucast ((stripe - 1) * 4096)"
    have h: "unat h = 4096 * ((unat m div 4096 div ?S + (if unat m div 4096 mod ?S < ?s then 0 else 1)) * ?S + ?s)"
      unfolding h_def unat_stripe_start [OF f(1,3,2) assms(2)] by (simp only: eq(2))
    have code: "get_next_unpruned_block_height m B seed = (if bs = stripe then m
        else if h + 5500 > B then B - 5500 else if \<not> h \<ge> m then m else h)"
      using in_range tip nz f(4,5) l
      by (simp add: get_next_unpruned_block_height_def pruning_consts(1,3) Let_def bs_def h_def word_less_nat_alt
        word_le_nat_alt)
    have nk: "next_kept ?S ?s (unat B) (unat m) = (if unat m div 4096 mod ?S = ?s then unat m
        else if unat B < unat h + 5500 then unat B - 5500 else unat h)"
      using nz(3) h by (auto simp: next_kept_def keeps_block_def Let_def)
    have "?s < ?S" using f(2,3) by linarith
    from next_kept_least [OF this, of "unat B" "unat m"] have up: "unat m \<le> next_kept ?S ?s (unat B) (unat m)" by simp
    have "unat h \<le> 4096 * (122199 + 128)"
      unfolding h using cycle_bound [OF f(1) assms(2)] \<open>?s < ?S\<close>
      by (intro mult_le_mono2 add_mono) (blast, meson le_trans less_imp_le)
    then have "h + 5500 > B \<longleftrightarrow> unat B < unat h + 5500"
      by (simp add: word_less_nat_alt unat_add_no_wrap)
    moreover have "unat (B - 5500) = unat B - 5500" using nz(3) by (simp add: unat_sub_le word_le_nat_alt)
    ultimately show ?thesis
      using up unfolding code nk eq(1) by (auto simp: word_le_nat_alt split: if_splits)
  qed
qed

text \<open>From a kept block, the next one that the node of the following stripe keeps: the end of the stripe.\<close>

lemma next_kept_following:
  assumes "m div 4096 mod S = s" "1 < S" "m + 5500 < B"
  defines "n \<equiv> next_kept S ((s + 1) mod S) B m"
  shows "\<forall>k. m \<le> k \<and> k < n \<longrightarrow> keeps_block S s B k" "keeps_block S s B n \<longleftrightarrow> B \<le> n + 5500" "n \<le> B"
proof -
  define q where "q = m div 4096"
  have q: "q mod S = s" "s < S" "q = q div S * S + s" using assms(1,2) by (auto simp: q_def)
  have ne: "q mod S \<noteq> (s + 1) mod S" using q(1,2) assms(2) by (cases "s + 1 = S") auto
  have up: "(q div S + (if q mod S < (s + 1) mod S then 0 else 1)) * S + (s + 1) mod S = q + 1"
    using q assms(2) by (cases "s + 1 = S") auto
  have n: "n = (if B < 4096 * (q + 1) + 5500 then B - 5500 else 4096 * (q + 1))"
    using ne assms(3) unfolding n_def next_kept_def keeps_block_def q_def [symmetric] up by (simp add: Let_def)
  have "k div 4096 = q" if "m \<le> k" "k < 4096 * (q + 1)" for k
    using that div_le_mono [OF that(1), of 4096] by (auto simp: q_def less_mult_imp_div_less intro!: antisym)
  then show "\<forall>k. m \<le> k \<and> k < n \<longrightarrow> keeps_block S s B k"
    using q(1) n by (auto simp: keeps_block_def split: if_splits)
  have "(q + 1) mod S \<noteq> s" using ne q(1) by (metis mod_Suc_eq Suc_eq_plus1)
  then show "keeps_block S s B n \<longleftrightarrow> B \<le> n + 5500" using n by (auto simp: keeps_block_def)
  show "n \<le> B" using n by simp
qed

lemma unat_one_shl_u32: "n \<le> 7 \<Longrightarrow> unat (push_bit n 1 :: u32) = 2 ^ n"
  using power_increasing [of n 7 "2 :: nat"] unfolding unsigned_push_bit_eq
  by (simp add: push_bit_eq_mult take_bit_nat_eq_self)

lemma make_pruning_seed_ok:
  assumes "unat log_stripes \<le> 7" "0 < unat stripe" "unat stripe \<le> 2 ^ unat log_stripes"
  shows "\<exists>seed. make_pruning_seed stripe log_stripes = Inr seed"
  using assms unat_one_shl_u32 [OF assms(1)]
  by (auto simp: make_pruning_seed_def pruning_consts word_le_nat_alt word_less_nat_alt simp del: push_bit_of_1)

text \<open>What the search for a pruned block comes to below the tip: this block, or the next of the following stripe.\<close>

lemma next_pruned_eq:
  assumes "make_pruning_seed stripe log_stripes = Inr seed" "unat m \<le> 500000001" "unat B \<le> 500000001"
    and "log_stripes \<noteq> 0" "unat m + 5500 < unat B"
  defines "S \<equiv> 2 ^ unat log_stripes" and "s \<equiv> unat stripe - 1"
  shows "\<exists>n. get_next_pruned_block_height m B seed = Inr n
     \<and> unat n = (if unat m div 4096 mod S = s then next_kept S ((s + 1) mod S) (unat B) (unat m) else unat m)"
proof -
  note f = seed_fields [OF assms(1)]
  have tip: "\<not> m + 5500 \<ge> B" using assms(2,5) by (simp add: word_le_nat_alt unat_add_no_wrap)
  have nz: "stripe \<noteq> 0" using f(2) by auto
  have l: "unat (ucast log_stripes :: u64) = unat log_stripes" "ucast (ucast log_stripes :: u64) = log_stripes"
    by (simp_all add: unat_ucast_up ucast_up_down)
  have S: "S \<le> 128" using cycle_bound(2) [OF f(1), of 0] by (simp add: S_def)
  define bs :: u32 where "bs = ucast ((m div 4096 AND (push_bit (unat log_stripes) 1 - 1)) + 1)"
  have bs: "unat bs = unat m div 4096 mod S + 1" unfolding bs_def S_def by (rule unat_block_stripe [OF f(1)])
  define nx :: u32 where "nx = ucast (1 + (ucast bs AND (push_bit (unat log_stripes) 1 - 1)) :: u64)"
  have code: "get_next_pruned_block_height m B seed = (if bs \<noteq> stripe then Inr m
      else bindr (make_pruning_seed nx log_stripes) (\<lambda>seed. Inr (get_next_unpruned_block_height m B seed)))"
    using assms(4) tip nz f(4,5) l
    by (simp add: get_next_pruned_block_height_def pruning_consts(1,3) Let_def bs_def nx_def del: push_bit_of_1)
  have eq: "bs = stripe \<longleftrightarrow> unat m div 4096 mod S = s" using bs f(2) by (auto simp: word_unat_eq_iff s_def)
  show ?thesis
  proof (cases "bs = stripe")
    case True
    have ub: "unat (ucast bs AND (push_bit (unat log_stripes) 1 - 1) :: u64) = (s + 1) mod S"
      using True f(2) unfolding unat_low_mask S_def [symmetric] by (simp add: unat_ucast_up s_def)
    have sm: "(s + 1) mod S < S" by (simp add: S_def)
    then have "unat (1 + (ucast bs AND (push_bit (unat log_stripes) 1 - 1)) :: u64) = 1 + (s + 1) mod S"
      using S ub by (subst unat_add_no_wrap) simp_all
    then have nx: "unat nx = 1 + (s + 1) mod S"
      using S sm by (simp add: nx_def unsigned_ucast_eq take_bit_nat_eq_self)
    then obtain seed' where "make_pruning_seed nx log_stripes = Inr seed'"
      using make_pruning_seed_ok [OF f(1), of nx] sm by (auto simp: S_def Suc_le_eq)
    then show ?thesis using True code eq next_unpruned_eq [OF _ assms(2,3)] nx by (simp add: S_def)
  qed (use code eq in simp)
qed

section \<open>Properties\<close>

text \<open>C16: Where to download from next, exactly: for every seed that make_pruning_seed can return and heights up to the
  maximum block number, get_next_unpruned_block_height returns the least height from the given one on
  whose block a node with that seed has in full, and has_unpruned_block says so for that height and for
  none before it.\<close>

theorem next_unpruned_exact:
  assumes "make_pruning_seed stripe log_stripes = Inr seed" "m \<le> 500000001" "B \<le> 500000001"
  defines "n \<equiv> get_next_unpruned_block_height m B seed"
  shows "m \<le> n \<and> has_unpruned_block n B seed = Inr True \<and> (\<forall>k. m \<le> k \<and> k < n \<longrightarrow> has_unpruned_block k B seed = Inr False)"
proof -
  note f = seed_fields [OF assms(1)]
  let ?S = "2 ^ unat log_stripes :: nat" and ?s = "unat stripe - 1"
  have u: "unat m \<le> 500000001" "unat B \<le> 500000001" using assms(2,3) by (simp_all add: word_le_nat_alt)
  note n = next_unpruned_eq [OF assms(1) u, folded n_def]
  have "?s < ?S" using f(2,3) by linarith
  from next_kept_least [OF this, of "unat B" "unat m", folded n]
  have l: "keeps_block ?S ?s (unat B) (unat n)" "unat m \<le> unat n"
    "\<forall>k. unat m \<le> k \<and> k < unat n \<longrightarrow> \<not> keeps_block ?S ?s (unat B) k" by simp_all
  have small: "unat n + 5500 < 2 ^ 64"
  proof (cases "unat n \<le> unat m")
    case False
    then have "\<not> keeps_block ?S ?s (unat B) (unat n - 1)" using l(3) by simp
    then have "unat n - 1 < unat B" by (simp add: keeps_block_def)
    with u show ?thesis by simp
  qed (use u in simp)
  have "has_unpruned_block k B seed = Inr False" if "m \<le> k" "k < n" for k
  proof -
    have k: "unat m \<le> unat k" "unat k < unat n" using that by (simp_all add: word_le_nat_alt word_less_nat_alt)
    then have "unat k + 5500 < 2 ^ 64" using small by linarith
    then show ?thesis using has_unpruned_eq [OF assms(1), of k B] l(3) k by simp
  qed
  then show ?thesis using has_unpruned_eq [OF assms(1) small] l(1,2) by (simp add: word_le_nat_alt)
qed

theorem next_unpruned_exact_witness:
  "has_unpruned_block (get_next_unpruned_block_height 100 60000 0x181) 60000 0x181 = Inr True
   \<and> get_next_unpruned_block_height 100 60000 0x181 = 4096"
  using next_unpruned_exact [of 2 3 "0x181" 100 60000]
  by (simp add: make_pruning_seed_def get_next_unpruned_block_height_def seed_stripe_def get_pruning_log_stripes_def
      pruning_consts Let_def word_le_nat_alt)

text \<open>Where the peer's pruned blocks begin, exactly: for the seed of a pruned node and heights up to the
  maximum block number, get_next_pruned_block_height returns, without failing, a height such that the
  node has every block before it, and either the block at it is pruned or no block from there on is.\<close>

theorem next_pruned_exact:
  assumes "make_pruning_seed stripe log_stripes = Inr seed" "m \<le> 500000001" "B \<le> 500000001"
  shows "\<exists>n. get_next_pruned_block_height m B seed = Inr n
     \<and> (\<forall>k. m \<le> k \<and> k < n \<longrightarrow> has_unpruned_block k B seed = Inr True)
     \<and> (has_unpruned_block n B seed = Inr False
        \<or> (\<forall>k. n \<le> k \<and> k \<le> 500000001 \<longrightarrow> has_unpruned_block k B seed = Inr True))"
proof -
  note f = seed_fields [OF assms(1)]
  let ?S = "2 ^ unat log_stripes :: nat" and ?s = "unat stripe - 1"
  have u: "unat m \<le> 500000001" "unat B \<le> 500000001" using assms(2,3) by (simp_all add: word_le_nat_alt)
  have has: "has_unpruned_block k B seed = Inr (keeps_block ?S ?s (unat B) (unat k))" if "unat k \<le> 500000001" for k
    using that by (intro has_unpruned_eq [OF assms(1)]) simp
  have tip: "m + 5500 \<ge> B \<longleftrightarrow> unat B \<le> unat m + 5500"
    using u(1) by (simp add: word_le_nat_alt unat_add_no_wrap)
  show ?thesis
  proof (cases "log_stripes = 0 \<or> unat B \<le> unat m + 5500")
    case True
    then have "get_next_pruned_block_height m B seed = Inr B"
      using f(4) tip by (auto simp: get_next_pruned_block_height_def pruning_consts(3))
    moreover have "keeps_block ?S ?s (unat B) k" if "unat m \<le> k \<or> unat B \<le> k" for k
      using True f(2,3) that by (auto simp: keeps_block_def)
    ultimately show ?thesis using has u by (auto simp: word_le_nat_alt word_less_nat_alt)
  next
    case False
    then obtain n where n: "get_next_pruned_block_height m B seed = Inr n"
      "unat n = (if unat m div 4096 mod ?S = ?s then next_kept ?S ((?s + 1) mod ?S) (unat B) (unat m) else unat m)"
      using next_pruned_eq [OF assms(1) u] by auto
    show ?thesis
    proof (cases "unat m div 4096 mod ?S = ?s")
      case True
      have S: "1 < ?S" using False one_less_power [of "2 :: nat" "unat log_stripes"] by (simp add: unat_gt_0)
      have "unat m + 5500 < unat B" using False by simp
      note nf = next_kept_following [OF True S this]
      have kept: "keeps_block ?S ?s (unat B) (unat n) \<Longrightarrow> n \<le> k \<Longrightarrow> keeps_block ?S ?s (unat B) (unat k)" for k
        using nf(2) n(2) True False by (simp add: keeps_block_def word_le_nat_alt)
      have le: "unat n \<le> 500000001" using nf(3) n(2) True u(2) by simp
      then have before: "has_unpruned_block k B seed = Inr True" if "m \<le> k" "k < n" for k
        using nf(1) n(2) True False that has [of k] by (simp add: word_le_nat_alt word_less_nat_alt)
      show ?thesis
        using n(1) before has [OF le] has kept by (cases "keeps_block ?S ?s (unat B) (unat n)") (auto simp: word_le_nat_alt)
    next
      case other: False
      then have "n = m" "has_unpruned_block m B seed = Inr False"
        using n(2) has [OF u(1)] False by (simp_all add: keeps_block_def word_unat_eq_iff)
      with n(1) show ?thesis by auto
    qed
  qed
qed

theorem next_pruned_exact_witness:
  "\<exists>n. get_next_pruned_block_height 100 60000 0x180 = Inr n \<and> has_unpruned_block n 60000 0x180 = Inr False"
proof -
  have "get_next_pruned_block_height 100 60000 0x180 = Inr 4096"
    by (simp add: make_pruning_seed_def get_next_pruned_block_height_def get_next_unpruned_block_height_def seed_stripe_def
        get_pruning_log_stripes_def pruning_consts Let_def)
  with next_pruned_exact [of 1 3 "0x180" 100 60000] show ?thesis
    by (simp add: make_pruning_seed_def pruning_consts has_unpruned_block_def block_stripe_def seed_stripe_def
        get_pruning_log_stripes_def)
qed

text \<open>The stripes share out the chain: below the last 5500 blocks, of the 2^log nodes with the seeds of one
  number of stripes exactly one has a given block, and it is the node whose seed get_pruning_seed
  gives for that block.\<close>

theorem stripes_share_the_chain:
  assumes "unat log_stripes \<le> 7" "m \<le> 500000001" "m + 5500 < B"
  shows "(\<exists>!stripe. \<exists>seed. make_pruning_seed stripe log_stripes = Inr seed \<and> has_unpruned_block m B seed = Inr True)
     \<and> (\<exists>seed. get_pruning_seed m B log_stripes = Inr seed \<and> has_unpruned_block m B seed = Inr True)"
proof -
  let ?S = "2 ^ unat log_stripes :: nat"
  have um: "unat m \<le> 500000001" using assms(2) by (simp add: word_le_nat_alt)
  have below: "\<not> unat B \<le> unat m + 5500"
    using assms(3) um by (simp add: word_less_nat_alt unat_add_no_wrap)
  have has: "has_unpruned_block m B seed = Inr (unat m div 4096 mod ?S = unat stripe - 1)"
    if "make_pruning_seed stripe log_stripes = Inr seed" for stripe seed
    using has_unpruned_eq [OF that, of m B] um below by (simp add: keeps_block_def)
  define bs :: u32 where "bs = ucast ((m div 4096 AND (push_bit (unat log_stripes) 1 - 1)) + 1)"
  have bs: "unat bs = unat m div 4096 mod ?S + 1" unfolding bs_def by (rule unat_block_stripe [OF assms(1)])
  then have nz: "bs \<noteq> 0" by (metis Suc_eq_plus1 nat.distinct(1) unat_0)
  obtain seed where seed: "make_pruning_seed bs log_stripes = Inr seed"
    using make_pruning_seed_ok [OF assms(1), of bs] bs by (auto simp: Suc_le_eq)
  then have "get_pruning_seed m B log_stripes = Inr seed" "has_unpruned_block m B seed = Inr True"
    using assms(1) assms(3) [folded not_le] nz has [OF seed] bs
    by (simp_all add: get_pruning_seed_def block_stripe_def pruning_consts bs_def del: push_bit_of_1)
  moreover have "stripe = bs" if "make_pruning_seed stripe log_stripes = Inr seed'" "has_unpruned_block m B seed' = Inr True"
    for stripe seed'
    using has [OF that(1)] that(2) seed_fields(2) [OF that(1)] bs by (simp add: word_unat_eq_iff)
  ultimately show ?thesis using seed by blast
qed

theorem stripes_share_the_chain_witness:
  "\<exists>seed. get_pruning_seed 5000 60000 3 = Inr seed \<and> has_unpruned_block 5000 60000 seed = Inr True"
  using stripes_share_the_chain [of 3 5000 60000] by simp

end
