(* ===== verification/BlockQueue.thy ===== *)
theory BlockQueue
  imports Pruning Complex_Main
begin

text \<open>
  vendor/monero/src/cryptonote_protocol/block_queue.cpp and block_queue.h: the spans of blocks that a node
  downloading a chain has asked its peers for. The \<open>std::set\<close> of spans is a list in ascending order of the first height, which alone identifies an
  element; block contents and network addresses, which the queue only carries, are type parameters; a
  \<open>boost::uuids::uuid\<close> is its bytes, a \<open>float\<close> its value and a \<open>ptime\<close> its ticks from \<open>min_date_time\<close>. The mutex makes each call one step.
\<close>

record ('b, 'a) span =
  start_block_height :: u64
  span_hashes :: "bytes list"
  span_blocks :: "'b list"
  connection_id :: bytes
  nblocks :: u64
  span_rate :: rat
  span_size :: u64
  span_time :: int
  origin :: 'a

definition min_date_time :: int where
  "min_date_time = 0"

definition filled_span :: "u64 \<Rightarrow> 'b list \<Rightarrow> bytes \<Rightarrow> 'a \<Rightarrow> rat \<Rightarrow> u64 \<Rightarrow> ('b, 'a) span" where
  "filled_span start blocks conn addr rate sz =
     \<lparr>start_block_height = start, span_hashes = [], span_blocks = blocks, connection_id = conn,
      nblocks = of_nat (length blocks), span_rate = rate, span_size = sz, span_time = min_date_time, origin = addr\<rparr>"

definition scheduled_span :: "u64 \<Rightarrow> u64 \<Rightarrow> bytes \<Rightarrow> 'a \<Rightarrow> int \<Rightarrow> ('b, 'a) span" where
  "scheduled_span start n conn addr time =
     \<lparr>start_block_height = start, span_hashes = [], span_blocks = [], connection_id = conn,
      nblocks = n, span_rate = 0, span_size = 0, span_time = time, origin = addr\<rparr>"

text \<open>\<open>std::set::insert\<close>: nothing happens if there is an equal element.\<close>

fun span_insert :: "('b, 'a) span \<Rightarrow> ('b, 'a) span list \<Rightarrow> ('b, 'a) span list" where
  "span_insert s [] = [s]"
| "span_insert s (t # ts) =
     (if start_block_height s < start_block_height t then s # t # ts
      else if start_block_height t < start_block_height s then t # span_insert s ts
      else t # ts)"

record ('b, 'a) block_queue =
  spans :: "('b, 'a) span list"
  requested_hashes :: "bytes set"
  have_blocks :: "bytes \<rightharpoonup> u64"

definition empty_queue :: "('b, 'a) block_queue" where
  "empty_queue = \<lparr>spans = [], requested_hashes = {}, have_blocks = Map.empty\<rparr>"

definition erase_block :: "('b, 'a) span \<Rightarrow> ('b, 'a) block_queue \<Rightarrow> ('b, 'a) block_queue" where
  "erase_block j q =
     q\<lparr>requested_hashes := requested_hashes q - set (span_hashes j),
       have_blocks := have_blocks q |` (- set (span_hashes j)),
       spans := filter (\<lambda>s. start_block_height s \<noteq> start_block_height j) (spans q)\<rparr>"

definition set_span_hashes :: "u64 \<Rightarrow> bytes \<Rightarrow> bytes list \<Rightarrow> ('b, 'a) block_queue \<Rightarrow> ('b, 'a) block_queue" where
  "set_span_hashes start_height conn hashes q =
     (case find (\<lambda>s. start_block_height s = start_height \<and> connection_id s = conn) (spans q) of
        None \<Rightarrow> q
      | Some i \<Rightarrow>
          let q = erase_block i q; s = i\<lparr>span_hashes := hashes\<rparr>
          in q\<lparr>requested_hashes := requested_hashes q \<union> set hashes, spans := span_insert s (spans q)\<rparr>)"

text \<open>The hashes are copied before the span is erased: an element of a \<open>std::set\<close> is const.\<close>

definition remove_span :: "u64 \<Rightarrow> ('b, 'a) block_queue \<Rightarrow> bytes list option \<times> ('b, 'a) block_queue" where
  "remove_span start_height q =
     (case find (\<lambda>s. start_block_height s = start_height) (spans q) of
        None \<Rightarrow> (None, q)
      | Some i \<Rightarrow> (Some (span_hashes i), erase_block i q))"

text \<open>The loop of \<open>add_blocks\<close> over the hashes; \<open>emplace\<close> keeps an old entry.\<close>

fun note_hashes :: "u64 \<Rightarrow> bytes list \<Rightarrow> ('b, 'a) block_queue \<Rightarrow> ('b, 'a) block_queue" where
  "note_hashes height [] q = q"
| "note_hashes height (h # hs) q =
     note_hashes (height + 1) hs
       (q\<lparr>requested_hashes := insert h (requested_hashes q),
          have_blocks := (if h \<in> dom (have_blocks q) then have_blocks q else (have_blocks q)(h \<mapsto> height))\<rparr>)"

definition add_filled :: "u64 \<Rightarrow> 'b list \<Rightarrow> bytes \<Rightarrow> 'a \<Rightarrow> rat \<Rightarrow> u64 \<Rightarrow> ('b, 'a) block_queue \<Rightarrow> ('b, 'a) block_queue" where
  "add_filled height bcel conn addr rate sz q =
     (let (hashes, q) = remove_span height q;
          q = q\<lparr>spans := span_insert (filled_span height bcel conn addr rate sz) (spans q)\<rparr>
      in case hashes of None \<Rightarrow> q | Some hs \<Rightarrow> set_span_hashes height conn hs (note_hashes height hs q))"

definition add_scheduled :: "u64 \<Rightarrow> u64 \<Rightarrow> bytes \<Rightarrow> 'a \<Rightarrow> int \<Rightarrow> ('b, 'a) block_queue \<Rightarrow> ('b, 'a) block_queue result" where
  "add_scheduled height n conn addr time q =
     (if n = 0 then Inl Thrown
      else Inr (q\<lparr>spans := span_insert (scheduled_span height n conn addr time) (spans q)\<rparr>))"

text \<open>Erasing while iterating leaves the other iterators valid: each span of the set is visited once.\<close>

definition erase_all :: "(('b, 'a) span \<Rightarrow> bool) \<Rightarrow> ('b, 'a) block_queue \<Rightarrow> ('b, 'a) block_queue" where
  "erase_all P q = foldl (\<lambda>q j. if P j then erase_block j q else q) q (spans q)"

definition flush_spans :: "bytes \<Rightarrow> bool \<Rightarrow> ('b, 'a) block_queue \<Rightarrow> ('b, 'a) block_queue" where
  "flush_spans conn al = erase_all (\<lambda>j. connection_id j = conn \<and> (al \<or> span_blocks j = []))"

definition flush_stale_spans :: "bytes set \<Rightarrow> ('b, 'a) block_queue \<Rightarrow> ('b, 'a) block_queue" where
  "flush_stale_spans live_connections = erase_all (\<lambda>j. span_blocks j = [] \<and> connection_id j \<notin> live_connections)"

definition remove_spans :: "bytes \<Rightarrow> u64 \<Rightarrow> ('b, 'a) block_queue \<Rightarrow> ('b, 'a) block_queue" where
  "remove_spans conn start_height = erase_all (\<lambda>j. connection_id j = conn \<and> start_block_height j \<le> start_height)"

definition reset_next_span_time :: "int \<Rightarrow> ('b, 'a) block_queue \<Rightarrow> ('b, 'a) block_queue" where
  "reset_next_span_time t q =
     (case spans q of
        [] \<Rightarrow> q
      | s # ss \<Rightarrow> if span_blocks s \<noteq> [] then q else q\<lparr>spans := s\<lparr>span_time := t\<rparr> # ss\<rparr>)"

definition get_max_block_height :: "('b, 'a) block_queue \<Rightarrow> u64" where
  "get_max_block_height q =
     foldl (\<lambda>height s. let h = start_block_height s + nblocks s - 1 in if h > height then h else height) 0 (spans q)"

fun needed_loop :: "u64 \<Rightarrow> u64 \<Rightarrow> ('b, 'a) span list \<Rightarrow> u64" where
  "needed_loop blockchain_height covered_until [] = covered_until"
| "needed_loop blockchain_height covered_until (s # ss) =
     (let span_end = start_block_height s + nblocks s - 1 in
      if span_end < blockchain_height then needed_loop blockchain_height covered_until ss
      else if start_block_height s > covered_until then covered_until
      else needed_loop blockchain_height (max covered_until (start_block_height s + nblocks s)) ss)"

definition get_next_needed_height :: "u64 \<Rightarrow> ('b, 'a) block_queue \<Rightarrow> u64" where
  "get_next_needed_height blockchain_height q =
     (if spans q = [] then blockchain_height else needed_loop blockchain_height blockchain_height (spans q))"

definition requested :: "bytes \<Rightarrow> ('b, 'a) block_queue \<Rightarrow> bool" where
  "requested h q \<longleftrightarrow> h \<in> requested_hashes q"

definition have_hash :: "bytes \<Rightarrow> ('b, 'a) block_queue \<Rightarrow> bool" where
  "have_hash h q \<longleftrightarrow> h \<in> dom (have_blocks q)"

definition have_height :: "bytes \<Rightarrow> ('b, 'a) block_queue \<Rightarrow> u64" where
  "have_height h q = (case have_blocks q h of None \<Rightarrow> - 1 | Some k \<Rightarrow> k)"

text \<open>The loop that collects hashes for a span: the number of blocks and their hashes.\<close>

fun collect_loop :: "u64 \<Rightarrow> bool \<Rightarrow> bool \<Rightarrow> u32 \<Rightarrow> u32 \<Rightarrow> u64 \<Rightarrow> u64 \<Rightarrow> (bytes \<times> u64) list \<Rightarrow> u64 \<Rightarrow> bytes list \<Rightarrow> (u64 \<times> bytes list) result" where
  "collect_loop max_blocks sync_pruned first_is_pruned local_seed seed blockchain_height start [] len hashes = Inr (len, hashes)"
| "collect_loop max_blocks sync_pruned first_is_pruned local_seed seed blockchain_height start (i # is) len hashes =
     (if \<not> len < max_blocks then Inr (len, hashes)
      else bindr (if sync_pruned then Inr True else has_unpruned_block (start + len) blockchain_height seed) (\<lambda>peer_has.
        if \<not> peer_has then Inr (len, hashes)
        else bindr (if sync_pruned then has_unpruned_block (start + len) blockchain_height local_seed else Inr False) (\<lambda>in_full.
          if sync_pruned \<and> first_is_pruned = in_full then Inr (len, hashes)
          else collect_loop max_blocks sync_pruned first_is_pruned local_seed seed blockchain_height start is (len + 1) (hashes @ [fst i]))))"

text \<open>
  \<open>reserve_span\<close> in its two halves. First the height to start from: past the hashes requested already, and
  past the peer's pruned blocks. \<open>next_unpruned_height\<close> has 32 bits, its function returns 64.
\<close>

definition requested_prefix :: "(bytes \<times> u64) list \<Rightarrow> ('b, 'a) block_queue \<Rightarrow> nat" where
  "requested_prefix block_hashes q = length (takeWhile (\<lambda>i. requested (fst i) q) block_hashes)"

definition download_start :: "u64 \<Rightarrow> bool \<Rightarrow> u32 \<Rightarrow> u64 \<Rightarrow> (bytes \<times> u64) list \<Rightarrow> ('b, 'a) block_queue \<Rightarrow> u64" where
  "download_start hashes_start sync_pruned seed blockchain_height block_hashes q =
     (let start = hashes_start + of_nat (requested_prefix block_hashes q) in
      if sync_pruned then start
      else let next_unpruned_height = ucast (get_next_unpruned_block_height start blockchain_height seed) :: u32
      in if ucast next_unpruned_height > start \<and> ucast next_unpruned_height < start + CRYPTONOTE_PRUNING_STRIPE_SIZE
         then ucast next_unpruned_height else start)"

text \<open>Then, at the hash for that height, past the requested ones again, and as many blocks as fit.\<close>

definition reserve_from :: "u64 \<Rightarrow> u64 \<Rightarrow> bytes \<Rightarrow> 'a \<Rightarrow> bool \<Rightarrow> u32 \<Rightarrow> u32 \<Rightarrow> u64 \<Rightarrow> (bytes \<times> u64) list \<Rightarrow> int
    \<Rightarrow> ('b, 'a) block_queue \<Rightarrow> ((u64 \<times> u64) \<times> ('b, 'a) block_queue) result" where
  "reserve_from start max_blocks conn addr sync_pruned local_seed seed blockchain_height is time q =
     (let k = requested_prefix is q; start = start + of_nat k in
      bindr (if sync_pruned then has_unpruned_block start blockchain_height local_seed else Inr True) (\<lambda>in_full.
      bindr (collect_loop max_blocks sync_pruned (sync_pruned \<and> \<not> in_full) local_seed seed blockchain_height start (drop k is) 0 [])
        (\<lambda>(len, hashes).
      if len = 0 then Inr ((0, 0), q)
      else bindr (add_scheduled start len conn addr time q) (\<lambda>q.
           Inr ((start, len), set_span_hashes start conn hashes q)))))"

definition reserve_span :: "u64 \<Rightarrow> u64 \<Rightarrow> u64 \<Rightarrow> bytes \<Rightarrow> 'a \<Rightarrow> bool \<Rightarrow> u32 \<Rightarrow> u32 \<Rightarrow> u64 \<Rightarrow> (bytes \<times> u64) list \<Rightarrow> int
    \<Rightarrow> ('b, 'a) block_queue \<Rightarrow> ((u64 \<times> u64) \<times> ('b, 'a) block_queue) result" where
  "reserve_span first_height last_height max_blocks conn addr sync_pruned local_seed seed blockchain_height block_hashes time q =
     (if last_height < first_height \<or> max_blocks = 0 then Inr ((0, 0), q)
      else if of_nat (length block_hashes) > last_height then Inr ((0, 0), q)
      else let hashes_start = last_height - of_nat (length block_hashes) + 1;
               start = download_start hashes_start sync_pruned seed blockchain_height block_hashes q
      in if start \<ge> of_nat (length block_hashes) + hashes_start then Inr ((0, 0), q)
         else reserve_from start max_blocks conn addr sync_pruned local_seed seed blockchain_height
                (drop (unat (start - hashes_start)) block_hashes) time q)"

definition get_next_span_if_scheduled :: "('b, 'a) block_queue \<Rightarrow> (u64 \<times> u64) \<times> (bytes list \<times> bytes \<times> int) option" where
  "get_next_span_if_scheduled q =
     (case spans q of
        [] \<Rightarrow> ((0, 0), None)
      | s # ss \<Rightarrow> if span_blocks s \<noteq> [] then ((0, 0), None)
                 else ((start_block_height s, nblocks s), Some (span_hashes s, connection_id s, span_time s)))"

definition get_next_span :: "bool \<Rightarrow> ('b, 'a) block_queue \<Rightarrow> (u64 \<times> 'b list \<times> bytes \<times> 'a) option" where
  "get_next_span filled q =
     map_option (\<lambda>s. (start_block_height s, span_blocks s, connection_id s, origin s))
       (find (\<lambda>s. \<not> filled \<or> span_blocks s \<noteq> []) (spans q))"

definition has_next_span :: "bytes \<Rightarrow> ('b, 'a) block_queue \<Rightarrow> (bool \<times> int) option" where
  "has_next_span conn q =
     (case spans q of
        [] \<Rightarrow> None
      | s # ss \<Rightarrow> if connection_id s \<noteq> conn then None else Some (span_blocks s \<noteq> [], span_time s))"

definition has_next_span_at :: "u64 \<Rightarrow> ('b, 'a) block_queue \<Rightarrow> (bool \<times> int \<times> bytes) option" where
  "has_next_span_at height q =
     (case spans q of
        [] \<Rightarrow> None
      | s # ss \<Rightarrow> if start_block_height s > height then None
                 else Some (span_blocks s \<noteq> [], span_time s, connection_id s))"

definition get_data_size :: "('b, 'a) block_queue \<Rightarrow> u64" where
  "get_data_size q = foldl (\<lambda>total s. total + span_size s) 0 (spans q)"

definition get_num_filled_spans :: "('b, 'a) block_queue \<Rightarrow> u64" where
  "get_num_filled_spans q = foldl (\<lambda>n s. if span_blocks s \<noteq> [] then n + 1 else n) 0 (spans q)"

definition foreach :: "(('b, 'a) span \<Rightarrow> bool) \<Rightarrow> ('b, 'a) block_queue \<Rightarrow> bool" where
  "foreach f q \<longleftrightarrow> list_all f (spans q)"

section \<open>The invariant\<close>

text \<open>The hashes a queue notes are those of the spans \<open>L\<close>, and a height noted for one is its height there.\<close>

definition recorded :: "(u64 \<times> bytes list) set \<Rightarrow> ('b, 'a) block_queue \<Rightarrow> bool" where
  "recorded L q \<longleftrightarrow> requested_hashes q \<subseteq> (\<Union>(st, hs) \<in> L. set hs) \<and> dom (have_blocks q) \<subseteq> requested_hashes q
     \<and> (\<forall>h k. have_blocks q h = Some k \<longrightarrow> (\<exists>(st, hs) \<in> L. \<exists>i < length hs. hs ! i = h \<and> k = st + of_nat i))"

abbreviation ascending :: "('b, 'a) span list \<Rightarrow> bool" where
  "ascending \<equiv> sorted_wrt (\<lambda>s t. start_block_height s < start_block_height t)"

definition claims :: "('b, 'a) span list \<Rightarrow> (u64 \<times> bytes list) set" where
  "claims ss = (\<lambda>s. (start_block_height s, span_hashes s)) ` set ss"

definition queue_inv :: "('b, 'a) block_queue \<Rightarrow> bool" where
  "queue_inv q \<longleftrightarrow> ascending (spans q) \<and> recorded (claims (spans q)) q"

text \<open>What can be done to a queue.\<close>

inductive queue_step :: "('b, 'a) block_queue \<Rightarrow> ('b, 'a) block_queue \<Rightarrow> bool" where
  filled: "queue_step q (add_filled height bcel conn addr rate sz q)"
| scheduled: "add_scheduled height n conn addr time q = Inr q' \<Longrightarrow> queue_step q q'"
| flushed: "queue_step q (flush_spans conn al q)"
| flushed_stale: "queue_step q (flush_stale_spans live q)"
| removed: "queue_step q (snd (remove_span height q))"
| removed_up_to: "queue_step q (remove_spans conn height q)"
| hashes_set: "queue_step q (set_span_hashes height conn hashes q)"
| time_reset: "queue_step q (reset_next_span_time t q)"
| reserved: "reserve_span first_height last_height max_blocks conn addr sync_pruned local_seed seed blockchain_height
     block_hashes time q = Inr (r, q') \<Longrightarrow> queue_step q q'"

inductive queue_life :: "('b, 'a) block_queue \<Rightarrow> bool" where
  born: "queue_life empty_queue"
| lives: "queue_life q \<Longrightarrow> queue_step q q' \<Longrightarrow> queue_life q'"

lemma set_span_insert:
  "set (span_insert s ts) = (if start_block_height s \<in> start_block_height ` set ts then set ts else insert s (set ts))"
  if "ascending ts"
  using that by (induction s ts rule: span_insert.induct) (auto dest: less_imp_neq)

lemma ascending_insert: "ascending ts \<Longrightarrow> ascending (span_insert s ts)"
proof (induction s ts rule: span_insert.induct)
  case (2 s t ts)
  then show ?case by (auto simp: set_span_insert)
qed simp

lemma ascending_inj:
  "ascending ts \<Longrightarrow> s \<in> set ts \<Longrightarrow> t \<in> set ts \<Longrightarrow> start_block_height s = start_block_height t \<Longrightarrow> s = t"
  by (induction ts) (auto dest: less_imp_neq)

lemma recorded_mono: "recorded L q \<Longrightarrow> L \<subseteq> L' \<Longrightarrow> recorded L' q"
  unfolding recorded_def by (meson UN_mono order_refl subset_eq subset_trans)

lemma recorded_spans [simp]: "recorded L (q\<lparr>spans := ss\<rparr>) = recorded L q"
  by (simp add: recorded_def)

lemma recorded_erase:
  assumes "recorded (insert (st, span_hashes j) L) q"
  shows "recorded L (erase_block j q)"
  using assms by (auto simp: recorded_def erase_block_def restrict_map_def split: if_splits) fastforce+

lemma note_hashes_spans [simp]: "spans (note_hashes height hs q) = spans q"
  by (induction height hs q rule: note_hashes.induct) simp_all

lemma recorded_note:
  assumes "recorded (insert (st, pre @ hs) L) q"
  shows "recorded (insert (st, pre @ hs) L) (note_hashes (st + of_nat (length pre)) hs q)"
  using assms
proof (induction hs arbitrary: pre q)
  case (Cons h hs)
  let ?q = "q\<lparr>requested_hashes := insert h (requested_hashes q),
    have_blocks := (if h \<in> dom (have_blocks q) then have_blocks q else (have_blocks q)(h \<mapsto> st + of_nat (length pre)))\<rparr>"
  have "recorded (insert (st, (pre @ [h]) @ hs) L) ?q"
  proof -
    have "(pre @ h # hs) ! length pre = h" "length pre < length (pre @ h # hs)" by simp_all
    then have "\<exists>i < length (pre @ h # hs). (pre @ h # hs) ! i = h \<and> st + of_nat (length pre) = st + (of_nat i :: u64)" by blast
    with Cons.prems show ?thesis by (auto simp: recorded_def)
  qed
  from Cons.IH [OF this] show ?case by (simp add: algebra_simps)
qed simp

lemma claims_insert: "ascending ts \<Longrightarrow> claims ts \<subseteq> claims (span_insert s ts)"
  by (auto simp: claims_def set_span_insert)

lemma claims_erase:
  "ascending ts \<Longrightarrow> j \<in> set ts \<Longrightarrow>
   claims ts = insert (start_block_height j, span_hashes j) (claims (filter (\<lambda>s. start_block_height s \<noteq> start_block_height j) ts))"
  using ascending_inj [of ts] by (fastforce simp: claims_def)

lemma spans_erase [simp]: "spans (erase_block j q) = filter (\<lambda>s. start_block_height s \<noteq> start_block_height j) (spans q)"
  by (simp add: erase_block_def)

lemma queue_inv_erase: "queue_inv q \<Longrightarrow> j \<in> set (spans q) \<Longrightarrow> queue_inv (erase_block j q)"
  using recorded_erase [of "start_block_height j" j _ q] claims_erase [of "spans q" j]
  by (simp add: queue_inv_def sorted_wrt_filter)

lemma queue_inv_insert: "queue_inv q \<Longrightarrow> queue_inv (q\<lparr>spans := span_insert s (spans q)\<rparr>)"
  using recorded_mono [OF _ claims_insert] by (auto simp: queue_inv_def ascending_insert)

lemma find_in: "find P xs = Some x \<Longrightarrow> x \<in> set xs \<and> P x"
  by (auto simp: find_Some_iff)

text \<open>Giving a span its hashes may keep up a record that counts on them already.\<close>

lemma set_span_hashes_inv:
  assumes "ascending (spans q)" "find (\<lambda>s. start_block_height s = height \<and> connection_id s = conn) (spans q) = Some j"
    and "recorded (insert (height, hs) (claims (spans q))) q"
  shows "queue_inv (set_span_hashes height conn hs q)"
proof -
  let ?r = "filter (\<lambda>s. start_block_height s \<noteq> height) (spans q)" and ?s = "j\<lparr>span_hashes := hs\<rparr>"
  have j: "j \<in> set (spans q)" "start_block_height j = height" using find_in [OF assms(2)] by simp_all
  note c = claims_erase [OF assms(1) j(1), unfolded j(2)]
  have r: "ascending ?r" using assms(1) by (rule sorted_wrt_filter)
  have "height \<notin> start_block_height ` set ?r" by auto
  then have ins: "claims (span_insert ?s ?r) = insert (height, hs) (claims ?r)"
    using r j(2) by (simp add: claims_def set_span_insert)
  have "recorded (insert (height, span_hashes j) (insert (height, hs) (claims ?r))) q"
    using assms(3) c by (simp add: insert_commute)
  then have "recorded (insert (height, hs) (claims ?r)) (erase_block j q)" by (rule recorded_erase)
  then have "recorded (insert (height, hs) (claims ?r)) (erase_block j q\<lparr>requested_hashes := requested_hashes (erase_block j q) \<union> set hs\<rparr>)"
    by (auto simp: recorded_def)
  with r ins show ?thesis
    using assms(2) j(2) by (simp add: set_span_hashes_def Let_def queue_inv_def ascending_insert)
qed

lemma queue_inv_set_hashes: "queue_inv q \<Longrightarrow> queue_inv (set_span_hashes height conn hs q)"
proof (cases "find (\<lambda>s. start_block_height s = height \<and> connection_id s = conn) (spans q)")
  case (Some j)
  assume "queue_inv q"
  then show ?thesis
    using set_span_hashes_inv [OF _ Some, of hs] recorded_mono [of "claims (spans q)" q] by (auto simp: queue_inv_def)
qed (simp add: set_span_hashes_def)

lemma find_exists: "x \<in> set xs \<Longrightarrow> P x \<Longrightarrow> \<exists>y. find P xs = Some y"
  by (cases "find P xs") (auto simp: find_None_iff)

lemma remove_span_inv: "queue_inv q \<Longrightarrow> queue_inv (snd (remove_span height q))"
  using queue_inv_erase find_in by (fastforce simp: remove_span_def split: option.splits)

lemma remove_span_frees: "height \<notin> start_block_height ` set (spans (snd (remove_span height q)))"
  by (auto simp: remove_span_def find_None_iff split: option.splits dest!: find_in)

lemma queue_inv_add_filled:
  assumes "queue_inv q"
  shows "queue_inv (add_filled height bcel conn addr rate sz q)"
proof -
  obtain hashes q1 where r: "remove_span height q = (hashes, q1)" by fastforce
  have i: "queue_inv q1" and free: "height \<notin> start_block_height ` set (spans q1)"
    using remove_span_inv [OF assms, of height] remove_span_frees [of height q] r by simp_all
  let ?s = "filled_span height bcel conn addr rate sz"
  define q2 where "q2 = q1\<lparr>spans := span_insert ?s (spans q1)\<rparr>"
  have q2: "queue_inv q2" unfolding q2_def by (rule queue_inv_insert [OF i])
  show ?thesis
  proof (cases hashes)
    case None
    with q2 show ?thesis by (simp add: add_filled_def r q2_def)
  next
    case (Some hs)
    have "?s \<in> set (spans q2)" using i free by (simp add: q2_def queue_inv_def set_span_insert filled_span_def)
    then obtain j where "find (\<lambda>s. start_block_height s = height \<and> connection_id s = conn) (spans q2) = Some j"
      using find_exists [of ?s] by (force simp: filled_span_def)
    moreover have "recorded (insert (height, hs) (claims (spans q2))) (note_hashes height hs q2)"
      using recorded_note [of height "[]" hs "claims (spans q2)" q2] recorded_mono [of "claims (spans q2)" q2] q2
      by (auto simp: queue_inv_def)
    ultimately have "queue_inv (set_span_hashes height conn hs (note_hashes height hs q2))"
      using q2 by (intro set_span_hashes_inv) (simp_all add: queue_inv_def)
    then show ?thesis by (simp add: add_filled_def r q2_def Some)
  qed
qed

text \<open>Erasing every span with a property leaves the others, in order.\<close>

lemma erase_each:
  assumes "queue_inv q" "set js \<subseteq> set (spans q)" "ascending js"
  shows "queue_inv (foldl (\<lambda>q j. if P j then erase_block j q else q) q js)
     \<and> spans (foldl (\<lambda>q j. if P j then erase_block j q else q) q js) = filter (\<lambda>s. \<not> (s \<in> set js \<and> P s)) (spans q)"
  using assms
proof (induction js arbitrary: q)
  case (Cons j js)
  let ?q = "if P j then erase_block j q else q"
  have asc: "ascending (spans q)" using Cons.prems(1) by (simp add: queue_inv_def)
  have j: "j \<in> set (spans q)" using Cons.prems(2) by simp
  have i: "queue_inv ?q" using Cons.prems(1) j by (simp add: queue_inv_erase)
  have eq: "start_block_height s \<noteq> start_block_height j \<longleftrightarrow> s \<noteq> j" if "s \<in> set (spans q)" for s
    using ascending_inj [OF asc that j] by blast
  have sp: "spans ?q = filter (\<lambda>s. \<not> (s = j \<and> P j)) (spans q)"
    using eq by (auto intro: filter_cong)
  have "j \<notin> set js" using Cons.prems(3) by auto
  then have "set js \<subseteq> set (spans ?q)" using Cons.prems(2) sp by auto
  with Cons.IH [OF i] Cons.prems(3) have ih: "queue_inv (foldl (\<lambda>q j. if P j then erase_block j q else q) ?q js)"
    "spans (foldl (\<lambda>q j. if P j then erase_block j q else q) ?q js) = filter (\<lambda>s. \<not> (s \<in> set js \<and> P s)) (spans ?q)"
    by simp_all
  have "filter (\<lambda>s. \<not> (s \<in> set js \<and> P s)) (spans ?q) = filter (\<lambda>s. \<not> (s \<in> set (j # js) \<and> P s)) (spans q)"
    unfolding sp filter_filter by (rule filter_cong) auto
  with ih show ?case by simp
qed simp

lemma erase_all_spans: "queue_inv q \<Longrightarrow> spans (erase_all P q) = filter (\<lambda>s. \<not> P s) (spans q)"
  and queue_inv_erase_all: "queue_inv q \<Longrightarrow> queue_inv (erase_all P q)"
  using erase_each [of q "spans q" P] by (auto simp: erase_all_def queue_inv_def intro: filter_cong)

lemma queue_inv_time: "queue_inv q \<Longrightarrow> queue_inv (reset_next_span_time t q)"
  by (auto simp: queue_inv_def reset_next_span_time_def claims_def split: list.splits)

lemma queue_inv_scheduled: "queue_inv q \<Longrightarrow> add_scheduled height n conn addr time q = Inr q' \<Longrightarrow> queue_inv q'"
  by (auto simp: add_scheduled_def queue_inv_insert split: if_splits)

lemma reserve_from_cases:
  assumes "reserve_from start max_blocks conn addr sync_pruned local_seed seed blockchain_height is time q = Inr (r, q')"
  shows "q' = q \<or> (\<exists>start len hashes q1. add_scheduled start len conn addr time q = Inr q1 \<and> q' = set_span_hashes start conn hashes q1)"
  using assms unfolding reserve_from_def Let_def bindr_Inr_iff by (auto simp: bindr_Inr_iff split: if_splits)

lemma reserve_span_reaches:
  assumes "reserve_span first_height last_height max_blocks conn addr sync_pruned local_seed seed blockchain_height
     block_hashes time q = Inr (r, q')"
  shows "r = (0, 0) \<and> q' = q
     \<or> (\<exists>start is. reserve_from start max_blocks conn addr sync_pruned local_seed seed blockchain_height is time q = Inr (r, q'))"
  using assms unfolding reserve_span_def Let_def by (simp split: if_splits) blast

lemma reserve_span_cases:
  assumes "reserve_span first_height last_height max_blocks conn addr sync_pruned local_seed seed blockchain_height
     block_hashes time q = Inr (r, q')"
  shows "q' = q \<or> (\<exists>start len hashes q1. add_scheduled start len conn addr time q = Inr q1 \<and> q' = set_span_hashes start conn hashes q1)"
  using reserve_span_reaches [OF assms] by (elim disjE exE) (blast, rule reserve_from_cases)

lemma queue_inv_reserved:
  assumes "reserve_span first_height last_height max_blocks conn addr sync_pruned local_seed seed blockchain_height
     block_hashes time q = Inr (r, q')" "queue_inv q"
  shows "queue_inv q'"
  using reserve_span_cases [OF assms(1)]
proof (elim disjE exE conjE)
  fix start len hashes q1
  assume "add_scheduled start len conn addr time q = Inr q1" and q': "q' = set_span_hashes start conn hashes q1"
  then have "queue_inv q1" by (intro queue_inv_scheduled [OF assms(2)])
  then show "queue_inv q'" unfolding q' by (rule queue_inv_set_hashes)
qed (simp add: assms(2))

lemma queue_life_inv:
  assumes "queue_life q"
  shows "queue_inv q"
  using assms
proof induction
  case born
  show ?case by (simp add: empty_queue_def queue_inv_def recorded_def)
next
  case (lives q q')
  from lives.hyps(2) lives.IH show ?case
  proof cases
    case reserved
    from this lives.IH show ?thesis by (rule queue_inv_reserved)
  qed (simp_all add: queue_inv_add_filled queue_inv_scheduled flush_spans_def flush_stale_spans_def
      remove_spans_def queue_inv_erase_all remove_span_inv queue_inv_set_hashes queue_inv_time)
qed

text \<open>C14: The books of the download queue are in order: whatever is done to a queue from its creation on, it holds
  at most one span per first height, in ascending order; every hash it regards as requested belongs to
  one of its spans; every hash it has a block for is regarded as requested, and the height it gives for
  it is the hash's place in such a span.\<close>

theorem download_books_in_order:
  assumes "queue_life q"
  shows "sorted_wrt (\<lambda>s t. start_block_height s < start_block_height t) (spans q)
     \<and> (requested h q \<longrightarrow> (\<exists>s \<in> set (spans q). h \<in> set (span_hashes s)))
     \<and> (have_hash h q \<longrightarrow> requested h q \<and> (\<exists>s \<in> set (spans q). \<exists>i < length (span_hashes s).
          span_hashes s ! i = h \<and> have_height h q = start_block_height s + of_nat i))"
proof -
  have "queue_inv q" by (rule queue_life_inv [OF assms])
  then show ?thesis
    by (auto simp: queue_inv_def recorded_def claims_def requested_def have_hash_def have_height_def)
qed

text \<open>A span scheduled for three hashes, and its blocks arriving.\<close>

definition demo_scheduled :: "(nat, nat) block_queue" where
  "demo_scheduled = set_span_hashes 100 [1] [[7], [8], [6]]
     (empty_queue\<lparr>spans := span_insert (scheduled_span 100 3 [1] 0 5) (spans empty_queue)\<rparr>)"

definition demo_filled :: "(nat, nat) block_queue" where
  "demo_filled = add_filled 100 [70, 80, 90] [1] 0 1 300 demo_scheduled"

lemma demo_life: "queue_life demo_filled"
proof -
  have "queue_step empty_queue (empty_queue\<lparr>spans := span_insert (scheduled_span 100 3 [1] 0 5) (spans empty_queue)\<rparr>)"
    by (rule queue_step.scheduled [of 100 3 "[1]" 0 5]) (simp add: add_scheduled_def)
  from queue_life.lives [OF queue_life.lives [OF queue_life.lives [OF queue_life.born this] queue_step.hashes_set] queue_step.filled]
  show ?thesis unfolding demo_filled_def demo_scheduled_def .
qed

theorem download_books_in_order_witness:
  "have_hash [8] demo_filled \<and> requested [8] demo_filled \<and> have_height [8] demo_filled = 101
   \<and> (\<exists>s \<in> set (spans demo_filled). [8] \<in> set (span_hashes s))"
proof -
  have "have_hash [8] demo_filled" "have_height [8] demo_filled = 101" by code_simp+
  with download_books_in_order [OF demo_life, of "[8]"] show ?thesis by blast
qed

section \<open>The next height to ask for\<close>

definition covers :: "('b, 'a) span \<Rightarrow> nat \<Rightarrow> bool" where
  "covers s m \<longleftrightarrow> unat (start_block_height s) \<le> m \<and> m < unat (start_block_height s) + unat (nblocks s)"

text \<open>No span goes past the largest height.\<close>

definition spans_fit :: "('b, 'a) span list \<Rightarrow> bool" where
  "spans_fit ss \<longleftrightarrow> (\<forall>s \<in> set ss. unat (start_block_height s) + unat (nblocks s) < 2 ^ 64)"

lemma span_end:
  assumes "unat (start_block_height s) + unat (nblocks s) < 2 ^ 64"
  shows "unat (start_block_height s + nblocks s) = unat (start_block_height s) + unat (nblocks s)"
    and "start_block_height s + nblocks s - 1 < b \<Longrightarrow> unat (start_block_height s) + unat (nblocks s) \<le> unat b"
proof -
  show e: "unat (start_block_height s + nblocks s) = unat (start_block_height s) + unat (nblocks s)"
    using assms by (intro unat_add_no_wrap) simp
  assume l: "start_block_height s + nblocks s - 1 < b"
  show "unat (start_block_height s) + unat (nblocks s) \<le> unat b"
  proof (cases "start_block_height s + nblocks s = 0")
    case False
    then have "unat (start_block_height s + nblocks s - 1) = unat (start_block_height s) + unat (nblocks s) - 1"
      using e by (subst unat_sub_le) (auto simp: word_le_nat_alt unat_gt_0 Suc_le_eq)
    then show ?thesis using l by (simp add: word_less_nat_alt)
  qed (use e in simp)
qed

lemma needed_loop_spec:
  assumes "ascending ss" "spans_fit ss" "b \<le> c"
  shows "c \<le> needed_loop b c ss \<and> (\<forall>m. unat c \<le> m \<and> m < unat (needed_loop b c ss) \<longrightarrow> (\<exists>s \<in> set ss. covers s m))
     \<and> \<not> (\<exists>s \<in> set ss. covers s (unat (needed_loop b c ss)))"
  using assms
proof (induction ss arbitrary: c)
  case (Cons s ss)
  have fit: "unat (start_block_height s) + unat (nblocks s) < 2 ^ 64" "spans_fit ss" using Cons.prems(2) by (simp_all add: spans_fit_def)
  have asc: "ascending ss" "\<forall>t \<in> set ss. start_block_height s < start_block_height t" using Cons.prems(1) by simp_all
  note e = span_end [OF fit(1)]
  consider "start_block_height s + nblocks s - 1 < b"
    | "\<not> start_block_height s + nblocks s - 1 < b" "start_block_height s > c"
    | "\<not> start_block_height s + nblocks s - 1 < b" "\<not> start_block_height s > c" by blast
  then show ?case
  proof cases
    case 1
    have below: "\<not> covers s m" if "unat c \<le> m" for m
      using e(2) [OF 1] that Cons.prems(3) by (simp add: covers_def word_le_nat_alt)
    from Cons.IH [OF asc(1) fit(2) Cons.prems(3)] show ?thesis
      using 1 below by (auto simp: word_le_nat_alt)
  next
    case 2
    have "\<not> covers t (unat c)" if "t \<in> set (s # ss)" for t
      using asc(2) 2(2) that by (auto simp: covers_def word_less_nat_alt)
    then show ?thesis using 2 by auto
  next
    case 3
    let ?c = "max c (start_block_height s + nblocks s)"
    have c: "unat ?c = max (unat c) (unat (start_block_height s) + unat (nblocks s))"
      using e(1) by (simp add: max_def word_le_nat_alt)
    have b: "b \<le> ?c" "c \<le> ?c" using Cons.prems(3) by (auto simp: le_max_iff_disj)
    note ih = Cons.IH [OF asc(1) fit(2) b(1)]
    have "\<not> covers s (unat (needed_loop b ?c ss))"
      using ih c by (simp add: covers_def word_le_nat_alt)
    moreover have "covers s m" if "unat c \<le> m" "m < unat ?c" for m
      using that c 3(2) by (auto simp: covers_def not_less word_le_nat_alt)
    ultimately show ?thesis using 3 ih b(2) by (auto simp: not_less) (meson linorder_not_le)
  qed
qed simp

text \<open>C15: The next needed height is exact: for any queue there can be, whose spans do not pass the largest height,
  get_next_needed_height returns the least height from the chain's on that no span of the queue
  covers.\<close>

theorem next_needed_is_first_gap:
  fixes b :: u64
  assumes "queue_life q" "spans_fit (spans q)"
  defines "n \<equiv> get_next_needed_height b q"
  shows "b \<le> n \<and> \<not> (\<exists>s \<in> set (spans q). covers s (unat n))
     \<and> (\<forall>m. unat b \<le> m \<and> m < unat n \<longrightarrow> (\<exists>s \<in> set (spans q). covers s m))"
proof -
  have "ascending (spans q)" using queue_life_inv [OF assms(1)] by (simp add: queue_inv_def)
  from needed_loop_spec [OF this assms(2), of b b] show ?thesis
    by (auto simp: n_def get_next_needed_height_def)
qed

theorem next_needed_is_first_gap_witness:
  "(\<exists>s \<in> set (spans demo_filled). covers s 102) \<and> \<not> (\<exists>s \<in> set (spans demo_filled). covers s 103)
   \<and> get_next_needed_height 100 demo_filled = 103"
proof -
  have sp: "spans demo_filled = [filled_span 100 [70, 80, 90] [1] 0 1 300\<lparr>span_hashes := [[7], [8], [6]]\<rparr>]"
    by (simp add: demo_filled_def demo_scheduled_def add_filled_def remove_span_def set_span_hashes_def erase_block_def
      scheduled_span_def filled_span_def empty_queue_def Let_def)
  have n: "get_next_needed_height 100 demo_filled = 103"
    by (simp add: get_next_needed_height_def sp filled_span_def max_def)
  have "spans_fit (spans demo_filled)" by (simp add: sp spans_fit_def filled_span_def)
  from next_needed_is_first_gap [OF demo_life this, of 100] show ?thesis unfolding n by simp
qed

section \<open>Reserving\<close>

text \<open>The loop takes the first hashes of what it is offered, no more than asked for; without pruned blocks, only
  while the peer has them, and it stops early only at one the peer does not have.\<close>

lemma collect_loop_takes:
  assumes "collect_loop max_blocks False False local_seed seed B start is len hs = Inr (len', hs')" "len \<le> max_blocks"
  shows "\<exists>n \<le> length is. hs' = hs @ map fst (take n is) \<and> unat len' = unat len + n \<and> len' \<le> max_blocks
     \<and> (\<forall>k < n. has_unpruned_block (start + len + of_nat k) B seed = Inr True)
     \<and> (n = length is \<or> len' = max_blocks \<or> has_unpruned_block (start + len') B seed = Inr False)"
  using assms
proof (induction "is" arbitrary: len hs)
  case (Cons i "is")
  show ?case
  proof (cases "len < max_blocks \<and> has_unpruned_block (start + len) B seed = Inr True")
    case False
    then have "len' = len" "hs' = hs" "len = max_blocks \<or> has_unpruned_block (start + len) B seed = Inr False"
      using Cons.prems by (auto simp: bindr_Inr_iff split: if_splits)
    then show ?thesis using Cons.prems(2) by (intro exI [of _ 0]) auto
  next
    case True
    then have "unat len < unat max_blocks" by (simp add: word_less_nat_alt)
    then have l: "unat (len + 1) = unat len + 1" "len + 1 \<le> max_blocks"
      using unat_less_two_power [of max_blocks] by (auto simp: word_le_nat_alt unat_add_no_wrap)
    have "collect_loop max_blocks False False local_seed seed B start is (len + 1) (hs @ [fst i]) = Inr (len', hs')"
      using Cons.prems(1) True by simp
    from Cons.IH [OF this l(2)] obtain n where n: "n \<le> length is" "hs' = (hs @ [fst i]) @ map fst (take n is)"
      "unat len' = unat (len + 1) + n" "len' \<le> max_blocks"
      "\<forall>k < n. has_unpruned_block (start + (len + 1) + of_nat k) B seed = Inr True"
      "n = length is \<or> len' = max_blocks \<or> has_unpruned_block (start + len') B seed = Inr False" by blast
    have "has_unpruned_block (start + len + of_nat k) B seed = Inr True" if "k < Suc n" for k
      using n(5) True that by (cases k) (simp_all add: algebra_simps)
    then show ?thesis using n l(1) by (intro exI [of _ "Suc n"]) auto
  qed
qed auto

lemma seed_stripe_bits: "get_pruning_log_stripes seed \<le> 7"
  using unat_low_mask [of "drop_bit 7 seed" 3]
  by (simp add: get_pruning_log_stripes_def pruning_consts word_le_nat_alt push_bit_of_1 less_Suc_eq_le [symmetric])

lemma has_unpruned_total: "\<exists>b. has_unpruned_block h B seed = Inr b"
  using seed_stripe_bits [of seed] by (auto simp: has_unpruned_block_def block_stripe_def Let_def word_le_nat_alt)

lemma collect_loop_total:
  "\<exists>len' hs'. collect_loop max_blocks sync_pruned fp local_seed seed B start is len hs = Inr (len', hs')"
proof (induction "is" arbitrary: len hs)
  case (Cons i "is")
  obtain b c where "has_unpruned_block (start + len) B seed = Inr b" "has_unpruned_block (start + len) B local_seed = Inr c"
    using has_unpruned_total by metis
  then show ?case using Cons.IH [of "len + 1" "hs @ [fst i]"]
    by (cases sync_pruned; cases fp; cases b; cases c; simp)
qed simp

text \<open>Nothing that \<open>reserve_span\<close> calls throws: it always returns.\<close>

lemma reserve_span_total:
  "\<exists>r q'. reserve_span first_height last_height max_blocks conn addr sync_pruned local_seed seed B bh time q = Inr (r, q')"
proof -
  have "\<exists>r q'. reserve_from start max_blocks conn addr sync_pruned local_seed seed B is time q = Inr (r, q')" for start "is"
  proof -
    let ?st = "start + of_nat (requested_prefix is q)" and ?is = "drop (requested_prefix is q) is"
    obtain b where "has_unpruned_block ?st B local_seed = Inr b" using has_unpruned_total by blast
    then obtain full where f: "(if sync_pruned then has_unpruned_block ?st B local_seed else Inr True) = Inr full"
      by (cases sync_pruned) auto
    obtain len hs where "collect_loop max_blocks sync_pruned (sync_pruned \<and> \<not> full) local_seed seed B ?st ?is 0 [] = Inr (len, hs)"
      using collect_loop_total by blast
    with f show ?thesis by (simp add: reserve_from_def Let_def add_scheduled_def)
  qed
  then show ?thesis by (simp add: reserve_span_def Let_def)
qed

text \<open>A reservation, from the height it starts at: what it returns and what it notes.\<close>

lemma reserve_from_spec:
  assumes "reserve_from start max_blocks conn addr False local_seed seed B is time q = Inr ((start', len), q')"
    and "len \<noteq> 0"
  defines "k \<equiv> requested_prefix is q"
  shows "start' = start + of_nat k \<and> len \<le> max_blocks \<and> k + unat len \<le> length is
     \<and> (\<forall>j < unat len. has_unpruned_block (start' + of_nat j) B seed = Inr True)
     \<and> (k + unat len = length is \<or> len = max_blocks \<or> has_unpruned_block (start' + len) B seed = Inr False)
     \<and> q' = set_span_hashes start' conn (map fst (take (unat len) (drop k is)))
         (q\<lparr>spans := span_insert (scheduled_span start' len conn addr time) (spans q)\<rparr>)"
proof -
  obtain len0 hs where c: "collect_loop max_blocks False False local_seed seed B (start + of_nat k) (drop k is) 0 [] = Inr (len0, hs)"
    using collect_loop_total by blast
  with assms(1,2) have r: "len0 = len" "start' = start + of_nat k"
    "q' = set_span_hashes start' conn hs (q\<lparr>spans := span_insert (scheduled_span start' len conn addr time) (spans q)\<rparr>)"
    by (auto simp: reserve_from_def Let_def k_def [symmetric] add_scheduled_def split: if_splits)
  have "k \<le> length is" by (simp add: k_def requested_prefix_def length_takeWhile_le)
  moreover obtain n where "n \<le> length (drop k is)" "hs = map fst (take n (drop k is))" "unat len = n" "len \<le> max_blocks"
    "\<forall>j < n. has_unpruned_block (start + of_nat k + of_nat j) B seed = Inr True"
    "n = length (drop k is) \<or> len = max_blocks \<or> has_unpruned_block (start + of_nat k + len) B seed = Inr False"
    using collect_loop_takes [OF c] r(1) by auto
  ultimately show ?thesis using r by auto
qed

lemma reserve_from_none:
  assumes "reserve_from start max_blocks conn addr sync_pruned local_seed seed B is time q = Inr ((start', len), q')" "len = 0"
  shows "start' = 0 \<and> q' = q"
  using assms by (auto simp: reserve_from_def Let_def bindr_Inr_iff add_scheduled_def split: if_splits)

text \<open>A peer is only asked for blocks it has: reserve_span always returns, and when pruned blocks are not wanted
  it either reserves nothing and leaves the queue alone, or it returns a span of at most max_blocks
  blocks, all of which has_unpruned_block says that a peer with that seed keeps in full. That holds
  for any queue, seed, heights and hashes offered.\<close>

theorem reserved_blocks_are_kept:
  "\<exists>start len q'. reserve_span first_height last_height max_blocks conn addr False local_seed seed B bh time q = Inr ((start, len), q')
     \<and> (if len = 0 then start = 0 \<and> q' = q
        else len \<le> max_blocks \<and> (\<forall>j < unat len. has_unpruned_block (start + of_nat j) B seed = Inr True))"
proof -
  obtain start len q' where r: "reserve_span first_height last_height max_blocks conn addr False local_seed seed B bh time q = Inr ((start, len), q')"
    using reserve_span_total by (metis surj_pair)
  show ?thesis using reserve_span_reaches [OF r]
  proof (elim disjE exE)
    fix st "is"
    assume f: "reserve_from st max_blocks conn addr False local_seed seed B is time q = Inr ((start, len), q')"
    show ?thesis using r reserve_from_none [OF f] reserve_from_spec [OF f] by (cases "len = 0") auto
  qed (use r in auto)
qed

section \<open>Sharing out a download\<close>

text \<open>Unpruned peers, each with its connection, address and time, that take turns at one list of hashes.\<close>

fun reserve_turns :: "u64 \<Rightarrow> u64 \<Rightarrow> u64 \<Rightarrow> u32 \<Rightarrow> u64 \<Rightarrow> (bytes \<times> u64) list \<Rightarrow> (bytes \<times> 'a \<times> int) list
    \<Rightarrow> ('b, 'a) block_queue \<Rightarrow> ((u64 \<times> u64) list \<times> ('b, 'a) block_queue) result" where
  "reserve_turns first_height last_height max_blocks local_seed B bh [] q = Inr ([], q)"
| "reserve_turns first_height last_height max_blocks local_seed B bh (p # ps) q =
     bindr (reserve_span first_height last_height max_blocks (fst p) (fst (snd p)) False local_seed 0 B bh (snd (snd p)) q)
       (\<lambda>(r, q). bindr (reserve_turns first_height last_height max_blocks local_seed B bh ps q) (\<lambda>(rs, q). Inr (r # rs, q)))"

text \<open>The first \<open>n\<close> of the hashes are requested, and no span begins where the others belong.\<close>

definition shared_up_to :: "u64 \<Rightarrow> (bytes \<times> u64) list \<Rightarrow> nat \<Rightarrow> ('b, 'a) block_queue \<Rightarrow> bool" where
  "shared_up_to first bh n q \<longleftrightarrow> queue_inv q \<and> n \<le> length bh
     \<and> (\<forall>i < length bh. requested (fst (bh ! i)) q \<longleftrightarrow> i < n)
     \<and> (\<forall>s \<in> set (spans q). \<not> (unat first + n \<le> unat (start_block_height s) \<and> unat (start_block_height s) < unat first + length bh))"

lemma requested_prefix_shared:
  assumes "shared_up_to first bh n q"
  shows "requested_prefix bh q = n" "n < length bh \<Longrightarrow> requested_prefix (drop n bh) q = 0"
proof -
  have n: "n \<le> length bh" "\<And>i. i < length bh \<Longrightarrow> requested (fst (bh ! i)) q \<longleftrightarrow> i < n"
    using assms by (simp_all add: shared_up_to_def)
  have "takeWhile (\<lambda>i. requested (fst i) q) bh = take n bh"
    using n by (intro takeWhile_eq_take_P_nth) auto
  then show "requested_prefix bh q = n" using n(1) by (simp add: requested_prefix_def)
  assume "n < length bh"
  then show "requested_prefix (drop n bh) q = 0"
    using n(2) [of n] by (simp add: requested_prefix_def Cons_nth_drop_Suc [symmetric])
qed

lemma has_unpruned_0 [simp]: "has_unpruned_block h B 0 = Inr True"
  by (simp add: has_unpruned_block_def seed_stripe_def)

lemma next_unpruned_0 [simp]: "get_next_unpruned_block_height h B 0 = h"
  by (simp add: get_next_unpruned_block_height_def seed_stripe_def)

lemma download_start_unpruned: "download_start first False 0 B bh q = first + of_nat (requested_prefix bh q)"
proof -
  have "\<not> ucast (ucast h :: u32) > h" for h :: u64
    using take_bit_nat_less_eq_self [of 32 "unat h"]
    by (simp add: word_less_nat_alt unat_ucast_up unsigned_ucast_eq unsigned_take_bit_eq not_less)
  then show ?thesis by (simp add: download_start_def Let_def)
qed

lemma set_hashes_of_new:
  fixes q :: "('b, 'a) block_queue" and addr :: 'a and conn :: bytes and hs :: "bytes list" and len :: u64 and time :: int
  assumes "ascending (spans q)" "start \<notin> start_block_height ` set (spans q)"
  defines "q' \<equiv> set_span_hashes start conn hs (q\<lparr>spans := span_insert (scheduled_span start len conn addr time) (spans q)\<rparr>)"
  shows "requested_hashes q' = requested_hashes q \<union> set hs"
    "start_block_height ` set (spans q') = insert start (start_block_height ` set (spans q))"
proof -
  let ?s = "scheduled_span start len conn addr time :: ('b, 'a) span" and ?ss = "span_insert (scheduled_span start len conn addr time) (spans q)"
  have s: "start_block_height ?s = start" "connection_id ?s = conn" "span_hashes ?s = []" by (simp_all add: scheduled_span_def)
  have ss: "set ?ss = insert ?s (set (spans q))" using assms(1,2) set_span_insert [of "spans q" ?s, unfolded s(1)] by simp
  obtain j where j: "find (\<lambda>t. start_block_height t = start \<and> connection_id t = conn) ?ss = Some j"
    using find_exists [of ?s ?ss "\<lambda>t. start_block_height t = start \<and> connection_id t = conn"] ss s(1,2) by auto
  have "j \<in> insert ?s (set (spans q))" "start_block_height j = start" using find_in [OF j] unfolding ss by simp_all
  then have "j = ?s" using assms(2) by blast
  note j = j [unfolded this]
  let ?r = "filter (\<lambda>t. start_block_height t \<noteq> start) ?ss"
  have r: "ascending ?r" using ascending_insert [OF assms(1)] by (intro sorted_wrt_filter)
  have q': "requested_hashes q' = requested_hashes q \<union> set hs" "spans q' = span_insert (?s\<lparr>span_hashes := hs\<rparr>) ?r"
    using j by (simp_all add: q'_def set_span_hashes_def Let_def erase_block_def s)
  show "requested_hashes q' = requested_hashes q \<union> set hs" by (rule q')
  have "set ?r = set (spans q)" using assms(2) s(1) ss by auto
  moreover have "start_block_height (?s\<lparr>span_hashes := hs\<rparr>) = start" using s(1) by simp
  ultimately show "start_block_height ` set (spans q') = insert start (start_block_height ` set (spans q))"
    unfolding q'(2) set_span_insert [OF r] using assms(2) by simp
qed

lemma reserve_from_unpruned:
  assumes "is \<noteq> []" "requested_prefix is q = 0" "0 < max_blocks" "length is < 2 ^ 64"
  shows "reserve_from start max_blocks conn addr False local_seed 0 B is time q =
     (let n = min (unat max_blocks) (length is) in Inr ((start, of_nat n), set_span_hashes start conn (map fst (take n is))
        (q\<lparr>spans := span_insert (scheduled_span start (of_nat n) conn addr time) (spans q)\<rparr>)))"
proof -
  obtain len hs where c: "collect_loop max_blocks False False local_seed 0 B start is 0 [] = Inr (len, hs)"
    using collect_loop_total by blast
  then obtain n where n: "n \<le> length is" "hs = map fst (take n is)" "unat len = n" "len \<le> max_blocks" "n = length is \<or> len = max_blocks"
    using collect_loop_takes [OF c] by auto
  then have m: "n = min (unat max_blocks) (length is)" by (auto simp: word_le_nat_alt)
  have "of_nat n = len" using n(3) by auto
  moreover have "len \<noteq> 0" using m n(3) assms(1,3) by (auto simp: word_less_nat_alt min_def split: if_splits)
  ultimately show ?thesis
    using c n(2) m assms(2) by (simp add: reserve_from_def Let_def add_scheduled_def)
qed

lemma in_slice:
  assumes "distinct xs" "i < length xs"
  shows "xs ! i \<in> set (take k (drop n xs)) \<longleftrightarrow> n \<le> i \<and> i < n + k"
proof
  assume "xs ! i \<in> set (take k (drop n xs))"
  then obtain j where "j < k" "n + j < length xs" "xs ! (n + j) = xs ! i" by (auto simp: in_set_conv_nth)
  then show "n \<le> i \<and> i < n + k" using assms by (auto simp: nth_eq_iff_index_eq)
next
  assume "n \<le> i \<and> i < n + k"
  then have "take k (drop n xs) ! (i - n) = xs ! i" "i - n < length (take k (drop n xs))" using assms(2) by auto
  then show "xs ! i \<in> set (take k (drop n xs))" by (metis nth_mem)
qed

lemma reserve_turn_code:
  fixes q :: "('b, 'a) block_queue" and bh :: "(bytes \<times> u64) list" and last_height :: u64
  defines "first \<equiv> last_height - of_nat (length bh) + 1"
  assumes "shared_up_to first bh n q" "first_height \<le> last_height" "0 < max_blocks" "length bh \<le> unat last_height"
    "last_height < - 1"
  shows "unat (first + of_nat n) = unat first + n" "length bh < 2 ^ 64"
    and "reserve_span first_height last_height max_blocks conn addr False local_seed 0 B bh time q =
      (if length bh \<le> n then Inr ((0, 0), q)
       else reserve_from (first + of_nat n) max_blocks conn addr False local_seed 0 B (drop n bh) time q)"
proof -
  let ?L = "length bh"
  have l: "unat last_height + 1 < 2 ^ 64"
    using assms(6) by (simp add: word_less_nat_alt unsigned_minus_1_eq_mask mask_eq_exp_minus_1)
  have L: "unat (of_nat ?L :: u64) = ?L" using assms(5) l by (intro unat_of_nat_small) simp
  then have u: "unat first = unat last_height - ?L + 1"
    unfolding first_def using assms(5) l by (subst unat_add_no_wrap) (simp_all add: unat_sub_le word_le_nat_alt)
  have n: "n \<le> ?L" using assms(2) by (simp add: shared_up_to_def)
  have un: "unat (of_nat n :: u64) = n" using n l assms(5) by (intro unat_of_nat_small) simp
  then show st: "unat (first + of_nat n) = unat first + n"
    using n u l assms(5) by (subst unat_add_no_wrap) simp_all
  show "?L < 2 ^ 64" using l assms(5) by linarith
  have e: "unat (of_nat ?L + first) = ?L + unat first"
    using u l L assms(5) by (subst unat_add_no_wrap) simp_all
  show "reserve_span first_height last_height max_blocks conn addr False local_seed 0 B bh time q =
      (if ?L \<le> n then Inr ((0, 0), q)
       else reserve_from (first + of_nat n) max_blocks conn addr False local_seed 0 B (drop n bh) time q)"
  proof -
    have "unat (first + of_nat n - first) = n" using un by simp
    moreover have "first + of_nat n \<ge> of_nat ?L + first \<longleftrightarrow> ?L \<le> n" unfolding word_le_nat_alt st e by simp
    moreover have "\<not> of_nat ?L > last_height" "\<not> last_height < first_height" "max_blocks \<noteq> 0"
      using assms(3-5) L by (auto simp: word_less_nat_alt word_le_nat_alt not_less)
    ultimately show ?thesis
      unfolding reserve_span_def Let_def first_def [symmetric] download_start_unpruned requested_prefix_shared(1) [OF assms(2)]
      by simp
  qed
qed

lemma reserve_turn:
  fixes q :: "('b, 'a) block_queue" and bh :: "(bytes \<times> u64) list" and last_height :: u64
  defines "first \<equiv> last_height - of_nat (length bh) + 1"
  assumes "shared_up_to first bh n q" "first_height \<le> last_height" "0 < max_blocks" "length bh \<le> unat last_height"
    "last_height < - 1" "distinct (map fst bh)"
  defines "k \<equiv> min (unat max_blocks) (length bh - n)"
  shows "\<exists>q'. reserve_span first_height last_height max_blocks conn addr False local_seed 0 B bh time q =
       Inr (if n < length bh then (first + of_nat n, of_nat k) else (0, 0), q') \<and> shared_up_to first bh (n + k) q'"
proof -
  let ?L = "length bh"
  note code = reserve_turn_code(3) [OF assms(2-6) [unfolded first_def], folded first_def]
    and st = reserve_turn_code(1) [OF assms(2-6) [unfolded first_def], folded first_def]
    and l = reserve_turn_code(2) [OF assms(2-6) [unfolded first_def]]
  have n: "n \<le> ?L" using assms(2) by (simp add: shared_up_to_def)
  show ?thesis
  proof (cases "n < ?L")
    case False
    then show ?thesis using n assms(2) by (simp add: code k_def)
  next
    case True
    let ?hs = "map fst (take k (drop n bh))"
    define q' where "q' = set_span_hashes (first + of_nat n) conn ?hs
        (q\<lparr>spans := span_insert (scheduled_span (first + of_nat n) (of_nat k) conn addr time) (spans q)\<rparr>)"
    have r: "reserve_span first_height last_height max_blocks conn addr False local_seed 0 B bh time q = Inr ((first + of_nat n, of_nat k), q')"
      unfolding code using True assms(4,5) l requested_prefix_shared(2) [OF assms(2)]
      by (subst reserve_from_unpruned) (simp_all add: k_def q'_def Let_def)
    have qi: "queue_inv q" and free: "first + of_nat n \<notin> start_block_height ` set (spans q)"
      using assms(2) st True by (auto simp: shared_up_to_def)
    then have asc: "ascending (spans q)" by (simp add: queue_inv_def)
    note new = set_hashes_of_new [OF asc free, of conn ?hs "of_nat k" addr time, folded q'_def]
    have "queue_inv q'" unfolding q'_def by (rule queue_inv_set_hashes [OF queue_inv_insert [OF qi]])
    moreover have "requested (fst (bh ! i)) q' \<longleftrightarrow> i < n + k" if "i < length bh" for i
      using assms(2) that in_slice [OF assms(7), of i k n]
      by (auto simp: requested_def new(1) shared_up_to_def take_map drop_map)
    moreover have "0 < k" using True assms(4) by (simp add: k_def word_less_nat_alt)
    then have "\<not> (unat first + (n + k) \<le> unat m \<and> unat m < unat first + length bh)" if "m \<in> start_block_height ` set (spans q')" for m
      using assms(2) that st unfolding new(2) by (auto simp: shared_up_to_def)
    ultimately have "shared_up_to first bh (n + k) q'" using True by (auto simp: shared_up_to_def k_def)
    with r True show ?thesis by auto
  qed
qed

lemma reserve_turns_shared:
  fixes q :: "('b, 'a) block_queue" and bh :: "(bytes \<times> u64) list" and last_height :: u64
  defines "first \<equiv> last_height - of_nat (length bh) + 1"
  assumes "shared_up_to first bh n q" "first_height \<le> last_height" "0 < max_blocks" "length bh \<le> unat last_height"
    "last_height < - 1" "distinct (map fst bh)"
  shows "\<exists>q'. reserve_turns first_height last_height max_blocks local_seed B bh ps q = Inr (map (\<lambda>i.
        let j = n + i * unat max_blocks in
        if j < length bh then (first + of_nat j, of_nat (min (unat max_blocks) (length bh - j))) else (0, 0)) [0..<length ps], q')
     \<and> shared_up_to first bh (min (length bh) (n + length ps * unat max_blocks)) q'"
  using assms(2)
proof (induction ps arbitrary: n q)
  case Nil
  then show ?case by (simp add: shared_up_to_def min_def)
next
  case (Cons p ps)
  let ?m = "unat max_blocks" and ?L = "length bh"
  define k where "k = min ?m (?L - n)"
  have n: "n \<le> ?L" using Cons.prems by (simp add: shared_up_to_def)
  obtain q1 where q1: "reserve_span first_height last_height max_blocks (fst p) (fst (snd p)) False local_seed 0 B bh (snd (snd p)) q =
       Inr (if n < ?L then (first + of_nat n, of_nat k) else (0, 0), q1)" "shared_up_to first bh (n + k) q1"
    using reserve_turn [OF Cons.prems [unfolded first_def] assms(3-7)] unfolding first_def k_def by blast
  have same: "(let j = n + k + i * ?m in if j < ?L then (first + of_nat j, of_nat (min ?m (?L - j))) else (0, 0)) =
      (let j = n + Suc i * ?m in if j < ?L then (first + of_nat j, of_nat (min ?m (?L - j))) else (0 :: u64, 0 :: u64))" for i
    using n by (cases "?m \<le> ?L - n") (auto simp: k_def Let_def min_def algebra_simps)
  have up: "min ?L (n + k + length ps * ?m) = min ?L (n + length (p # ps) * ?m)"
  proof (cases "?m \<le> ?L - n")
    case False
    then have "?L \<le> n + ?m" by linarith
    then show ?thesis using False n by (simp add: k_def)
  qed (simp add: k_def)
  from Cons.IH [OF q1(2)] show ?case
    unfolding same up using q1(1) by (auto simp: upt_conv_Cons map_Suc_upt [symmetric] k_def Let_def comp_def simp del: upt_Suc)
qed

text \<open>C13: A download is shared out: when unpruned peers take turns at one list of distinct hashes, none of them
  requested yet and no span of the queue beginning where they belong, every turn returns, the spans
  handed out are the consecutive pieces of max_blocks of the list, each hash in one of them, and once
  the turns suffice nothing is left: every hash is requested and further turns get nothing.\<close>

theorem download_is_shared_out:
  fixes q :: "('b, 'a) block_queue" and bh :: "(bytes \<times> u64) list"
  assumes "queue_life q" "distinct (map fst bh)" "\<forall>h \<in> set (map fst bh). \<not> requested h q"
    and "\<forall>s \<in> set (spans q). unat (start_block_height s) + length bh \<le> unat last_height \<or> last_height < start_block_height s"
    and "first_height \<le> last_height" "0 < max_blocks" "length bh \<le> unat last_height" "last_height < - 1"
  shows "\<exists>q'. reserve_turns first_height last_height max_blocks local_seed B bh ps q = Inr (map (\<lambda>i.
        let j = i * unat max_blocks in
        if j < length bh then (last_height - of_nat (length bh) + 1 + of_nat j, of_nat (min (unat max_blocks) (length bh - j)))
        else (0, 0)) [0..<length ps], q')
     \<and> (\<forall>i < length bh. requested (fst (bh ! i)) q' \<longleftrightarrow> i < length ps * unat max_blocks)"
proof -
  have l: "unat last_height + 1 < 2 ^ 64"
    using assms(8) by (simp add: word_less_nat_alt unsigned_minus_1_eq_mask mask_eq_exp_minus_1)
  have "unat (of_nat (length bh) :: u64) = length bh" using assms(7) l by (intro unat_of_nat_small) simp
  then have "unat (last_height - of_nat (length bh) + 1) = unat last_height - length bh + 1"
    using assms(7) l by (subst unat_add_no_wrap) (simp_all add: unat_sub_le word_le_nat_alt)
  then have "shared_up_to (last_height - of_nat (length bh) + 1) bh 0 q"
    using assms(3,4,7) queue_life_inv [OF assms(1)] by (fastforce simp: shared_up_to_def word_less_nat_alt)
  from reserve_turns_shared [OF this assms(5-8,2), where local_seed = local_seed and B = B and ps = ps] show ?thesis
    unfolding shared_up_to_def add_0 by (elim exE conjE) (intro exI conjI, assumption, simp)
qed

theorem download_is_shared_out_witness:
  "\<exists>q'. reserve_turns 100 102 2 0 0 [([1], 0), ([2], 0), ([3], 0)] [([11], 0, 0), ([12], 0, 0), ([11], 0, 5)]
       (empty_queue :: (nat, nat) block_queue) = Inr ([(100, 2), (102, 1), (0, 0)], q') \<and> requested [3] q'"
proof -
  have "[0..<3] = [0, 1, 2 :: nat]" by (simp add: upt_rec)
  with download_is_shared_out [OF queue_life.born, of "[([1], 0), ([2], 0), ([3], 0)]" 102 100 2 0 0
      "[([11], 0, 0), ([12], 0, 0), ([11], 0, 5)]"]
  show ?thesis by (fastforce simp: empty_queue_def requested_def dest: spec [of _ 2])
qed

text \<open>
  A reservation can be lost: where a span of another peer begins at the same height with other hashes, as on
  a competing chain, the insertion does nothing and no span is found for the connection, but the
  caller is told that the blocks are reserved.
\<close>

lemma lost_reservation:
  "reserve_span 100 100 5 [2] 0 False 0 0 0 [([9], 0)] 5 demo_scheduled = Inr ((100, 1), demo_scheduled)"
  "\<not> requested [9] demo_scheduled"
proof -
  have sp: "spans demo_scheduled = [scheduled_span 100 3 [1] 0 5\<lparr>span_hashes := [[7], [8], [6]]\<rparr>]"
    by (simp add: demo_scheduled_def set_span_hashes_def erase_block_def scheduled_span_def empty_queue_def Let_def)
  show n: "\<not> requested [9] demo_scheduled" by code_simp
  have p: "requested_prefix [([9], 0)] demo_scheduled = 0" using n by (simp add: requested_prefix_def)
  have "span_insert (scheduled_span 100 1 [2] 0 5) (spans demo_scheduled) = spans demo_scheduled"
    by (simp add: sp scheduled_span_def)
  moreover have "set_span_hashes 100 [2] [[9]] demo_scheduled = demo_scheduled"
    by (simp add: set_span_hashes_def sp scheduled_span_def)
  ultimately show "reserve_span 100 100 5 [2] 0 False 0 0 0 [([9], 0)] 5 demo_scheduled = Inr ((100, 1), demo_scheduled)"
    by (simp add: reserve_span_def Let_def download_start_unpruned p reserve_from_unpruned)
qed

end
