(* ===== verification/Basic.thy ===== *)
theory Basic
  imports Config Bytes
begin

text \<open>
  The data of src/cryptonote_core/cryptonote_basic.h: one record per struct, one field per member,
  in the source's order. Hashes and keys are byte lists of length 32 (\<open>arr32\<close>).
\<close>

record txin_to_key =
  in_amount :: u64
  key_offsets :: "u64 list"
  k_image :: bytes

record txout_to_key =
  out_key :: bytes

record tx_out =
  out_amount :: u64
  out_target :: txout_to_key

record rct_signatures =
  rct_type :: u8
  txnFee :: u64
  pseudoOuts :: "bytes list"
  bulletproof_plus_bytes :: bytes
  clsag_signatures :: bytes

record transaction =
  tx_version :: u8
  unlock_time :: u64
  vin :: "txin_to_key list"
  vout :: "tx_out list"
  extra :: bytes
  rct :: rct_signatures
  tx_hash :: bytes

record block_header =
  major_version :: u8
  minor_version :: u8
  timestamp :: u64
  prev_id :: bytes
  nonce :: u32

record block = block_header +
  miner_tx :: transaction
  tx_hashes :: "bytes list"
  block_hash :: bytes

text \<open>Value initialisation: \<open>txin_to_key{}\<close>, \<open>tx_out{}\<close>, \<open>block{}\<close>.\<close>

definition blank_txin :: txin_to_key where
  "blank_txin = \<lparr>in_amount = 0, key_offsets = [], k_image = zeros32\<rparr>"

definition blank_tx_out :: tx_out where
  "blank_tx_out = \<lparr>out_amount = 0, out_target = \<lparr>out_key = zeros32\<rparr>\<rparr>"

definition blank_rct :: rct_signatures where
  "blank_rct = \<lparr>rct_type = 0, txnFee = 0, pseudoOuts = [], bulletproof_plus_bytes = [], clsag_signatures = []\<rparr>"

definition blank_tx :: transaction where
  "blank_tx = \<lparr>tx_version = 0, unlock_time = 0, vin = [], vout = [], extra = [], rct = blank_rct, tx_hash = zeros32\<rparr>"

definition blank_block :: block where
  "blank_block = \<lparr>major_version = 0, minor_version = 0, timestamp = 0, prev_id = zeros32, nonce = 0,
                  miner_tx = blank_tx, tx_hashes = [], block_hash = zeros32\<rparr>"

lemmas blank_defs = blank_txin_def blank_tx_out_def blank_rct_def blank_tx_def blank_block_def

end
