(* ===== verification/TxPool.thy ===== *)
theory TxPool
  imports Basic
begin

text \<open>
  src/cryptonote_core/tx_pool.cpp and tx_pool.h: the memory pool. Every method runs under
  \<open>m_pool_lock\<close>, so a method is one atomic step on the state; \<open>time(nullptr)\<close> is an argument. The
  order in which \<open>std::sort\<close> leaves entries of equal fee is not specified, so the sort is an
  argument too, under the contract of the standard (locale \<open>fee_sort\<close>): the results below hold
  for every sort that meets it.
\<close>

record pool_entry =
  pe_tx :: transaction
  pe_fee :: u64
  pe_receive_time :: u64
  pe_blob_size :: u64

record tx_pool =
  m_mempool :: "pool_entry list"
  m_mempool_key_images :: "string set"

definition empty_pool :: tx_pool where
  "empty_pool = \<lparr>m_mempool = [], m_mempool_key_images = {}\<rparr>"

section \<open>Admission\<close>

definition fee_before :: "pool_entry \<Rightarrow> pool_entry \<Rightarrow> bool" where
  "fee_before a b \<longleftrightarrow> pe_fee a > pe_fee b"

definition image_present :: "pool_entry list \<Rightarrow> bytes \<Rightarrow> bool" where
  "image_present es img \<longleftrightarrow> (\<exists>e \<in> set es. \<exists>i \<in> set (vin (pe_tx e)). k_image i = img)"

fun check_inputs :: "pool_entry list \<Rightarrow> txin_to_key list \<Rightarrow> string option" where
  "check_inputs es [] = None"
| "check_inputs es (i # is) =
     (if length (key_offsets i) \<noteq> CRYPTONOTE_MINIMUM_MIXIN_V3 + 1 then Some ''Ring size must be exactly 16''
      else if image_present es (k_image i) then Some ''Key image is already present in the mempool''
      else check_inputs es is)"

definition missing_proofs :: "rct_signatures \<Rightarrow> bool" where
  "missing_proofs r \<longleftrightarrow> rct_type r \<noteq> 6 \<or> bulletproof_plus_bytes r = [] \<or> clsag_signatures r = []"

definition admission_error :: "tx_pool \<Rightarrow> transaction \<Rightarrow> string option" where
  "admission_error p tx =
     (if vin tx = [] \<or> vout tx = [] then Some ''Transaction must contain inputs and outputs''
      else if missing_proofs (rct tx) then Some ''Transaction is missing the required RingCT proof payloads''
      else if (\<exists>e \<in> set (m_mempool p). tx_hash (pe_tx e) = tx_hash tx)
           then Some ''Transaction is already in the mempool''
      else check_inputs (m_mempool p) (vin tx))"

definition new_entry :: "u64 \<Rightarrow> transaction \<Rightarrow> pool_entry" where
  "new_entry now tx = \<lparr>pe_tx = tx, pe_fee = txnFee (rct tx), pe_receive_time = now, pe_blob_size = 1800\<rparr>"

text \<open>The returned flag, the \<open>error_reason\<close> out-parameter and the pool.\<close>

definition add_tx ::
  "(pool_entry list \<Rightarrow> pool_entry list) \<Rightarrow> u64 \<Rightarrow> tx_pool \<Rightarrow> transaction \<Rightarrow> string \<Rightarrow> bool \<times> string \<times> tx_pool" where
  "add_tx srt now p tx reason =
     (case admission_error p tx of
        Some e \<Rightarrow> (False, e, p)
      | None \<Rightarrow> (True, reason, p\<lparr>m_mempool := srt (m_mempool p @ [new_entry now tx])\<rparr>))"

definition remove_txs :: "tx_pool \<Rightarrow> bytes list \<Rightarrow> tx_pool" where
  "remove_txs p hs = p\<lparr>m_mempool := filter (\<lambda>e. tx_hash (pe_tx e) \<notin> set hs) (m_mempool p)\<rparr>"

fun template_loop :: "u64 \<Rightarrow> pool_entry list \<Rightarrow> u64 \<Rightarrow> transaction list" where
  "template_loop max_bytes [] current_bytes = []"
| "template_loop max_bytes (e # es) current_bytes =
     (if current_bytes + pe_blob_size e > max_bytes then []
      else pe_tx e # template_loop max_bytes es (current_bytes + pe_blob_size e))"

definition get_block_template_txs :: "tx_pool \<Rightarrow> u64 \<Rightarrow> transaction list" where
  "get_block_template_txs p max_bytes = template_loop max_bytes (m_mempool p) 0"

definition pool_size :: "tx_pool \<Rightarrow> nat" where
  "pool_size p = length (m_mempool p)"

section \<open>What the pool keeps\<close>

definition tx_images :: "transaction \<Rightarrow> bytes set" where
  "tx_images tx = k_image ` set (vin tx)"

definition admissible :: "transaction \<Rightarrow> bool" where
  "admissible tx \<longleftrightarrow> vin tx \<noteq> [] \<and> vout tx \<noteq> [] \<and> \<not> missing_proofs (rct tx)
     \<and> (\<forall>i \<in> set (vin tx). length (key_offsets i) = 16)"

definition entry_ok :: "pool_entry \<Rightarrow> bool" where
  "entry_ok e \<longleftrightarrow> admissible (pe_tx e) \<and> pe_fee e = txnFee (rct (pe_tx e)) \<and> pe_blob_size e = 1800"

definition pool_contents_ok :: "pool_entry list \<Rightarrow> bool" where
  "pool_contents_ok es \<longleftrightarrow> (\<forall>e \<in> set es. entry_ok e)
     \<and> distinct (map (tx_hash \<circ> pe_tx) es)
     \<and> (\<forall>a \<in> set es. \<forall>b \<in> set es. tx_hash (pe_tx a) \<noteq> tx_hash (pe_tx b) \<longrightarrow>
          tx_images (pe_tx a) \<inter> tx_images (pe_tx b) = {})"

definition fee_sorted :: "pool_entry list \<Rightarrow> bool" where
  "fee_sorted es \<longleftrightarrow> sorted_wrt (\<lambda>a b. \<not> fee_before b a) es"

definition pool_inv :: "tx_pool \<Rightarrow> bool" where
  "pool_inv p \<longleftrightarrow> pool_contents_ok (m_mempool p) \<and> fee_sorted (m_mempool p)"

lemma pool_inv_empty [simp]: "pool_inv empty_pool"
  by (simp add: pool_inv_def pool_contents_ok_def fee_sorted_def empty_pool_def)

lemma check_inputs_None:
  "check_inputs es is = None \<longleftrightarrow>
     (\<forall>i \<in> set is. length (key_offsets i) = 16 \<and> \<not> image_present es (k_image i))"
  by (induction "is") (auto simp: CRYPTONOTE_MINIMUM_MIXIN_V3_def)

lemma image_present_iff: "image_present es img \<longleftrightarrow> (\<exists>e \<in> set es. img \<in> tx_images (pe_tx e))"
  by (auto simp: image_present_def tx_images_def)

lemma no_image_present:
  "(\<forall>i \<in> set (vin tx). \<not> image_present es (k_image i)) \<longleftrightarrow>
   (\<forall>e \<in> set es. tx_images (pe_tx e) \<inter> tx_images tx = {})"
  unfolding image_present_iff disjoint_iff tx_images_def [of tx] by blast

lemma admission_None:
  "admission_error p tx = None \<longleftrightarrow> admissible tx
     \<and> (\<forall>e \<in> set (m_mempool p). tx_hash (pe_tx e) \<noteq> tx_hash tx \<and> tx_images (pe_tx e) \<inter> tx_images tx = {})"
  by (simp add: admission_error_def check_inputs_None admissible_def ball_conj_distrib
      no_image_present)

lemma pool_contents_mset:
  assumes "mset es = mset es'"
  shows "pool_contents_ok es \<longleftrightarrow> pool_contents_ok es'"
proof -
  have "set es = set es'" using assms by (rule mset_eq_setD)
  moreover have "distinct (map (tx_hash \<circ> pe_tx) es) \<longleftrightarrow> distinct (map (tx_hash \<circ> pe_tx) es')"
    using assms by (intro mset_eq_imp_distinct_iff) simp
  ultimately show ?thesis by (simp add: pool_contents_ok_def)
qed

lemma pool_contents_snoc:
  assumes "pool_contents_ok (m_mempool p)" "admission_error p tx = None"
  shows "pool_contents_ok (m_mempool p @ [new_entry now tx])"
proof -
  have "admissible tx" and fresh: "\<And>e. e \<in> set (m_mempool p) \<Longrightarrow>
      tx_hash (pe_tx e) \<noteq> tx_hash tx \<and> tx_images (pe_tx e) \<inter> tx_images tx = {}"
    using assms(2) by (auto simp: admission_None)
  then show ?thesis
    using assms(1) by (auto simp: pool_contents_ok_def entry_ok_def new_entry_def Int_commute) blast
qed

lemma remove_txs_keeps_inv: "pool_inv p \<Longrightarrow> pool_inv (remove_txs p hs)"
  by (auto simp: pool_inv_def remove_txs_def pool_contents_ok_def fee_sorted_def
      distinct_map_filter sorted_wrt_filter)

section \<open>The sort as an interface\<close>

locale fee_sort =
  fixes srt :: "pool_entry list \<Rightarrow> pool_entry list"
  assumes srt_mset: "mset (srt es) = mset es"
    and srt_sorted: "fee_sorted (srt es)"
begin

lemma add_keeps_inv:
  assumes "pool_inv p" "add_tx srt now p tx r = (ok, r', p')"
  shows "pool_inv p'"
proof (cases "admission_error p tx")
  case None
  then have "m_mempool p' = srt (m_mempool p @ [new_entry now tx])"
    using assms(2) by (auto simp: add_tx_def)
  moreover have "pool_contents_ok (srt (m_mempool p @ [new_entry now tx]))"
    using assms(1) None pool_contents_mset [OF srt_mset] pool_contents_snoc by (simp add: pool_inv_def)
  ultimately show ?thesis by (simp add: pool_inv_def srt_sorted)
next
  case (Some e)
  with assms show ?thesis by (auto simp: add_tx_def)
qed

lemma add_contents:
  "add_tx srt now p tx r = (True, r', p') \<Longrightarrow>
     mset (m_mempool p') = add_mset (new_entry now tx) (mset (m_mempool p))"
  by (auto simp: add_tx_def srt_mset split: option.splits)

end

fun fee_insert :: "pool_entry \<Rightarrow> pool_entry list \<Rightarrow> pool_entry list" where
  "fee_insert e [] = [e]"
| "fee_insert e (x # xs) = (if fee_before x e then x # fee_insert e xs else e # x # xs)"

definition fee_insertion_sort :: "pool_entry list \<Rightarrow> pool_entry list" where
  "fee_insertion_sort es = foldr fee_insert es []"

lemma mset_fee_insert: "mset (fee_insert e es) = add_mset e (mset es)"
  by (induction es) auto

lemma fee_sorted_insert: "fee_sorted es \<Longrightarrow> fee_sorted (fee_insert e es)"
proof (induction es)
  case (Cons x xs)
  have "set (fee_insert e xs) = insert e (set xs)"
    using mset_fee_insert [of e xs] by (metis set_mset_add_mset_insert set_mset_mset)
  with Cons show ?case by (auto simp: fee_sorted_def fee_before_def)
qed (simp add: fee_sorted_def)

interpretation insertion: fee_sort fee_insertion_sort
proof
  fix es
  show "mset (fee_insertion_sort es) = mset es"
    by (induction es) (simp_all add: fee_insertion_sort_def mset_fee_insert)
  show "fee_sorted (fee_insertion_sort es)"
    by (induction es) (simp_all add: fee_insertion_sort_def fee_sorted_insert fee_sorted_def [of "[]"])
qed

section \<open>Properties of the pool\<close>

text \<open>C7: The pool's invariant: every entry is a transaction with inputs, outputs, proofs and rings of 16,
  carries its fee and the fixed size 1800, no two entries share a hash, no two share a key image,
  and fees descend. Admission, accepted or not, keeps it, whatever sort std::sort is.\<close>

theorem add_tx_keeps_pool_inv:
  assumes "fee_sort srt" "pool_inv p" "add_tx srt now p tx r = (ok, r', p')"
  shows "pool_inv p'"
  by (rule fee_sort.add_keeps_inv [OF assms])

definition demo_input :: "byte \<Rightarrow> txin_to_key" where
  "demo_input b = \<lparr>in_amount = 0, key_offsets = replicate 16 7, k_image = replicate 32 b\<rparr>"

definition demo_tx :: "byte \<Rightarrow> u64 \<Rightarrow> transaction" where
  "demo_tx b f = blank_tx\<lparr>vin := [demo_input b], vout := [blank_tx_out], tx_hash := replicate 32 b,
     rct := \<lparr>rct_type = 6, txnFee = f, pseudoOuts = [], bulletproof_plus_bytes = [1], clsag_signatures = [2]\<rparr>\<rparr>"

definition demo_pool :: tx_pool where
  "demo_pool = empty_pool\<lparr>m_mempool := [new_entry 0 (demo_tx 2 9), new_entry 0 (demo_tx 1 5)]\<rparr>"

lemmas demo_defs = demo_input_def demo_tx_def demo_pool_def new_entry_def blank_defs empty_pool_def

lemma demo_pool_built:
  "add_tx fee_insertion_sort 0 (empty_pool\<lparr>m_mempool := [new_entry 0 (demo_tx 1 5)]\<rparr>) (demo_tx 2 9) []
   = (True, [], demo_pool)"
  by (simp add: add_tx_def admission_error_def missing_proofs_def image_present_def fee_insertion_sort_def
      fee_before_def demo_defs CRYPTONOTE_MINIMUM_MIXIN_V3_def)

lemma demo_first_inv: "pool_inv (empty_pool\<lparr>m_mempool := [new_entry 0 (demo_tx 1 5)]\<rparr>)"
  by (simp add: pool_inv_def pool_contents_ok_def fee_sorted_def entry_ok_def admissible_def
      missing_proofs_def demo_defs)

theorem add_tx_keeps_pool_inv_witness: "pool_inv demo_pool"
  by (rule add_tx_keeps_pool_inv [OF insertion.fee_sort_axioms demo_first_inv demo_pool_built])

text \<open>The pool as a finite map from hashes to transactions, and its two writers as map operations.\<close>

definition pool_map :: "tx_pool \<Rightarrow> bytes \<rightharpoonup> transaction" where
  "pool_map p = map_of (map (\<lambda>e. (tx_hash (pe_tx e), pe_tx e)) (m_mempool p))"

lemma pool_map_Some:
  assumes "pool_inv p"
  shows "pool_map p h = Some tx \<longleftrightarrow> (\<exists>e \<in> set (m_mempool p). pe_tx e = tx \<and> tx_hash tx = h)"
proof -
  have "distinct (map fst (map (\<lambda>e. (tx_hash (pe_tx e), pe_tx e)) (m_mempool p)))"
    using assms by (simp add: pool_inv_def pool_contents_ok_def o_def)
  then show ?thesis by (auto simp: pool_map_def)
qed

lemma pool_map_eqI:
  assumes "pool_inv p" "\<And>h tx. (\<exists>e \<in> set (m_mempool p). pe_tx e = tx \<and> tx_hash tx = h) \<longleftrightarrow> m h = Some tx"
  shows "pool_map p = m"
proof
  fix h
  show "pool_map p h = m h"
    using assms(2) [where h = h] pool_map_Some [OF assms(1), where h = h] by (metis option.exhaust)
qed

lemma add_tx_map:
  assumes "fee_sort srt" "pool_inv p" "add_tx srt now p tx r = (ok, r', p')"
  shows "pool_map p' = (if ok then (pool_map p)(tx_hash tx \<mapsto> tx) else pool_map p)"
proof (cases ok)
  case True
  then have m: "mset (m_mempool p') = add_mset (new_entry now tx) (mset (m_mempool p))"
    using fee_sort.add_contents [OF assms(1)] assms(3) by auto
  have "set (m_mempool p') = insert (new_entry now tx) (set (m_mempool p))"
    using arg_cong [OF m, of set_mset] by simp
  moreover have "\<forall>e \<in> set (m_mempool p). tx_hash (pe_tx e) \<noteq> tx_hash tx"
    using assms(3) True by (auto simp: add_tx_def admission_None split: option.splits)
  moreover have "pool_inv p'" by (rule fee_sort.add_keeps_inv [OF assms])
  ultimately have "pool_map p' = (pool_map p)(tx_hash tx \<mapsto> tx)"
    using pool_map_Some [OF assms(2)] by (intro pool_map_eqI) (auto simp: new_entry_def)
  with True show ?thesis by simp
next
  case False
  with assms(3) show ?thesis by (auto simp: add_tx_def split: option.splits)
qed

text \<open>The pool refines a map from hashes to transactions: an accepted transaction is a map update at its
  own hash and a rejected one changes nothing.\<close>

theorem add_tx_refines_update:
  assumes "fee_sort srt" "pool_inv p" "add_tx srt now p tx r = (ok, r', p')"
  shows "pool_map p' = (if ok then (pool_map p)(tx_hash tx \<mapsto> tx) else pool_map p)"
  using assms by (rule add_tx_map)

theorem add_tx_refines_update_witness:
  "pool_map demo_pool = (pool_map (empty_pool\<lparr>m_mempool := [new_entry 0 (demo_tx 1 5)]\<rparr>))
     (replicate 32 2 \<mapsto> demo_tx 2 9)"
  using add_tx_refines_update [OF insertion.fee_sort_axioms demo_first_inv demo_pool_built]
  by (simp add: demo_tx_def)

lemma remove_txs_map:
  assumes "pool_inv p"
  shows "pool_map (remove_txs p hs) = pool_map p |` (- set hs)"
  using pool_map_Some [OF assms] remove_txs_keeps_inv [OF assms]
  by (intro pool_map_eqI) (auto simp: remove_txs_def restrict_map_def)

text \<open>Removing the transactions of a block keeps the invariant and restricts the map to the other hashes.\<close>

theorem remove_txs_refines_restriction:
  assumes "pool_inv p"
  shows "pool_inv (remove_txs p hs) \<and> pool_map (remove_txs p hs) = pool_map p |` (- set hs)"
  using remove_txs_keeps_inv [OF assms] remove_txs_map [OF assms] by blast

lemma demo_pool_inv: "pool_inv demo_pool"
  by (rule fee_sort.add_keeps_inv [OF insertion.fee_sort_axioms demo_first_inv demo_pool_built])

theorem remove_txs_refines_restriction_witness:
  "pool_inv (remove_txs demo_pool [replicate 32 2])
   \<and> pool_map (remove_txs demo_pool [replicate 32 2]) = pool_map demo_pool |` (- {replicate 32 2})"
  using remove_txs_refines_restriction [OF demo_pool_inv, of "[replicate 32 2]"] by simp

section \<open>Block templates\<close>

lemma template_loop_take:
  assumes "\<forall>e \<in> set es. pe_blob_size e = 1800" "unat cur \<le> unat max_bytes" "unat max_bytes < 2 ^ 63"
  shows "template_loop max_bytes es cur = map pe_tx (take ((unat max_bytes - unat cur) div 1800) es)"
  using assms
proof (induction es arbitrary: cur)
  case (Cons e es)
  have add: "unat (cur + 1800) = unat cur + 1800"
    using Cons.prems by (subst unat_add_no_wrap) simp_all
  show ?case
  proof (cases "unat cur + 1800 \<le> unat max_bytes")
    case True
    then have "(unat max_bytes - unat cur) div 1800 = Suc ((unat max_bytes - (unat cur + 1800)) div 1800)"
      by (simp add: div_if)
    with True Cons add show ?thesis by (simp add: word_less_nat_alt)
  next
    case False
    then have "(unat max_bytes - unat cur) div 1800 = 0" by simp
    with False Cons.prems add show ?thesis by (simp add: word_less_nat_alt)
  qed
qed simp

lemma template_take:
  assumes "pool_inv p" "unat max_bytes < 2 ^ 63"
  shows "get_block_template_txs p max_bytes = map pe_tx (take (unat max_bytes div 1800) (m_mempool p))"
  using assms template_loop_take [of "m_mempool p" 0 max_bytes]
  by (simp add: get_block_template_txs_def pool_inv_def pool_contents_ok_def entry_ok_def)

text \<open>A block template is the front of the pool: with sizes fixed at 1800 bytes it is exactly the first
  max_bytes / 1800 entries, so it fits the limit, and no transaction left out pays a higher fee than
  one taken.\<close>

theorem block_template_front:
  assumes "pool_inv p" "unat max_bytes < 2 ^ 63"
  shows "get_block_template_txs p max_bytes = map pe_tx (take (unat max_bytes div 1800) (m_mempool p))
     \<and> length (get_block_template_txs p max_bytes) * 1800 \<le> unat max_bytes
     \<and> (\<forall>a \<in> set (take (unat max_bytes div 1800) (m_mempool p)).
          \<forall>b \<in> set (drop (unat max_bytes div 1800) (m_mempool p)). pe_fee b \<le> pe_fee a)"
proof -
  let ?k = "unat max_bytes div 1800" and ?es = "m_mempool p"
  note t = template_take [OF assms]
  have "min (length ?es) ?k * 1800 \<le> ?k * 1800" by simp
  also have "\<dots> \<le> unat max_bytes" by simp
  finally have "length (get_block_template_txs p max_bytes) * 1800 \<le> unat max_bytes" by (simp add: t)
  moreover have "sorted_wrt (\<lambda>a b. pe_fee b \<le> pe_fee a) (take ?k ?es @ drop ?k ?es)"
    using assms(1) by (simp add: pool_inv_def fee_sorted_def fee_before_def not_less)
  then have "\<forall>a \<in> set (take ?k ?es). \<forall>b \<in> set (drop ?k ?es). pe_fee b \<le> pe_fee a"
    unfolding sorted_wrt_append by blast
  ultimately show ?thesis using t by blast
qed

theorem block_template_front_witness:
  "get_block_template_txs demo_pool 2000 = [demo_tx 2 9]"
  using block_template_front [OF demo_pool_inv, of 2000]
  by (simp add: demo_pool_def empty_pool_def new_entry_def)

section \<open>Draining the pool\<close>

lemma remove_template:
  assumes "pool_inv p"
  shows "remove_txs p (map tx_hash (map pe_tx (take k (m_mempool p)))) = p\<lparr>m_mempool := drop k (m_mempool p)\<rparr>"
proof -
  let ?es = "m_mempool p" and ?h = "tx_hash \<circ> pe_tx"
  have "distinct (map ?h (take k ?es @ drop k ?es))"
    using assms by (simp add: pool_inv_def pool_contents_ok_def)
  then have disj: "?h ` set (take k ?es) \<inter> ?h ` set (drop k ?es) = {}"
    by (simp only: map_append distinct_append set_map)
  have "filter (\<lambda>e. ?h e \<notin> ?h ` set (take k ?es)) (take k ?es @ drop k ?es) = drop k ?es"
    using disj by (subst filter_append) (auto simp: filter_empty_conv filter_id_conv)
  then show ?thesis by (simp add: remove_txs_def image_image)
qed

text \<open>
  A round of mining: the template is taken and, when its block is accepted, its transactions leave
  the pool. \<open>mining_rounds r\<close> is r rounds: what they mined, in order, and the pool they leave.
\<close>

fun mining_rounds :: "nat \<Rightarrow> u64 \<Rightarrow> tx_pool \<Rightarrow> transaction list \<times> tx_pool" where
  "mining_rounds 0 max_bytes p = ([], p)"
| "mining_rounds (Suc r) max_bytes p =
     (let txs = get_block_template_txs p max_bytes;
          (rest, p') = mining_rounds r max_bytes (remove_txs p (map tx_hash txs))
      in (txs @ rest, p'))"

lemma mining_rounds_eq:
  assumes "pool_inv p" "unat max_bytes < 2 ^ 63"
  shows "mining_rounds r max_bytes p =
    (map pe_tx (take (r * (unat max_bytes div 1800)) (m_mempool p)),
     p\<lparr>m_mempool := drop (r * (unat max_bytes div 1800)) (m_mempool p)\<rparr>)"
  using assms(1)
proof (induction r arbitrary: p)
  case (Suc r)
  let ?k = "unat max_bytes div 1800"
  note t = template_take [OF Suc.prems assms(2)]
  note q = remove_template [OF Suc.prems, of ?k]
  have "pool_inv (p\<lparr>m_mempool := drop ?k (m_mempool p)\<rparr>)"
    using remove_txs_keeps_inv [OF Suc.prems] q by metis
  from Suc.IH [OF this] show ?case
    by (simp add: t q Let_def take_add add.commute del: map_map)
qed simp

text \<open>C12: The pool drains by fee: r rounds that each mine a template of up to max_bytes take exactly the first
  r * (max_bytes / 1800) transactions, highest fee first, each once, and leave the rest; with room
  for at least one transaction per block, as many rounds as the pool has entries empty it.\<close>

theorem mining_drains_pool:
  assumes "pool_inv p" "unat max_bytes < 2 ^ 63"
  shows "mining_rounds r max_bytes p =
      (map pe_tx (take (r * (unat max_bytes div 1800)) (m_mempool p)),
       p\<lparr>m_mempool := drop (r * (unat max_bytes div 1800)) (m_mempool p)\<rparr>)
    \<and> (1800 \<le> unat max_bytes \<and> pool_size p \<le> r \<longrightarrow>
         mining_rounds r max_bytes p = (map pe_tx (m_mempool p), p\<lparr>m_mempool := []\<rparr>))"
proof -
  have "length (m_mempool p) \<le> r * (unat max_bytes div 1800)"
    if "1800 \<le> unat max_bytes" "pool_size p \<le> r"
  proof -
    have "1 \<le> unat max_bytes div 1800" using that(1) by (simp add: Suc_le_eq div_greater_zero_iff)
    then have "r * 1 \<le> r * (unat max_bytes div 1800)" by (rule mult_le_mono2)
    then have "r \<le> r * (unat max_bytes div 1800)" by (simp only: mult_1_right)
    with that(2) show ?thesis unfolding pool_size_def by (rule order_trans)
  qed
  then show ?thesis by (simp add: mining_rounds_eq [OF assms])
qed

theorem mining_drains_pool_witness:
  "mining_rounds 2 1800 demo_pool = ([demo_tx 2 9, demo_tx 1 5], empty_pool)"
  using mining_drains_pool [OF demo_pool_inv, of 1800 2]
  by (simp add: demo_pool_def empty_pool_def new_entry_def pool_size_def)

end
