(* ===== verification/Storage.thy ===== *)
theory Storage
  imports Basic
begin

text \<open>
  src/blockchain_db/lmdb_storage.cpp and lmdb_storage.h: the on-disk database, two append-only files
  in a directory. The file system is a map from paths to byte strings with the set of paths that can
  be opened for writing; an input file stream is its unread bytes and its fail bit, and \<open>read\<close> on a
  failed stream extracts nothing, as the standard says. Log lines are left out.
\<close>

record filesystem =
  files :: "string \<rightharpoonup> bytes"
  writable :: "string \<Rightarrow> bool"

record database =
  m_db_path :: string
  m_opened :: bool

definition new_database :: database where
  "new_database = \<lparr>m_db_path = [], m_opened = False\<rparr>"

definition db_open :: "database \<Rightarrow> string \<Rightarrow> bool \<times> database" where
  "db_open db db_path = (True, db\<lparr>m_db_path := db_path, m_opened := True\<rparr>)"

definition db_close :: "database \<Rightarrow> database" where
  "db_close db = db\<lparr>m_opened := False\<rparr>"

definition blocks_file :: "database \<Rightarrow> string" where
  "blocks_file db = m_db_path db @ ''/blocks.dat''"

definition keys_file :: "database \<Rightarrow> string" where
  "keys_file db = m_db_path db @ ''/key_images.dat''"

text \<open>Opening for appending creates a missing file; the bytes go to its end.\<close>

definition append_file :: "filesystem \<Rightarrow> string \<Rightarrow> bytes \<Rightarrow> filesystem" where
  "append_file fs path bs =
     fs\<lparr>files := (files fs)(path \<mapsto> (case files fs path of None \<Rightarrow> [] | Some old \<Rightarrow> old) @ bs)\<rparr>"

section \<open>Writing\<close>

definition block_record :: "block \<Rightarrow> u64 \<Rightarrow> u64 \<Rightarrow> bytes" where
  "block_record b height difficulty =
     word_to_le 8 height @ word_to_le 8 (timestamp b) @ word_to_le 4 (nonce b) @
     word_to_le 8 difficulty @ block_hash b"

definition save_block :: "database \<Rightarrow> filesystem \<Rightarrow> block \<Rightarrow> u64 \<Rightarrow> u64 \<Rightarrow> bool \<times> filesystem" where
  "save_block db fs b height difficulty =
     (if \<not> m_opened db then (False, fs)
      else if \<not> writable fs (blocks_file db) then (False, fs)
      else (True, append_file fs (blocks_file db) (block_record b height difficulty)))"

definition bytes_of_string :: "string \<Rightarrow> bytes" where
  "bytes_of_string s = map (\<lambda>c. of_nat (of_char c)) s"

definition string_of_bytes :: "bytes \<Rightarrow> string" where
  "string_of_bytes bs = map (\<lambda>b. char_of (unat b)) bs"

definition save_key_image :: "database \<Rightarrow> filesystem \<Rightarrow> string \<Rightarrow> bool \<times> filesystem" where
  "save_key_image db fs key_image_hex =
     (if \<not> m_opened db then (False, fs)
      else if \<not> writable fs (keys_file db) then (False, fs)
      else (True, append_file fs (keys_file db) (bytes_of_string (key_image_hex @ [CHR 0x0A]))))"

section \<open>Reading\<close>

record istream =
  unread :: bytes
  failbit :: bool

definition read_n :: "nat \<Rightarrow> istream \<Rightarrow> bytes \<times> nat \<times> istream" where
  "read_n n s =
     (if failbit s then ([], 0, s)
      else if length (unread s) < n then (unread s, length (unread s), s\<lparr>unread := [], failbit := True\<rparr>)
      else (take n (unread s), n, s\<lparr>unread := drop n (unread s)\<rparr>))"

definition peek_eof :: "istream \<Rightarrow> bool" where
  "peek_eof s \<longleftrightarrow> failbit s \<or> unread s = []"

text \<open>One iteration of the loop body: \<open>None\<close> is its \<open>break\<close>.\<close>

definition read_record :: "istream \<Rightarrow> (block \<times> u64 \<times> istream) option" where
  "read_record s =
     (let (height, _, s) = read_n 8 s; (time, _, s) = read_n 8 s; (nonce_bytes, _, s) = read_n 4 s;
          (diff, _, s) = read_n 8 s; (hash_val, gcount, s) = read_n 32 s
      in if gcount < 32 then None
         else Some (blank_block\<lparr>timestamp := le_to_word time, nonce := le_to_word nonce_bytes,
                                block_hash := hash_val\<rparr>, le_to_word diff, s))"

lemma read_n_unread: "read_n n s = (bs, k, s') \<Longrightarrow> length (unread s') \<le> length (unread s)"
  by (auto simp: read_n_def split: if_splits)

lemma read_n_progress: "read_n n s = (bs, k, s') \<Longrightarrow> 0 < k \<Longrightarrow> length (unread s') < length (unread s)"
  by (auto simp: read_n_def split: if_splits)

lemma read_record_progress:
  assumes "read_record s = Some (b, d, s')"
  shows "length (unread s') < length (unread s)"
proof -
  obtain b1 k1 s1 b2 k2 s2 b3 k3 s3 b4 k4 s4 b5 k5 s5 where
    r: "read_n 8 s = (b1, k1, s1)" "read_n 8 s1 = (b2, k2, s2)" "read_n 4 s2 = (b3, k3, s3)"
       "read_n 8 s3 = (b4, k4, s4)" "read_n 32 s4 = (b5, k5, s5)"
    by (metis prod_cases3)
  have "32 \<le> k5" "s' = s5" using assms r by (auto simp: read_record_def split: if_splits)
  then show ?thesis
    using read_n_unread [OF r(1)] read_n_unread [OF r(2)] read_n_unread [OF r(3)] read_n_unread [OF r(4)]
      read_n_progress [OF r(5)] by simp
qed

function load_blocks :: "istream \<Rightarrow> u64 \<Rightarrow> block list \<Rightarrow> u64 list \<Rightarrow> u64 list \<Rightarrow> block list \<times> u64 list \<times> u64 list" where
  "load_blocks s cum_diff blocks timestamps cds =
     (if peek_eof s then (blocks, timestamps, cds)
      else case read_record s of
        None \<Rightarrow> (blocks, timestamps, cds)
      | Some (b, difficulty, s') \<Rightarrow>
          load_blocks s' (cum_diff + difficulty) (blocks @ [b]) (timestamps @ [timestamp b])
            (cds @ [cum_diff + difficulty]))"
  by pat_completeness auto
termination
  by (relation "measure (\<lambda>(s, _). length (unread s))") (auto dest: read_record_progress)

declare load_blocks.simps [simp del]

text \<open>\<open>std::getline\<close> in a loop: the lines of the file, without their terminators.\<close>

fun getlines :: "string \<Rightarrow> string \<Rightarrow> string list" where
  "getlines [] cur = (if cur = [] then [] else [cur])"
| "getlines (c # cs) cur = (if c = CHR 0x0A then cur # getlines cs [] else getlines cs (cur @ [c]))"

definition load_keys :: "filesystem \<Rightarrow> database \<Rightarrow> string set \<Rightarrow> string set" where
  "load_keys fs db spent =
     (case files fs (keys_file db) of
        None \<Rightarrow> spent
      | Some bs \<Rightarrow> spent \<union> set (filter (\<lambda>l. l \<noteq> []) (getlines (string_of_bytes bs) [])))"

text \<open>The vectors and the set are the caller's; the code appends to them.\<close>

definition load_chain ::
  "database \<Rightarrow> filesystem \<Rightarrow> block list \<Rightarrow> u64 list \<Rightarrow> u64 list \<Rightarrow> string set \<Rightarrow>
   bool \<times> block list \<times> u64 list \<times> u64 list \<times> string set" where
  "load_chain db fs blocks timestamps cds spent =
     (if \<not> m_opened db then (False, blocks, timestamps, cds, spent)
      else case files fs (blocks_file db) of
        None \<Rightarrow> (False, blocks, timestamps, cds, spent)
      | Some bs \<Rightarrow>
          let (blocks', timestamps', cds') = load_blocks \<lparr>unread = bs, failbit = False\<rparr> 0 blocks timestamps cds
          in (True, blocks', timestamps', cds', load_keys fs db spent))"

section \<open>Reading back what was written\<close>

definition on_disk :: "block \<Rightarrow> block" where
  "on_disk b = blank_block\<lparr>timestamp := timestamp b, nonce := nonce b, block_hash := block_hash b\<rparr>"

lemma on_disk_fields [simp]:
  "timestamp (on_disk b) = timestamp b" "nonce (on_disk b) = nonce b" "block_hash (on_disk b) = block_hash b"
  "prev_id (on_disk b) = zeros32" "tx_hashes (on_disk b) = []" "on_disk (on_disk b) = on_disk b"
  by (simp_all add: on_disk_def blank_block_def)

text \<open>One saved block: the block, its height and its difficulty.\<close>

type_synonym saved = "block \<times> u64 \<times> u64"

definition saved_record :: "saved \<Rightarrow> bytes" where
  "saved_record r = (case r of (b, h, d) \<Rightarrow> block_record b h d)"

lemma saved_record_tuple [simp]: "saved_record (b, h, d) = block_record b h d"
  by (simp add: saved_record_def)

fun running_sums :: "u64 \<Rightarrow> u64 list \<Rightarrow> u64 list" where
  "running_sums acc [] = []"
| "running_sums acc (d # ds) = (acc + d) # running_sums (acc + d) ds"

lemma length_running_sums [simp]: "length (running_sums acc ds) = length ds"
  by (induction ds arbitrary: acc) simp_all

lemma running_sums_snoc:
  "running_sums acc (ds @ [d]) = running_sums acc ds @ [last (acc # running_sums acc ds) + d]"
  by (induction ds arbitrary: acc) auto

lemma read_n_append:
  "length xs = n \<Longrightarrow> read_n n \<lparr>unread = xs @ ys, failbit = False\<rparr> = (xs, n, \<lparr>unread = ys, failbit = False\<rparr>)"
  by (simp add: read_n_def)

lemma read_n_short:
  "length xs < n \<Longrightarrow> read_n n \<lparr>unread = xs, failbit = False\<rparr> = (xs, length xs, \<lparr>unread = [], failbit = True\<rparr>)"
  by (simp add: read_n_def)

lemma read_n_failed: "read_n n \<lparr>unread = xs, failbit = True\<rparr> = ([], 0, \<lparr>unread = xs, failbit = True\<rparr>)"
  by (simp add: read_n_def)

lemma read_record_append:
  assumes "arr32 (block_hash b)"
  shows "read_record \<lparr>unread = block_record b h d @ rest, failbit = False\<rparr>
         = Some (on_disk b, d, \<lparr>unread = rest, failbit = False\<rparr>)"
  using assms by (simp add: read_record_def block_record_def read_n_append arr32_def on_disk_def)

text \<open>A record cut short anywhere makes the last \<open>gcount\<close> less than 32.\<close>

lemma read_record_truncated:
  assumes "length rest < 60"
  shows "read_record \<lparr>unread = rest, failbit = False\<rparr> = None"
proof -
  have r: "read_n n \<lparr>unread = xs, failbit = False\<rparr> =
      (if length xs < n then (xs, length xs, \<lparr>unread = [], failbit = True\<rparr>)
       else (take n xs, n, \<lparr>unread = drop n xs, failbit = False\<rparr>))" for n xs
    by (simp add: read_n_def)
  show ?thesis
    using assms by (auto simp: read_record_def Let_def r read_n_failed)
qed

lemma load_blocks_saved:
  assumes "\<forall>r \<in> set rs. arr32 (block_hash (fst r))" "length tail < 60"
  shows "load_blocks \<lparr>unread = concat (map saved_record rs) @ tail, failbit = False\<rparr> cum bs ts cds
    = (bs @ map (on_disk \<circ> fst) rs, ts @ map (timestamp \<circ> fst) rs, cds @ running_sums cum (map (snd \<circ> snd) rs))"
  using assms(1)
proof (induction rs arbitrary: cum bs ts cds)
  case Nil
  then show ?case
    using assms(2) by (subst load_blocks.simps) (simp add: read_record_truncated)
next
  case (Cons r rs)
  obtain b h d where r: "r = (b, h, d)" by (cases r) auto
  have "\<not> peek_eof \<lparr>unread = block_record b h d @ concat (map saved_record rs) @ tail, failbit = False\<rparr>"
    by (simp add: peek_eof_def block_record_def)
  then show ?case
    using Cons by (subst load_blocks.simps) (simp add: r read_record_append o_def)
qed

definition holds_records :: "filesystem \<Rightarrow> database \<Rightarrow> saved list \<Rightarrow> bool" where
  "holds_records fs db rs \<longleftrightarrow> (case files fs (blocks_file db) of None \<Rightarrow> [] | Some bs \<Rightarrow> bs) = concat (map saved_record rs)
     \<and> (rs \<noteq> [] \<longrightarrow> files fs (blocks_file db) \<noteq> None) \<and> (\<forall>r \<in> set rs. arr32 (block_hash (fst r)))"

lemma blocks_file_neq_keys_file [simp]: "keys_file db \<noteq> blocks_file db"
  by (simp add: keys_file_def blocks_file_def)

lemma save_block_holds:
  assumes "m_opened db" "writable fs (blocks_file db)" "holds_records fs db rs" "arr32 (block_hash b)"
    and "save_block db fs b h d = (ok, fs')"
  shows "ok \<and> holds_records fs' db (rs @ [(b, h, d)]) \<and> writable fs' = writable fs
         \<and> files fs' (keys_file db) = files fs (keys_file db)"
  using assms by (auto simp: save_block_def holds_records_def append_file_def)

lemma load_chain_holds:
  assumes "m_opened db" "holds_records fs db rs" "rs \<noteq> []"
  shows "load_chain db fs bs ts cds spent
    = (True, bs @ map (on_disk \<circ> fst) rs, ts @ map (timestamp \<circ> fst) rs,
       cds @ running_sums 0 (map (snd \<circ> snd) rs), load_keys fs db spent)"
proof -
  obtain bs0 where "files fs (blocks_file db) = Some bs0" using assms by (auto simp: holds_records_def)
  with assms load_blocks_saved [of rs "[]" 0 bs ts cds] show ?thesis
    by (simp add: load_chain_def holds_records_def)
qed

fun save_all :: "database \<Rightarrow> filesystem \<Rightarrow> saved list \<Rightarrow> filesystem" where
  "save_all db fs [] = fs"
| "save_all db fs ((b, h, d) # rs) = save_all db (snd (save_block db fs b h d)) rs"

lemma save_all_holds:
  assumes "m_opened db" "writable fs (blocks_file db)" "holds_records fs db old"
    and "\<forall>r \<in> set rs. arr32 (block_hash (fst r))"
  shows "holds_records (save_all db fs rs) db (old @ rs)"
  using assms
proof (induction rs arbitrary: fs old)
  case (Cons r rs)
  obtain b h d where r: "r = (b, h, d)" by (cases r) auto
  obtain ok fs' where s: "save_block db fs b h d = (ok, fs')" by fastforce
  have "holds_records fs' db (old @ [(b, h, d)]) \<and> writable fs' = writable fs"
    using save_block_holds [OF Cons.prems(1-3) _ s] Cons.prems(4) r by simp
  with Cons.IH [of fs' "old @ [(b, h, d)]"] Cons.prems r s show ?case by simp
qed simp

text \<open>C31: Saving any nonempty list of blocks to an empty block file and loading the file returns, in order,
  every block's timestamp, nonce and hash and the running sums of the difficulties; everything else of
  a block (its previous hash, versions and transactions) comes back blank.\<close>

theorem save_load_roundtrip:
  assumes "m_opened db" "writable fs (blocks_file db)" "files fs (blocks_file db) = None"
    and "rs \<noteq> []" "\<forall>r \<in> set rs. arr32 (block_hash (fst r))"
  shows "load_chain db (save_all db fs rs) [] [] [] {}
    = (True, map (on_disk \<circ> fst) rs, map (timestamp \<circ> fst) rs, running_sums 0 (map (snd \<circ> snd) rs),
       load_keys (save_all db fs rs) db {})"
proof -
  have "holds_records fs db []" using assms(3) by (simp add: holds_records_def)
  then have "holds_records (save_all db fs rs) db ([] @ rs)"
    using assms by (intro save_all_holds)
  then show ?thesis using assms by (simp add: load_chain_holds)
qed

definition demo_db :: database where
  "demo_db = \<lparr>m_db_path = ''d'', m_opened = True\<rparr>"

definition demo_fs :: filesystem where
  "demo_fs = \<lparr>files = Map.empty, writable = (\<lambda>_. True)\<rparr>"

theorem save_load_roundtrip_witness:
  "load_chain demo_db (save_all demo_db demo_fs [(blank_block, 0, 5), (blank_block\<lparr>timestamp := 9\<rparr>, 1, 6)]) [] [] [] {}
   = (True, [blank_block, blank_block\<lparr>timestamp := 9\<rparr>], [0, 9], [5, 11], {})"
proof -
  let ?rs = "[(blank_block, 0, 5), (blank_block\<lparr>timestamp := 9\<rparr>, 1, 6)] :: saved list"
  have "load_keys (save_all demo_db demo_fs ?rs) demo_db {} = {}"
    by (simp add: load_keys_def save_block_def append_file_def demo_db_def demo_fs_def blocks_file_def keys_file_def)
  then show ?thesis
    using save_load_roundtrip [of demo_db demo_fs ?rs]
    by (simp add: demo_db_def demo_fs_def on_disk_def blank_block_def)
qed

text \<open>A record cut short by a crash is ignored: whatever fewer than 60 bytes follow the whole records,
  loading yields exactly the whole records.\<close>

theorem load_ignores_truncated_record:
  assumes "m_opened db" "files fs (blocks_file db) = Some (concat (map saved_record rs) @ tail)"
    and "length tail < 60" "\<forall>r \<in> set rs. arr32 (block_hash (fst r))"
  shows "load_chain db fs [] [] [] spent
    = (True, map (on_disk \<circ> fst) rs, map (timestamp \<circ> fst) rs, running_sums 0 (map (snd \<circ> snd) rs),
       load_keys fs db spent)"
  using assms load_blocks_saved [of rs tail 0 "[]" "[]" "[]"] by (simp add: load_chain_def)

theorem load_ignores_truncated_record_witness:
  "load_chain demo_db (demo_fs\<lparr>files := [''d/blocks.dat'' \<mapsto> block_record blank_block 0 5 @ [1, 2, 3]]\<rparr>) [] [] [] {}
   = (True, [blank_block], [0], [5], {})"
  using load_ignores_truncated_record
      [of demo_db "demo_fs\<lparr>files := [''d/blocks.dat'' \<mapsto> block_record blank_block 0 5 @ [1, 2, 3]]\<rparr>"
          "[(blank_block, 0, 5)]" "[1, 2, 3]" "{}"]
  by (simp add: demo_db_def demo_fs_def on_disk_def blank_block_def blocks_file_def
      keys_file_def load_keys_def)

section \<open>The store as its clients see it\<close>

text \<open>
  What a client of the database relies on: a store that holds a list of saved blocks still does after
  another save, with the block at the end, and loading returns the list's projection. The client
  keeps three vectors in step with it; \<open>mirrors\<close> says they are what a reload would rebuild.
\<close>

locale block_store =
  fixes holds :: "'s \<Rightarrow> saved list \<Rightarrow> bool"
    and save :: "'s \<Rightarrow> block \<Rightarrow> u64 \<Rightarrow> u64 \<Rightarrow> 's"
    and load :: "'s \<Rightarrow> block list \<times> u64 list \<times> u64 list"
  assumes save_law: "holds s rs \<Longrightarrow> arr32 (block_hash b) \<Longrightarrow> holds (save s b h d) (rs @ [(b, h, d)])"
    and load_law: "holds s rs \<Longrightarrow> rs \<noteq> [] \<Longrightarrow>
      load s = (map (on_disk \<circ> fst) rs, map (timestamp \<circ> fst) rs, running_sums 0 (map (snd \<circ> snd) rs))"
begin

definition mirrors :: "'s \<Rightarrow> block list \<Rightarrow> u64 list \<Rightarrow> u64 list \<Rightarrow> bool" where
  "mirrors s blocks ts cds \<longleftrightarrow> (\<exists>rs. holds s rs \<and> rs \<noteq> [] \<and> map (on_disk \<circ> fst) rs = map on_disk blocks
     \<and> ts = map (timestamp \<circ> fst) rs \<and> cds = running_sums 0 (map (snd \<circ> snd) rs))"

lemma mirrors_load: "mirrors s blocks ts cds \<Longrightarrow> load s = (map on_disk blocks, ts, cds)"
  by (auto simp: mirrors_def load_law)

lemma mirrors_first:
  "holds s [] \<Longrightarrow> arr32 (block_hash b) \<Longrightarrow> mirrors (save s b h d) [b] [timestamp b] [d]"
  using save_law [of s "[]" b h d] unfolding mirrors_def by (intro exI [of _ "[(b, h, d)]"]) simp

lemma mirrors_save:
  assumes "mirrors s blocks ts cds" "arr32 (block_hash b)"
  shows "mirrors (save s b h d) (blocks @ [b]) (ts @ [timestamp b]) (cds @ [last cds + d])"
proof -
  obtain rs where rs: "holds s rs" "rs \<noteq> []" "map (on_disk \<circ> fst) rs = map on_disk blocks"
    "ts = map (timestamp \<circ> fst) rs" "cds = running_sums 0 (map (snd \<circ> snd) rs)"
    using assms(1) by (auto simp: mirrors_def)
  have "cds \<noteq> []" using rs(2,5) by (metis length_0_conv length_map length_running_sums)
  then have "running_sums 0 (map (snd \<circ> snd) rs @ [d]) = cds @ [last cds + d]"
    using rs(5) by (simp add: running_sums_snoc)
  then show ?thesis
    using save_law [OF rs(1) assms(2), of h d] rs unfolding mirrors_def
    by (intro exI [of _ "rs @ [(b, h, d)]"]) simp
qed

end

definition disk_holds :: "database \<times> filesystem \<Rightarrow> saved list \<Rightarrow> bool" where
  "disk_holds s rs \<longleftrightarrow> m_opened (fst s) \<and> writable (snd s) (blocks_file (fst s)) \<and> holds_records (snd s) (fst s) rs"

definition disk_save :: "database \<times> filesystem \<Rightarrow> block \<Rightarrow> u64 \<Rightarrow> u64 \<Rightarrow> database \<times> filesystem" where
  "disk_save s b h d = (fst s, snd (save_block (fst s) (snd s) b h d))"

definition disk_load :: "database \<times> filesystem \<Rightarrow> block list \<times> u64 list \<times> u64 list" where
  "disk_load s = (let (_, bs, ts, cds, _) = load_chain (fst s) (snd s) [] [] [] {} in (bs, ts, cds))"

interpretation store: block_store disk_holds disk_save disk_load
proof
  fix s rs and b :: block and h d :: u64
  assume "disk_holds s rs" "arr32 (block_hash b)"
  then show "disk_holds (disk_save s b h d) (rs @ [(b, h, d)])"
    using save_block_holds [of "fst s" "snd s" rs b h d]
    by (cases "save_block (fst s) (snd s) b h d") (auto simp: disk_holds_def disk_save_def)
next
  fix s :: "database \<times> filesystem" and rs :: "saved list"
  assume "disk_holds s rs" "rs \<noteq> []"
  then show "disk_load s = (map (on_disk \<circ> fst) rs, map (timestamp \<circ> fst) rs, running_sums 0 (map (snd \<circ> snd) rs))"
    using load_chain_holds [of "fst s" "snd s" rs "[]" "[]" "[]" "{}"]
    by (simp add: disk_holds_def disk_load_def)
qed

end
