(* ===== verification/Blockchain.thy ===== *)
theory Blockchain
  imports RandomX TxPool Storage
begin

text \<open>
  src/cryptonote_core/blockchain.cpp and blockchain.h: the chain of a node. The record holds the
  members of class Blockchain and the two things its methods reach outside it, the file system and
  the RandomX singleton. The methods that change it (\<open>init\<close>, \<open>add_new_block\<close>, \<open>shutdown\<close>) run under
  \<open>m_chain_lock\<close>, so each is one atomic step; the readers take no lock and are modelled between steps.
  \<open>std::time(nullptr)\<close> is the argument \<open>now\<close>. Log lines and the \<open>_mkdir\<close> call are left out.
\<close>

record node =
  m_blocks :: "block list"
  m_timestamps :: "u64 list"
  m_cumulative_difficulties :: "u64 list"
  m_tx_pool :: tx_pool
  m_db :: database
  m_spent_key_images :: "string set"
  disk :: filesystem
  rx :: rx_state

definition new_node :: "filesystem \<Rightarrow> rx_state \<Rightarrow> node" where
  "new_node fs r = \<lparr>m_blocks = [], m_timestamps = [], m_cumulative_difficulties = [], m_tx_pool = empty_pool,
     m_db = new_database, m_spent_key_images = {}, disk = fs, rx = r\<rparr>"

definition genesis_block :: block where
  "genesis_block = blank_block\<lparr>major_version := 1, minor_version := 0, timestamp := GENESIS_TIMESTAMP,
     nonce := GENESIS_NONCE, prev_id := zeros32, block_hash := zeros32[0 := 0x00, 1 := 0x01, 2 := 0x02]\<rparr>"

definition chain_init :: "string \<Rightarrow> node \<Rightarrow> bool \<times> node" where
  "chain_init data_dir n =
     (let db = snd (db_open (m_db n) data_dir);
          (ok, bs, ts, cds, spent) = load_chain db (disk n) (m_blocks n) (m_timestamps n)
             (m_cumulative_difficulties n) (m_spent_key_images n);
          n1 = n\<lparr>m_db := db, m_blocks := bs, m_timestamps := ts, m_cumulative_difficulties := cds,
                 m_spent_key_images := spent\<rparr>;
          n2 = (if ok \<and> m_blocks n1 \<noteq> [] then n1
                else n1\<lparr>m_blocks := m_blocks n1 @ [genesis_block],
                        m_timestamps := m_timestamps n1 @ [timestamp genesis_block],
                        m_cumulative_difficulties := m_cumulative_difficulties n1 @ [1],
                        disk := snd (save_block db (disk n1) genesis_block 0 1)\<rparr>)
      in (True, n2\<lparr>rx := snd (init_dataset (rx n2))\<rparr>))"

definition get_current_height :: "node \<Rightarrow> u64" where
  "get_current_height n = of_nat (length (m_blocks n))"

definition get_current_difficulty :: "node \<Rightarrow> u64 result" where
  "get_current_difficulty n =
     next_difficulty_lwma3 (m_timestamps n) (m_cumulative_difficulties n)
       (of_nat DIFFICULTY_TARGET_V2) DIFFICULTY_WINDOW_V2"

definition get_current_seed_epoch :: "node \<Rightarrow> u64" where
  "get_current_seed_epoch n = get_current_height n div of_nat SEED_HASH_EPOCH_BLOCKS"

section \<open>Validating a transaction\<close>

fun verify_inputs :: "string set \<Rightarrow> txin_to_key list \<Rightarrow> bool" where
  "verify_inputs spent [] = True"
| "verify_inputs spent (i # is) =
     (if length (key_offsets i) \<noteq> CRYPTONOTE_MINIMUM_MIXIN_V3 + 1 then False
      else if concat (map byte_hex (k_image i)) \<in> spent then False
      else verify_inputs spent is)"

definition verify_transaction :: "node \<Rightarrow> transaction \<Rightarrow> u64 \<Rightarrow> bool" where
  "verify_transaction n tx current_height =
     (if vin tx = [] \<or> vout tx = [] then False
      else if rct_type (rct tx) \<noteq> 6 \<or> bulletproof_plus_bytes (rct tx) = [] \<or> clsag_signatures (rct tx) = [] then False
      else verify_inputs (m_spent_key_images n) (vin tx))"

lemma verify_inputs_nothing_spent: "verify_inputs {} is \<longleftrightarrow> (\<forall>i \<in> set is. length (key_offsets i) = 16)"
  by (induction "is") (auto simp: CRYPTONOTE_MINIMUM_MIXIN_V3_def)

lemma verify_nothing_spent:
  "m_spent_key_images n = {} \<Longrightarrow> verify_transaction n tx h \<longleftrightarrow> admissible tx"
  by (auto simp: verify_transaction_def admissible_def missing_proofs_def verify_inputs_nothing_spent)

section \<open>Adding a block\<close>

text \<open>
  Lines 141-159: the state after a block has passed every test. The log line's read of
  \<open>m_timestamps[current_height - 1]\<close> is left out with the line: every reachable node has a timestamp per
  block (\<open>chain_inv\<close>), so it is in bounds there.
\<close>

definition commit_block :: "block \<Rightarrow> u64 \<Rightarrow> node \<Rightarrow> node" where
  "commit_block b diff n =
     (let height = get_current_height n;
          n1 = n\<lparr>m_blocks := m_blocks n @ [b],
                 m_timestamps := m_timestamps n @ [timestamp b],
                 m_cumulative_difficulties :=
                   m_cumulative_difficulties n @ [last (m_cumulative_difficulties n) + diff],
                 disk := snd (save_block (m_db n) (disk n) b height diff),
                 m_tx_pool := remove_txs (m_tx_pool n) (tx_hashes b)\<rparr>
      in if (height + of_nat SEED_HASH_LAG_BLOCKS) mod of_nat SEED_HASH_EPOCH_BLOCKS = 0
         then n1\<lparr>rx := preallocate_next_epoch (rx n1)\<rparr> else n1)"

text \<open>The returned flag, the out-parameter \<open>diff\<close> (given its incoming value) and the state.\<close>

definition add_new_block :: "u64 \<Rightarrow> node \<Rightarrow> block \<Rightarrow> u64 \<Rightarrow> (bool \<times> u64 \<times> node) result" where
  "add_new_block now n b diff0 =
     (if m_blocks n = [] then Inr (False, diff0, n)
      else let top = last (m_blocks n) in
        if prev_id b \<noteq> block_hash top then Inr (False, diff0, n)
        else if timestamp b \<le> timestamp top then Inr (False, diff0, n)
        else if timestamp b > now + of_nat CRYPTONOTE_BLOCK_FUTURE_TIME_LIMIT then Inr (False, diff0, n)
        else bindr (get_current_difficulty n) (\<lambda>diff.
          let (_, pow_hash, rx') = calculate_hash (rx n) (block_hash b); n' = n\<lparr>rx := rx'\<rparr> in
          if \<not> check_pow_hash pow_hash diff then Inr (False, diff, n')
          else if m_cumulative_difficulties n = [] then Inl OutOfBounds
          else Inr (True, diff, commit_block b diff n')))"

definition chain_shutdown :: "node \<Rightarrow> node" where
  "chain_shutdown n = n\<lparr>m_db := db_close (m_db n), rx := rx_shutdown (rx n)\<rparr>"

lemma commit_block_simps [simp]:
  "m_blocks (commit_block b d n) = m_blocks n @ [b]"
  "m_timestamps (commit_block b d n) = m_timestamps n @ [timestamp b]"
  "m_cumulative_difficulties (commit_block b d n) = m_cumulative_difficulties n @ [last (m_cumulative_difficulties n) + d]"
  "m_tx_pool (commit_block b d n) = remove_txs (m_tx_pool n) (tx_hashes b)"
  "m_db (commit_block b d n) = m_db n"
  "m_spent_key_images (commit_block b d n) = m_spent_key_images n"
  "disk (commit_block b d n) = snd (save_block (m_db n) (disk n) b (get_current_height n) d)"
  "rx (commit_block b d n) = rx n"
  by (simp_all add: commit_block_def Let_def preallocate_next_epoch_def)

text \<open>The tests a block must pass, and the two ways a call can end.\<close>

definition block_passes :: "u64 \<Rightarrow> node \<Rightarrow> block \<Rightarrow> u64 \<Rightarrow> bool" where
  "block_passes now n b diff \<longleftrightarrow> m_blocks n \<noteq> [] \<and> prev_id b = block_hash (last (m_blocks n))
     \<and> timestamp (last (m_blocks n)) < timestamp b
     \<and> timestamp b \<le> now + of_nat CRYPTONOTE_BLOCK_FUTURE_TIME_LIMIT
     \<and> get_current_difficulty n = Inr diff \<and> check_pow_hash (rx_mix (block_hash b)) diff"

lemma add_new_block_cases:
  assumes "add_new_block now n b d0 = Inr (ok, d, n')"
  obtains (rejected) "\<not> ok" "\<exists>r. n' = n\<lparr>rx := r\<rparr>" "\<And>e. \<not> block_passes now n b e"
  | (accepted) r where "ok" "block_passes now n b d" "m_cumulative_difficulties n \<noteq> []"
      "n' = commit_block b d (n\<lparr>rx := r\<rparr>)"
proof (cases ok)
  case True
  with assms show ?thesis
    by (intro accepted [of "snd (snd (calculate_hash (rx n) (block_hash b)))"])
       (auto simp: add_new_block_def block_passes_def Let_def bindr_Inr_iff calculate_hash_def not_le not_less
          split: if_splits)
next
  case False
  have "n' = n \<or> (\<exists>r. n' = n\<lparr>rx := r\<rparr>)"
    using assms False
    by (auto simp: add_new_block_def Let_def bindr_Inr_iff calculate_hash_def split: if_splits)
  then have "\<exists>r. n' = n\<lparr>rx := r\<rparr>"
    by (metis node.surjective node.update_convs(8) old.unit.exhaust)
  moreover have "\<not> block_passes now n b e" for e
    using assms False
    by (auto simp: add_new_block_def block_passes_def Let_def bindr_Inr_iff calculate_hash_def split: if_splits)
  ultimately show ?thesis using False rejected by blast
qed


section \<open>Runs of a node\<close>

text \<open>What can happen to the chain while the daemon runs: a block is offered, a transaction reaches the pool.\<close>

inductive chain_step :: "node \<Rightarrow> node \<Rightarrow> bool" where
  block_offered: "arr32 (block_hash b) \<Longrightarrow> add_new_block now n b d0 = Inr (ok, d, n') \<Longrightarrow> chain_step n n'"
| tx_offered: "fee_sort srt \<Longrightarrow> add_tx srt now (m_tx_pool n) tx reason = (ok, reason', p) \<Longrightarrow> chain_step n (n\<lparr>m_tx_pool := p\<rparr>)"

inductive_cases chain_stepE: "chain_step n n'"

definition fresh_disk :: "filesystem \<Rightarrow> string \<Rightarrow> bool" where
  "fresh_disk fs dir \<longleftrightarrow> files fs (dir @ ''/blocks.dat'') = None \<and> files fs (dir @ ''/key_images.dat'') = None
     \<and> writable fs (dir @ ''/blocks.dat'')"

definition boot :: "filesystem \<Rightarrow> rx_state \<Rightarrow> string \<Rightarrow> node" where
  "boot fs r dir = snd (chain_init dir (new_node fs r))"

inductive running :: "string \<Rightarrow> node \<Rightarrow> bool" for dir where
  booted: "fresh_disk fs dir \<Longrightarrow> running dir (boot fs r dir)"
| stepped: "running dir n \<Longrightarrow> chain_step n n' \<Longrightarrow> running dir n'"

definition linked :: "block list \<Rightarrow> bool" where
  "linked bs \<longleftrightarrow> (\<forall>i. Suc i < length bs \<longrightarrow>
     prev_id (bs ! Suc i) = block_hash (bs ! i) \<and> timestamp (bs ! i) < timestamp (bs ! Suc i))"

lemma linked_snoc:
  "linked bs \<Longrightarrow> bs \<noteq> [] \<Longrightarrow> prev_id b = block_hash (last bs) \<Longrightarrow> timestamp (last bs) < timestamp b \<Longrightarrow>
   linked (bs @ [b])"
proof (unfold linked_def, intro allI impI)
  fix i
  assume l: "\<forall>i. Suc i < length bs \<longrightarrow>
     prev_id (bs ! Suc i) = block_hash (bs ! i) \<and> timestamp (bs ! i) < timestamp (bs ! Suc i)"
    and e: "bs \<noteq> []" "prev_id b = block_hash (last bs)" "timestamp (last bs) < timestamp b"
    and i: "Suc i < length (bs @ [b])"
  show "prev_id ((bs @ [b]) ! Suc i) = block_hash ((bs @ [b]) ! i)
    \<and> timestamp ((bs @ [b]) ! i) < timestamp ((bs @ [b]) ! Suc i)"
  proof (cases "Suc i < length bs")
    case True
    with l show ?thesis by (simp add: nth_append)
  next
    case False
    then have "Suc i = length bs" using i by simp
    then have "i = length bs - 1" "i < length bs" by auto
    with e \<open>Suc i = length bs\<close> show ?thesis by (simp add: nth_append last_conv_nth)
  qed
qed

definition chain_inv :: "node \<Rightarrow> bool" where
  "chain_inv n \<longleftrightarrow> m_blocks n \<noteq> [] \<and> hd (m_blocks n) = genesis_block
     \<and> m_timestamps n = map timestamp (m_blocks n)
     \<and> length (m_cumulative_difficulties n) = length (m_blocks n)
     \<and> linked (m_blocks n) \<and> m_spent_key_images n = {}"

definition persisted :: "string \<Rightarrow> node \<Rightarrow> bool" where
  "persisted dir n \<longleftrightarrow> m_opened (m_db n) \<and> m_db_path (m_db n) = dir \<and> files (disk n) (dir @ ''/key_images.dat'') = None
     \<and> store.mirrors (m_db n, disk n) (m_blocks n) (m_timestamps n) (m_cumulative_difficulties n)"

lemma arr32_genesis [simp]: "arr32 (block_hash genesis_block)"
  by (simp add: genesis_block_def arr32_def zeros32_def)

lemma load_chain_fresh:
  "fresh_disk fs dir \<Longrightarrow> load_chain \<lparr>m_db_path = dir, m_opened = True\<rparr> fs [] [] [] {} = (False, [], [], [], {})"
  by (simp add: load_chain_def fresh_disk_def blocks_file_def)

lemma boot_fresh:
  assumes "fresh_disk fs dir"
  shows "boot fs r dir = \<lparr>m_blocks = [genesis_block], m_timestamps = [timestamp genesis_block],
    m_cumulative_difficulties = [1], m_tx_pool = empty_pool, m_db = \<lparr>m_db_path = dir, m_opened = True\<rparr>,
    m_spent_key_images = {}, disk = snd (save_block \<lparr>m_db_path = dir, m_opened = True\<rparr> fs genesis_block 0 1),
    rx = snd (init_dataset r)\<rparr>"
  using load_chain_fresh [OF assms]
  by (simp add: boot_def chain_init_def new_node_def new_database_def db_open_def Let_def)

lemma boot_chain_inv: "fresh_disk fs dir \<Longrightarrow> chain_inv (boot fs r dir)"
  by (simp add: chain_inv_def boot_fresh linked_def)

lemma disk_save_eq [simp]: "snd (disk_save (db, fs) b h d) = snd (save_block db fs b h d)"
  "fst (disk_save (db, fs) b h d) = db"
  by (simp_all add: disk_save_def)

lemma save_block_keys_file [simp]:
  "files (snd (save_block db fs b h d)) (m_db_path db @ ''/key_images.dat'') = files fs (m_db_path db @ ''/key_images.dat'')"
  by (simp add: save_block_def append_file_def blocks_file_def)

lemma boot_persisted:
  assumes "fresh_disk fs dir"
  shows "persisted dir (boot fs r dir)"
proof -
  let ?db = "\<lparr>m_db_path = dir, m_opened = True\<rparr>"
  have "disk_holds (?db, fs) []"
    using assms by (simp add: disk_holds_def fresh_disk_def holds_records_def blocks_file_def)
  then have "store.mirrors (disk_save (?db, fs) genesis_block 0 1) [genesis_block] [timestamp genesis_block] [1]"
    by (intro store.mirrors_first) simp_all
  moreover have "disk_save (?db, fs) genesis_block 0 1 = (?db, snd (save_block ?db fs genesis_block 0 1))"
    by (simp add: disk_save_def)
  moreover have "files (snd (save_block ?db fs genesis_block 0 1)) (dir @ ''/key_images.dat'') = None"
    using assms save_block_keys_file [of ?db] by (simp add: fresh_disk_def)
  ultimately show ?thesis using assms by (simp add: persisted_def boot_fresh)
qed

lemma commit_persisted:
  assumes "persisted dir n" "arr32 (block_hash b)"
  shows "persisted dir (commit_block b d (n\<lparr>rx := r\<rparr>))"
proof -
  have "store.mirrors (disk_save (m_db n, disk n) b (get_current_height n) d) (m_blocks n @ [b])
      (m_timestamps n @ [timestamp b]) (m_cumulative_difficulties n @ [last (m_cumulative_difficulties n) + d])"
    using assms by (intro store.mirrors_save) (simp_all add: persisted_def)
  then show ?thesis
    using assms(1) save_block_keys_file [of "m_db n"]
    by (simp add: persisted_def disk_save_def get_current_height_def)
qed

lemma chain_step_keeps:
  assumes "chain_step n n'" "chain_inv n" "persisted dir n"
  shows "chain_inv n' \<and> persisted dir n'"
  using assms(1)
proof cases
  case (block_offered b now d0 ok d)
  from block_offered(2) show ?thesis
  proof (cases rule: add_new_block_cases)
    case rejected
    with assms(2,3) show ?thesis by (auto simp: chain_inv_def persisted_def)
  next
    case (accepted r)
    have "persisted dir n'" using commit_persisted [OF assms(3) block_offered(1)] accepted(4) by simp
    moreover have "chain_inv n'"
      using accepted assms(2) linked_snoc [of "m_blocks n" b]
      by (auto simp: chain_inv_def block_passes_def)
    ultimately show ?thesis by simp
  qed
next
  case (tx_offered srt now tx reason ok reason' p)
  with assms(2,3) show ?thesis by (simp add: chain_inv_def persisted_def)
qed

lemma running_inv: "running dir n \<Longrightarrow> chain_inv n \<and> persisted dir n"
  by (induction rule: running.induct) (auto simp: boot_chain_inv boot_persisted dest: chain_step_keeps)


section \<open>Properties of the chain\<close>

text \<open>C1: A call to add_new_block that returns accepts the block exactly when it extends the tip by hash, is
  younger than the tip, is at most two hours in the future and its hash meets the current
  difficulty; acceptance appends the block, its timestamp and the summed difficulty and takes its
  transactions out of the pool, and rejection leaves everything but the RandomX engine alone.\<close>

theorem add_new_block_spec:
  assumes "add_new_block now n b d0 = Inr (ok, d, n')"
  shows "(ok \<longleftrightarrow> (\<exists>e. block_passes now n b e))
     \<and> (ok \<longrightarrow> get_current_difficulty n = Inr d \<and> m_blocks n' = m_blocks n @ [b]
          \<and> m_timestamps n' = m_timestamps n @ [timestamp b]
          \<and> m_cumulative_difficulties n' = m_cumulative_difficulties n @ [last (m_cumulative_difficulties n) + d]
          \<and> m_mempool (m_tx_pool n') = filter (\<lambda>e. tx_hash (pe_tx e) \<notin> set (tx_hashes b)) (m_mempool (m_tx_pool n))
          \<and> disk n' = snd (save_block (m_db n) (disk n) b (get_current_height n) d)
          \<and> m_spent_key_images n' = m_spent_key_images n)
     \<and> (\<not> ok \<longrightarrow> (\<exists>r. n' = n\<lparr>rx := r\<rparr>))"
  using assms
proof (cases rule: add_new_block_cases)
  case rejected
  then show ?thesis by simp
next
  case (accepted r)
  then have "get_current_difficulty n = Inr d" by (simp add: block_passes_def)
  with accepted show ?thesis by (auto simp: remove_txs_def get_current_height_def)
qed

definition demo_node :: node where
  "demo_node = boot demo_fs rx_initial ''d''"

definition demo_block :: block where
  "demo_block = blank_block\<lparr>prev_id := block_hash genesis_block, timestamp := timestamp genesis_block + 150,
     block_hash := free_hash\<rparr>"

lemma demo_fresh [simp]: "fresh_disk demo_fs ''d''"
  by (simp add: fresh_disk_def demo_fs_def)

lemma demo_difficulty [simp]: "get_current_difficulty demo_node = Inr 1"
  by (simp add: demo_node_def boot_fresh get_current_difficulty_def next_difficulty_lwma3_def)

lemma demo_block_fields [simp]:
  "block_hash demo_block = free_hash" "prev_id demo_block = block_hash genesis_block"
  "timestamp demo_block = 1788462076" "tx_hashes demo_block = []"
  by (simp_all add: demo_block_def genesis_block_def blank_block_def GENESIS_TIMESTAMP_def)

lemma timestamp_genesis: "timestamp genesis_block = 1788461926"
  by (simp add: genesis_block_def GENESIS_TIMESTAMP_def)

lemma demo_blocks [simp]: "m_blocks demo_node = [genesis_block]" "m_cumulative_difficulties demo_node = [1]"
  by (simp_all add: demo_node_def boot_fresh)

lemma demo_accepted:
  "add_new_block 1788462000 demo_node demo_block 0
   = Inr (True, 1, commit_block demo_block 1 (demo_node\<lparr>rx := snd (snd (calculate_hash (rx demo_node) free_hash))\<rparr>))"
  by (simp add: add_new_block_def Let_def timestamp_genesis calculate_hash_def free_hash_passes config_defs)

theorem add_new_block_spec_witness:
  "m_blocks (commit_block demo_block 1 (demo_node\<lparr>rx := snd (snd (calculate_hash (rx demo_node) free_hash))\<rparr>))
   = [genesis_block, demo_block]"
  using add_new_block_spec [OF demo_accepted] by simp

lemma demo_running:
  "running ''d'' (commit_block demo_block 1 (demo_node\<lparr>rx := snd (snd (calculate_hash (rx demo_node) free_hash))\<rparr>))"
  (is "running _ ?n")
proof -
  have "running ''d'' demo_node" unfolding demo_node_def by (rule running.booted) simp
  moreover have "chain_step demo_node ?n"
    by (rule chain_step.block_offered [OF _ demo_accepted]) simp
  ultimately show ?thesis by (rule running.stepped)
qed

text \<open>However blocks and transactions arrive, a node started on an empty directory keeps a chain: it
  begins with the genesis block, every block names its predecessor's hash and is younger than it,
  and the timestamp and difficulty vectors run along the blocks.\<close>

theorem running_chain_linked:
  assumes "running dir n"
  shows "m_blocks n \<noteq> [] \<and> hd (m_blocks n) = genesis_block
     \<and> (\<forall>i. Suc i < length (m_blocks n) \<longrightarrow> prev_id (m_blocks n ! Suc i) = block_hash (m_blocks n ! i)
          \<and> timestamp (m_blocks n ! i) < timestamp (m_blocks n ! Suc i))
     \<and> m_timestamps n = map timestamp (m_blocks n)
     \<and> length (m_cumulative_difficulties n) = length (m_blocks n)"
  using running_inv [OF assms] by (simp add: chain_inv_def linked_def)

theorem running_chain_linked_witness:
  "prev_id ([genesis_block, demo_block] ! 1) = block_hash ([genesis_block, demo_block] ! 0)"
  using running_chain_linked [OF demo_running] by (simp del: demo_block_fields)

text \<open>Shutting a node down and starting it again on the same directory restores the history that consensus
  reads: the timestamps and cumulative difficulties, hence the current difficulty, the height and
  the seed epoch, and the blocks up to the fields that are stored.\<close>

theorem restart_preserves_history:
  assumes "running dir n"
  shows "m_timestamps (boot (disk (chain_shutdown n)) r dir) = m_timestamps n
     \<and> m_cumulative_difficulties (boot (disk (chain_shutdown n)) r dir) = m_cumulative_difficulties n
     \<and> m_blocks (boot (disk (chain_shutdown n)) r dir) = map on_disk (m_blocks n)
     \<and> get_current_difficulty (boot (disk (chain_shutdown n)) r dir) = get_current_difficulty n
     \<and> get_current_height (boot (disk (chain_shutdown n)) r dir) = get_current_height n
     \<and> disk (boot (disk (chain_shutdown n)) r dir) = disk n"
proof -
  let ?db = "\<lparr>m_db_path = dir, m_opened = True\<rparr>"
  have inv: "chain_inv n" "persisted dir n" using running_inv [OF assms] by simp_all
  then have db: "m_db n = ?db" by (cases "m_db n") (simp add: persisted_def)
  have "store.mirrors (?db, disk n) (m_blocks n) (m_timestamps n) (m_cumulative_difficulties n)"
    using inv(2) by (simp add: persisted_def db)
  then have "disk_load (?db, disk n) = (map on_disk (m_blocks n), m_timestamps n, m_cumulative_difficulties n)"
    by (rule store.mirrors_load)
  then obtain ok spent where l: "load_chain ?db (disk n) [] [] [] {}
      = (ok, map on_disk (m_blocks n), m_timestamps n, m_cumulative_difficulties n, spent)"
    by (auto simp: disk_load_def split: prod.splits)
  moreover have "m_blocks n \<noteq> []" using inv(1) by (simp add: chain_inv_def)
  then have "ok" using l by (auto simp: load_chain_def split: option.splits prod.splits)
  ultimately show ?thesis using \<open>m_blocks n \<noteq> []\<close>
    by (simp add: boot_def chain_init_def new_node_def new_database_def db_open_def chain_shutdown_def
        get_current_difficulty_def get_current_height_def)
qed

theorem restart_preserves_history_witness:
  "m_timestamps (boot (disk (chain_shutdown
      (commit_block demo_block 1 (demo_node\<lparr>rx := snd (snd (calculate_hash (rx demo_node) free_hash))\<rparr>)))) rx_initial ''d'')
   = [1788461926, 1788462076]"
  using restart_preserves_history [OF demo_running, of rx_initial]
  by (simp add: demo_node_def boot_fresh timestamp_genesis)

text \<open>No block ever puts a key image on the chain's spent list, so the double-spend test never fires: in
  every state a node reaches, a transaction is valid exactly when its shape is, and offering it
  again after any further steps gives the same verdict.\<close>

theorem double_spend_test_never_fires:
  assumes "running dir n"
  shows "verify_transaction n tx h \<longleftrightarrow> admissible tx"
  using running_inv [OF assms] by (intro verify_nothing_spent) (simp add: chain_inv_def)

theorem double_spend_test_never_fires_witness:
  "verify_transaction (commit_block demo_block 1 (demo_node\<lparr>rx := snd (snd (calculate_hash (rx demo_node) free_hash))\<rparr>))
     (demo_tx 1 5) 2"
  using double_spend_test_never_fires [OF demo_running, of "demo_tx 1 5" 2]
  by (simp add: admissible_def missing_proofs_def demo_defs)

text \<open>The proof of work does not bind a block's contents: one fixed 32-byte hash field is accepted at every
  positive difficulty, for any transactions, nonce and versions, on any tip.\<close>

theorem fixed_hash_always_accepted:
  assumes "m_blocks n \<noteq> []" "m_cumulative_difficulties n \<noteq> []" "get_current_difficulty n = Inr d" "d \<noteq> 0"
    and "prev_id b = block_hash (last (m_blocks n))" "timestamp (last (m_blocks n)) < timestamp b"
    and "timestamp b \<le> now + 7200"
  shows "\<exists>n'. add_new_block now n (b\<lparr>block_hash := free_hash\<rparr>) d0 = Inr (True, d, n')
     \<and> m_blocks n' = m_blocks n @ [b\<lparr>block_hash := free_hash\<rparr>]"
proof -
  have "\<not> timestamp b \<le> timestamp (last (m_blocks n))" "\<not> timestamp b > now + 7200" using assms(6,7) by auto
  with assms show ?thesis
    by (simp add: add_new_block_def Let_def calculate_hash_def free_hash_passes config_defs)
qed

theorem fixed_hash_always_accepted_witness:
  "\<exists>n'. add_new_block 1788462000 demo_node (demo_block\<lparr>nonce := 77, block_hash := free_hash\<rparr>) 0 = Inr (True, 1, n')
     \<and> m_blocks n' = [genesis_block, demo_block\<lparr>nonce := 77, block_hash := free_hash\<rparr>]"
  using fixed_hash_always_accepted [of demo_node 1 "demo_block\<lparr>nonce := 77\<rparr>" 1788462000 0]
  by (simp add: timestamp_genesis)

text \<open>On a running node whose timestamps fit 63 bits and whose window carries less than 2^59 work, offering
  a block always returns a verdict: no undefined behaviour is reachable from the handler.\<close>

theorem add_new_block_returns:
  assumes "running dir n" "\<forall>t \<in> set (m_timestamps n). unat t < 2 ^ 63"
    and "unat (window_work (m_cumulative_difficulties n)) < 2 ^ 59"
  shows "\<exists>ok d n'. add_new_block now n b d0 = Inr (ok, d, n')"
proof -
  let ?ts = "m_timestamps n" and ?cds = "m_cumulative_difficulties n"
  have len: "length ?ts = length ?cds" "?cds \<noteq> []"
    using running_inv [OF assms(1)] by (auto simp: chain_inv_def)
  have "\<exists>d. get_current_difficulty n = Inr d"
  proof (cases "length ?ts < 2")
    case True
    then show ?thesis by (simp add: get_current_difficulty_def next_difficulty_lwma3_def)
  next
    case False
    then have "regular ?ts ?cds (of_nat DIFFICULTY_TARGET_V2)"
      using assms(2) len by (simp add: regular_def DIFFICULTY_TARGET_V2_def)
    from lwma_defined_aux [OF this assms(3), of DIFFICULTY_WINDOW_V2] show ?thesis
      unfolding get_current_difficulty_def by blast
  qed
  then obtain d where "get_current_difficulty n = Inr d" ..
  then show ?thesis using len(2) by (auto simp: add_new_block_def Let_def calculate_hash_def)
qed

theorem add_new_block_returns_witness:
  "\<exists>ok d n'. add_new_block 5
     (commit_block demo_block 1 (demo_node\<lparr>rx := snd (snd (calculate_hash (rx demo_node) free_hash))\<rparr>))
     blank_block 0 = Inr (ok, d, n')"
  using add_new_block_returns [OF demo_running]
  by (simp add: demo_node_def boot_fresh timestamp_genesis window_work_def window_def)

end
