(* ===== verification/Restart.thy ===== *)
theory Restart
  imports Blockchain
begin

text \<open>
  The whole life of a node's data directory: started on an empty one, offered blocks and
  transactions, shut down and started again any number of times. Shows what survives a restart, that
  consensus cannot tell a restarted node from one that kept running, that the chain can always grow,
  and that history is final.
\<close>

lemma boot_again:
  assumes "persisted dir n" "m_blocks n \<noteq> []"
  shows "boot (disk (chain_shutdown n)) r dir = \<lparr>m_blocks = map on_disk (m_blocks n), m_timestamps = m_timestamps n,
    m_cumulative_difficulties = m_cumulative_difficulties n, m_tx_pool = empty_pool, m_db = m_db n,
    m_spent_key_images = {}, disk = disk n, rx = snd (init_dataset r)\<rparr>"
proof -
  let ?db = "\<lparr>m_db_path = dir, m_opened = True\<rparr>"
  have db: "m_db n = ?db" using assms(1) by (cases "m_db n") (simp add: persisted_def)
  have "store.mirrors (?db, disk n) (m_blocks n) (m_timestamps n) (m_cumulative_difficulties n)"
    using assms(1) by (simp add: persisted_def db)
  then have "disk_load (?db, disk n) = (map on_disk (m_blocks n), m_timestamps n, m_cumulative_difficulties n)"
    by (rule store.mirrors_load)
  then obtain ok spent where l: "load_chain ?db (disk n) [] [] [] {}
      = (ok, map on_disk (m_blocks n), m_timestamps n, m_cumulative_difficulties n, spent)"
    by (auto simp: disk_load_def split: prod.splits)
  moreover have "ok" using l assms(2) by (auto simp: load_chain_def split: option.splits prod.splits)
  moreover have "spent = {}"
    using l assms(1) \<open>ok\<close> by (auto simp: load_chain_def load_keys_def persisted_def keys_file_def split: option.splits prod.splits)
  ultimately show ?thesis using assms(2)
    by (simp add: boot_def chain_init_def new_node_def new_database_def db_open_def chain_shutdown_def db)
qed

lemma mirrors_on_disk: "store.mirrors s bs ts cds \<Longrightarrow> store.mirrors s (map on_disk bs) ts cds"
  by (auto simp: store.mirrors_def)

lemma boot_again_persisted:
  assumes "persisted dir n" "m_blocks n \<noteq> []"
  shows "persisted dir (boot (disk (chain_shutdown n)) r dir)"
  using assms(1) mirrors_on_disk unfolding boot_again [OF assms] by (simp add: persisted_def)

section \<open>The life of a data directory\<close>

inductive lifetime :: "string \<Rightarrow> node \<Rightarrow> bool" for dir where
  first_start: "fresh_disk fs dir \<Longrightarrow> lifetime dir (boot fs r dir)"
| step: "lifetime dir n \<Longrightarrow> chain_step n n' \<Longrightarrow> lifetime dir n'"
| restart: "lifetime dir n \<Longrightarrow> lifetime dir (boot (disk (chain_shutdown n)) r dir)"

definition history_inv :: "node \<Rightarrow> bool" where
  "history_inv n \<longleftrightarrow> m_blocks n \<noteq> [] \<and> block_hash (hd (m_blocks n)) = block_hash genesis_block
     \<and> m_timestamps n = map timestamp (m_blocks n) \<and> sorted_wrt (<) (map timestamp (m_blocks n))
     \<and> length (m_cumulative_difficulties n) = length (m_blocks n) \<and> m_spent_key_images n = {}
     \<and> pool_inv (m_tx_pool n)"

lemma sorted_le_last: "sorted_wrt (<) xs \<Longrightarrow> x \<in> set xs \<Longrightarrow> x \<le> last (xs :: u64 list)"
  by (induction xs rule: rev_induct) (auto simp: sorted_wrt_append)

lemma chain_step_history:
  assumes "chain_step n n'" "history_inv n" "persisted dir n"
  shows "history_inv n' \<and> persisted dir n'"
  using assms(1)
proof cases
  case (block_offered b now d0 ok d)
  from block_offered(2) show ?thesis
  proof (cases rule: add_new_block_cases)
    case rejected
    with assms(2,3) show ?thesis by (auto simp: history_inv_def persisted_def)
  next
    case (accepted r)
    have "timestamp (last (m_blocks n)) < timestamp b" using accepted(2) by (simp add: block_passes_def)
    then have "\<forall>t \<in> set (map timestamp (m_blocks n)). t < timestamp b"
      using assms(2) sorted_le_last [of "map timestamp (m_blocks n)"]
      by (auto simp: history_inv_def last_map intro: le_less_trans)
    then have "history_inv n'"
      using accepted(4) assms(2) remove_txs_keeps_inv by (simp add: history_inv_def sorted_wrt_append)
    moreover have "persisted dir n'" using commit_persisted [OF assms(3) block_offered(1)] accepted(4) by (auto simp: persisted_def)
    ultimately show ?thesis by simp
  qed
next
  case (tx_offered srt now tx reason ok reason' p)
  with assms(2,3) show ?thesis using fee_sort.add_keeps_inv [OF tx_offered(2) _ tx_offered(3)]
    by (auto simp: history_inv_def persisted_def)
qed

lemma lifetime_inv: "lifetime dir n \<Longrightarrow> history_inv n \<and> persisted dir n"
proof (induction rule: lifetime.induct)
  case (first_start fs r)
  then show ?case by (simp add: boot_persisted) (simp add: boot_fresh history_inv_def)
next
  case (step n n')
  then show ?case using chain_step_history by blast
next
  case (restart n r)
  then have i: "history_inv n" "persisted dir n" "m_blocks n \<noteq> []" by (auto simp: history_inv_def)
  then have "history_inv (boot (disk (chain_shutdown n)) r dir)"
    unfolding boot_again [OF i(2,3)] by (simp add: history_inv_def hd_map comp_def)
  then show ?case using boot_again_persisted [OF i(2,3)] by simp
qed

text \<open>C4: Whatever happens to a data directory from its first start on (blocks offered, transactions offered,
  restarts, in any order), the node keeps its history: the chain begins at the genesis hash, timestamps
  strictly increase, the timestamp and difficulty vectors run along the blocks, the pool keeps its
  invariant, and the database is open on the directory.\<close>

theorem lifetime_keeps_history:
  assumes "lifetime dir n"
  shows "m_blocks n \<noteq> [] \<and> block_hash (hd (m_blocks n)) = block_hash genesis_block
     \<and> m_timestamps n = map timestamp (m_blocks n)
     \<and> (\<forall>i j. i < j \<and> j < length (m_blocks n) \<longrightarrow> timestamp (m_blocks n ! i) < timestamp (m_blocks n ! j))
     \<and> length (m_cumulative_difficulties n) = length (m_blocks n)
     \<and> pool_inv (m_tx_pool n) \<and> m_opened (m_db n) \<and> m_db_path (m_db n) = dir"
  using lifetime_inv [OF assms] by (simp add: history_inv_def persisted_def sorted_wrt_iff_nth_less)

lemma demo_alive: "lifetime ''d'' demo_node"
  unfolding demo_node_def by (rule lifetime.first_start) simp

lemma demo_one_block:
  "lifetime ''d'' (commit_block demo_block 1 (demo_node\<lparr>rx := snd (snd (calculate_hash (rx demo_node) free_hash))\<rparr>))"
  by (rule lifetime.step [OF demo_alive], rule chain_step.block_offered [OF _ demo_accepted]) simp

lemma demo_lifetime:
  "lifetime ''d'' (boot (disk (chain_shutdown
     (commit_block demo_block 1 (demo_node\<lparr>rx := snd (snd (calculate_hash (rx demo_node) free_hash))\<rparr>)))) r ''d'')"
  by (rule lifetime.restart [OF demo_one_block])

theorem lifetime_keeps_history_witness:
  "pool_inv (m_tx_pool (boot (disk (chain_shutdown
     (commit_block demo_block 1 (demo_node\<lparr>rx := snd (snd (calculate_hash (rx demo_node) free_hash))\<rparr>)))) rx_initial ''d''))"
  using lifetime_keeps_history [OF demo_lifetime] by blast

section \<open>A restarted node behaves the same\<close>

text \<open>What the two nodes share: all that \<open>add_new_block\<close> reads of the history.\<close>

definition same_history :: "node \<Rightarrow> node \<Rightarrow> bool" where
  "same_history n n' \<longleftrightarrow> map on_disk (m_blocks n) = map on_disk (m_blocks n') \<and> m_timestamps n = m_timestamps n'
     \<and> m_cumulative_difficulties n = m_cumulative_difficulties n'"

lemma same_history_height: "same_history n n' \<Longrightarrow> get_current_height n = get_current_height n'"
  unfolding same_history_def get_current_height_def by (metis length_map)

lemma same_history_last:
  assumes "same_history n n'" "m_blocks n \<noteq> []"
  shows "m_blocks n' \<noteq> [] \<and> block_hash (last (m_blocks n')) = block_hash (last (m_blocks n))
     \<and> timestamp (last (m_blocks n')) = timestamp (last (m_blocks n))"
proof -
  have ne: "m_blocks n' \<noteq> []" using assms by (auto simp: same_history_def)
  then have "on_disk (last (m_blocks n)) = on_disk (last (m_blocks n'))"
    using assms by (metis last_map same_history_def)
  with ne show ?thesis by (metis on_disk_fields(1,3))
qed

lemma same_history_add:
  assumes "same_history n n'"
  shows "rel_sum (=) (rel_prod (=) (rel_prod (=) same_history)) (add_new_block now n b d0) (add_new_block now n' b d0)"
proof (cases "m_blocks n = []")
  case True
  then show ?thesis using assms by (auto simp: add_new_block_def same_history_def)
next
  case False
  note l = same_history_last [OF assms False]
  have d: "get_current_difficulty n' = get_current_difficulty n" and c: "m_cumulative_difficulties n' = m_cumulative_difficulties n"
    using assms by (simp_all add: same_history_def get_current_difficulty_def)
  have s: "same_history (n\<lparr>rx := r\<rparr>) (n'\<lparr>rx := r'\<rparr>)"
    "same_history (commit_block b e (n\<lparr>rx := r\<rparr>)) (commit_block b e (n'\<lparr>rx := r'\<rparr>))" for r r' e
    using assms by (simp_all add: same_history_def)
  show ?thesis
    using False l s assms unfolding add_new_block_def d c Let_def
    by (cases "get_current_difficulty n") (simp_all add: calculate_hash_def)
qed

text \<open>Offering a list of blocks, each at its own time: the verdicts with the difficulties, and the node.\<close>

fun offer_blocks :: "(u64 \<times> block) list \<Rightarrow> node \<Rightarrow> ((bool \<times> u64) list \<times> node) result" where
  "offer_blocks [] n = Inr ([], n)"
| "offer_blocks ((now, b) # cs) n =
     bindr (add_new_block now n b 0) (\<lambda>(ok, d, n).
     bindr (offer_blocks cs n) (\<lambda>(vs, n). Inr ((ok, d) # vs, n)))"

lemma same_history_offer:
  "same_history n n' \<Longrightarrow> rel_sum (=) (rel_prod (=) same_history) (offer_blocks cs n) (offer_blocks cs n')"
proof (induction cs arbitrary: n n')
  case (Cons c cs)
  obtain now b where c: "c = (now, b)" by (cases c)
  from same_history_add [OF Cons.prems, of now b 0] show ?case
  proof (cases rule: rel_sum.cases)
    case (2 x y)
    then obtain ok d m m' where v: "x = (ok, d, m)" "y = (ok, d, m')" "same_history m m'"
      by (cases x; cases y) auto
    from Cons.IH [OF v(3)] show ?thesis using 2 v(1,2) by (cases rule: rel_sum.cases) (auto simp: c)
  qed (simp add: c)
qed simp

text \<open>C5: A restart is transparent to consensus: after any life, a node that is shut down and started again on its
  directory gives every list of offered blocks the verdicts, the difficulties and the undefined
  behaviour, if any, that it would have given without the restart, and reaches the same height,
  timestamps and difficulties.\<close>

theorem restart_transparent:
  assumes "lifetime dir n"
  shows "bindr (offer_blocks cs n) (\<lambda>(vs, m). Inr (vs, m_timestamps m, m_cumulative_difficulties m, get_current_height m))
    = bindr (offer_blocks cs (boot (disk (chain_shutdown n)) r dir))
        (\<lambda>(vs, m). Inr (vs, m_timestamps m, m_cumulative_difficulties m, get_current_height m))"
proof -
  let ?n' = "boot (disk (chain_shutdown n)) r dir"
  have i: "persisted dir n" "m_blocks n \<noteq> []" using lifetime_inv [OF assms] by (auto simp: history_inv_def)
  have "same_history n ?n'" unfolding boot_again [OF i] by (simp add: same_history_def)
  then have "rel_sum (=) (rel_prod (=) same_history) (offer_blocks cs n) (offer_blocks cs ?n')"
    by (rule same_history_offer)
  then show ?thesis
  proof (cases rule: rel_sum.cases)
    case (2 x y)
    then obtain vs m m' where v: "x = (vs, m)" "y = (vs, m')" "same_history m m'"
      by (cases x; cases y) auto
    then show ?thesis
      using same_history_height [OF v(3)] unfolding 2 v(1,2) same_history_def by (simp only: bindr_simps case_prod_conv)
  qed simp
qed

theorem restart_transparent_witness:
  "bindr (offer_blocks [(1788462000, demo_block)] demo_node) (\<lambda>(vs, m). Inr vs)
    = (Inr [(True, 1)] :: (bool \<times> u64) list result)
   \<and> bindr (offer_blocks [(1788462000, demo_block)] (boot (disk (chain_shutdown demo_node)) rx_initial ''d'')) (\<lambda>(vs, m). Inr vs)
    = (Inr [(True, 1)] :: (bool \<times> u64) list result)"
proof -
  note t = restart_transparent [OF demo_alive, of "[(1788462000, demo_block)]" rx_initial]
  have o: "offer_blocks [(1788462000, demo_block)] demo_node = Inr ([(True, 1)],
      commit_block demo_block 1 (demo_node\<lparr>rx := snd (snd (calculate_hash (rx demo_node) free_hash))\<rparr>))"
    by (simp add: demo_accepted)
  from t obtain vs m where "offer_blocks [(1788462000, demo_block)] (boot (disk (chain_shutdown demo_node)) rx_initial ''d'') = Inr (vs, m)"
    "vs = [(True, 1)]"
    unfolding o by (cases "offer_blocks [(1788462000, demo_block)] (boot (disk (chain_shutdown demo_node)) rx_initial ''d'')")
       (auto simp del: offer_blocks.simps)
  then show ?thesis unfolding o by (simp del: offer_blocks.simps)
qed

section \<open>The chain can always grow\<close>

lemma lifetime_difficulty:
  assumes "history_inv n" "\<forall>t \<in> set (m_timestamps n). unat t < 2 ^ 63"
    and "unat (window_work (m_cumulative_difficulties n)) < 2 ^ 59"
  shows "\<exists>d. get_current_difficulty n = Inr d \<and> d \<noteq> 0"
proof (cases "length (m_timestamps n) < 2")
  case True
  then show ?thesis by (simp add: get_current_difficulty_def next_difficulty_lwma3_def)
next
  case False
  then have "regular (m_timestamps n) (m_cumulative_difficulties n) (of_nat DIFFICULTY_TARGET_V2)"
    using assms(1,2) by (simp add: history_inv_def regular_def DIFFICULTY_TARGET_V2_def)
  from lwma_defined_aux [OF this assms(3), of DIFFICULTY_WINDOW_V2] show ?thesis
    unfolding get_current_difficulty_def by force
qed

definition next_block :: "node \<Rightarrow> bytes list \<Rightarrow> block" where
  "next_block n hs = blank_block\<lparr>prev_id := block_hash (last (m_blocks n)), tx_hashes := hs,
     timestamp := timestamp (last (m_blocks n)) + 1, block_hash := free_hash\<rparr>"

lemma next_block_simps [simp]:
  "prev_id (next_block n hs) = block_hash (last (m_blocks n))" "tx_hashes (next_block n hs) = hs"
  "timestamp (next_block n hs) = timestamp (last (m_blocks n)) + 1" "block_hash (next_block n hs) = free_hash"
  by (simp_all add: next_block_def)

lemma next_block_accepted:
  assumes "history_inv n" "get_current_difficulty n = Inr d" "d \<noteq> 0" "timestamp (last (m_blocks n)) < now + 7200"
  shows "\<exists>r. add_new_block now n (next_block n hs) d0 = Inr (True, d, commit_block (next_block n hs) d (n\<lparr>rx := r\<rparr>))"
proof -
  let ?t = "timestamp (last (m_blocks n))"
  have "m_cumulative_difficulties n \<noteq> []" "m_blocks n \<noteq> []" using assms(1) by (auto simp: history_inv_def)
  moreover have "\<not> ?t + 1 \<le> ?t" "\<not> ?t + 1 > now + 7200"
    using assms(4) by (simp_all add: word_less_nat_alt word_le_nat_alt unat_word_ariths)
  ultimately show ?thesis
    using assms(2,3) by (intro exI [of _ "snd (snd (calculate_hash (rx n) free_hash))"])
      (simp add: add_new_block_def Let_def calculate_hash_def free_hash_passes config_defs)
qed

text \<open>C8: The chain is never stuck, and every pooled transaction can be confirmed: after any life of the
  directory, while timestamps fit 63 bits, the window carries less than 2^59 work and the tip is
  less than two hours ahead of the clock, some block that carries the pool's template (of a size below 2^63) is accepted,
  the chain is one block longer, the template's transactions leave the pool, and life goes on.\<close>

theorem chain_can_grow:
  assumes "lifetime dir n" "\<forall>t \<in> set (m_timestamps n). unat t < 2 ^ 63"
    and "unat (window_work (m_cumulative_difficulties n)) < 2 ^ 59"
    and "timestamp (last (m_blocks n)) < now + 7200" "unat max_bytes < 2 ^ 63"
  shows "\<exists>b d n'. tx_hashes b = map tx_hash (get_block_template_txs (m_tx_pool n) max_bytes)
    \<and> add_new_block now n b d0 = Inr (True, d, n') \<and> lifetime dir n'
    \<and> get_current_height n' = get_current_height n + 1
    \<and> m_mempool (m_tx_pool n') = drop (unat max_bytes div 1800) (m_mempool (m_tx_pool n))"
proof -
  let ?p = "m_tx_pool n"
  let ?hs = "map tx_hash (get_block_template_txs ?p max_bytes)"
  let ?b = "next_block n ?hs"
  have i: "history_inv n" using lifetime_inv [OF assms(1)] by simp
  then have p: "pool_inv ?p" by (simp add: history_inv_def)
  obtain d where "get_current_difficulty n = Inr d" "d \<noteq> 0"
    using lifetime_difficulty [OF i assms(2,3)] by blast
  then obtain r where a: "add_new_block now n ?b d0 = Inr (True, d, commit_block ?b d (n\<lparr>rx := r\<rparr>))"
    using next_block_accepted [OF i _ _ assms(4)] by blast
  have "chain_step n (commit_block ?b d (n\<lparr>rx := r\<rparr>))"
    using a by (intro chain_step.block_offered [of ?b]) simp_all
  with assms(1) have "lifetime dir (commit_block ?b d (n\<lparr>rx := r\<rparr>))" by (rule lifetime.step)
  moreover have "remove_txs ?p ?hs = ?p\<lparr>m_mempool := drop (unat max_bytes div 1800) (m_mempool ?p)\<rparr>"
    unfolding template_take [OF p assms(5)] by (rule remove_template [OF p])
  ultimately show ?thesis using a
    by (intro exI [of _ ?b] exI [of _ d] exI [of _ "commit_block ?b d (n\<lparr>rx := r\<rparr>)"])
       (simp add: get_current_height_def)
qed

theorem chain_can_grow_witness:
  "\<exists>b d n'. tx_hashes b = [] \<and> add_new_block 1788462000 demo_node b 0 = Inr (True, d, n') \<and> lifetime ''d'' n'
     \<and> get_current_height n' = 2"
proof -
  note demo_alive
  moreover have "m_timestamps demo_node = [1788461926]" "m_mempool (m_tx_pool demo_node) = []"
    by (simp_all add: demo_node_def boot_fresh timestamp_genesis empty_pool_def)
  ultimately have "\<exists>b d n'. tx_hashes b = map tx_hash (get_block_template_txs (m_tx_pool demo_node) 3600)
    \<and> add_new_block 1788462000 demo_node b 0 = Inr (True, d, n') \<and> lifetime ''d'' n'
    \<and> get_current_height n' = get_current_height demo_node + 1
    \<and> m_mempool (m_tx_pool n') = drop (unat (3600 :: u64) div 1800) (m_mempool (m_tx_pool demo_node))"
    by (intro chain_can_grow) (simp_all add: timestamp_genesis window_work_def window_def)
  moreover have "get_block_template_txs (m_tx_pool demo_node) 3600 = []" "get_current_height demo_node = 1"
    using \<open>m_mempool _ = []\<close> by (simp_all add: get_block_template_txs_def get_current_height_def)
  ultimately show ?thesis by (simp only: list.map one_add_one) blast
qed

section \<open>History is final\<close>

text \<open>Everything that can happen to a node from a given moment on.\<close>

inductive evolves :: "string \<Rightarrow> node \<Rightarrow> node \<Rightarrow> bool" for dir n where
  now: "evolves dir n n"
| step: "evolves dir n m \<Longrightarrow> chain_step m m' \<Longrightarrow> evolves dir n m'"
| restart: "evolves dir n m \<Longrightarrow> evolves dir n (boot (disk (chain_shutdown m)) r dir)"

definition stored :: "node \<Rightarrow> block list" where
  "stored n = map on_disk (m_blocks n)"

lemma chain_step_extends: "chain_step m m' \<Longrightarrow> \<exists>bs. stored m' = stored m @ bs"
proof (erule chain_stepE)
  fix b now d0 ok d
  assume "add_new_block now m b d0 = Inr (ok, d, m')"
  then show ?thesis by (cases rule: add_new_block_cases) (auto simp: stored_def)
qed (simp add: stored_def)

lemma restart_keeps_stored:
  assumes "lifetime dir m"
  shows "stored (boot (disk (chain_shutdown m)) r dir) = stored m"
proof -
  have "persisted dir m" "m_blocks m \<noteq> []" using lifetime_inv [OF assms] by (auto simp: history_inv_def)
  then show ?thesis by (simp add: boot_again stored_def)
qed

lemma evolves_extends:
  assumes "evolves dir n m" "lifetime dir n"
  shows "lifetime dir m \<and> (\<exists>bs. stored m = stored n @ bs)"
  using assms
proof (induction rule: evolves.induct)
  case (step m m')
  then show ?case using chain_step_extends [OF step.hyps(2)] lifetime.step by fastforce
next
  case (restart m r)
  then show ?case using restart_keeps_stored lifetime.restart by simp
qed simp

lemma old_block_rejected:
  assumes "history_inv m" "timestamp b \<in> timestamp ` set (m_blocks m)"
  shows "add_new_block now m b d0 \<noteq> Inr (True, d, m')"
proof
  assume "add_new_block now m b d0 = Inr (True, d, m')"
  then have "timestamp (last (m_blocks m)) < timestamp b"
    by (cases rule: add_new_block_cases) (simp_all add: block_passes_def)
  moreover have "timestamp b \<le> last (map timestamp (m_blocks m))"
    using assms by (intro sorted_le_last) (auto simp: history_inv_def)
  ultimately show False using assms(1) by (simp add: last_map history_inv_def)
qed

text \<open>C6: History is final in the fields that the disk keeps: whatever happens to a node afterwards, restarts included,
  the timestamps, nonces and hashes of the blocks it holds now stay, in order, those of the front of its chain, and no
  block with the timestamp of one of them, they themselves included, is ever accepted again. The other fields of a
  block (\<open>prev_id\<close>, versions, transaction hashes) are blank after a restart.\<close>

theorem history_is_final:
  assumes "lifetime dir n" "evolves dir n m"
  shows "(\<exists>bs. map on_disk (m_blocks m) = map on_disk (m_blocks n) @ bs)
     \<and> (\<forall>b \<in> set (m_blocks n). \<forall>b' now d0 d m'. timestamp b' = timestamp b \<longrightarrow>
          add_new_block now m b' d0 \<noteq> Inr (True, d, m'))"
proof -
  obtain bs where e: "lifetime dir m" "stored m = stored n @ bs" using evolves_extends [OF assms(2,1)] by blast
  have "map timestamp (stored k) = map timestamp (m_blocks k)" for k by (simp add: stored_def)
  then have "set (map timestamp (m_blocks n)) \<subseteq> set (map timestamp (m_blocks m))"
    using e(2) by (metis Un_upper1 map_append set_append)
  then have "add_new_block now m b' d0 \<noteq> Inr (True, d, m')"
    if "b \<in> set (m_blocks n)" "timestamp b' = timestamp b" for b b' now d0 d m'
    using that lifetime_inv [OF e(1)] by (intro old_block_rejected) auto
  then show ?thesis using e(2) unfolding stored_def by blast
qed

theorem history_is_final_witness:
  "\<forall>d m'. add_new_block 1788462000
     (boot (disk (chain_shutdown (commit_block demo_block 1 (demo_node\<lparr>rx := snd (snd (calculate_hash (rx demo_node) free_hash))\<rparr>)))) rx_initial ''d'')
     demo_block 0 \<noteq> Inr (True, d, m')"
  using history_is_final [OF demo_one_block evolves.restart [OF evolves.now]] by simp

end
