(* ===== verification/Ledger.thy ===== *)
theory Ledger
  imports Restart
begin

text \<open>
  What the node promises, without blocks, vectors, files or sorting: a ledger of entries, each a
  hash, a time and the work it took, and a map of pending transactions. The ledger judges an offered
  entry by its tip, its times and its own history alone. The theory shows that a node's observable
  behaviour (which block and transaction is accepted, and when) is exactly the ledger's, over any
  number of restarts.
\<close>

section \<open>The specification\<close>

record ledger_entry =
  e_hash :: bytes
  e_time :: u64
  e_work :: u64

record ledger =
  entries :: "ledger_entry list"
  pending :: "bytes \<rightharpoonup> transaction"

definition ledger_start :: ledger where
  "ledger_start = \<lparr>entries = [\<lparr>e_hash = block_hash genesis_block, e_time = GENESIS_TIMESTAMP, e_work = 1\<rparr>],
     pending = Map.empty\<rparr>"

definition ledger_difficulty :: "ledger \<Rightarrow> u64 result" where
  "ledger_difficulty l = next_difficulty_lwma3 (map e_time (entries l)) (running_sums 0 (map e_work (entries l)))
     (of_nat DIFFICULTY_TARGET_V2) DIFFICULTY_WINDOW_V2"

text \<open>The verdict on an offered entry: the work it is entered with, or a refusal.\<close>

definition judge :: "ledger \<Rightarrow> u64 \<Rightarrow> bytes \<Rightarrow> bytes \<Rightarrow> u64 \<Rightarrow> u64 option result" where
  "judge l now hash parent time =
     (let tip = last (entries l) in
      if parent \<noteq> e_hash tip \<or> time \<le> e_time tip \<or> now + 7200 < time then Inr None
      else bindr (ledger_difficulty l) (\<lambda>d. Inr (if check_pow_hash (rx_mix hash) d then Some d else None)))"

definition admits :: "ledger \<Rightarrow> transaction \<Rightarrow> bool" where
  "admits l tx \<longleftrightarrow> admissible tx \<and> tx_hash tx \<notin> dom (pending l)
     \<and> (\<forall>t \<in> ran (pending l). tx_images t \<inter> tx_images tx = {})"

datatype ledger_event =
    Append u64 bytes bytes u64 "bytes list"    \<comment> \<open>clock, hash, parent, time, confirmed transactions\<close>
  | Refuse u64 bytes bytes u64
  | Admit transaction
  | Decline transaction
  | Forget                                     \<comment> \<open>the pending transactions are lost\<close>

fun ledger_step :: "ledger \<Rightarrow> ledger_event \<Rightarrow> ledger \<Rightarrow> bool" where
  "ledger_step l (Append now hash parent time confirmed) l' \<longleftrightarrow> arr32 hash \<and>
     (\<exists>d. judge l now hash parent time = Inr (Some d)
        \<and> l' = l\<lparr>entries := entries l @ [\<lparr>e_hash = hash, e_time = time, e_work = d\<rparr>],
                 pending := pending l |` (- set confirmed)\<rparr>)"
| "ledger_step l (Refuse now hash parent time) l' \<longleftrightarrow> arr32 hash \<and> judge l now hash parent time = Inr None \<and> l' = l"
| "ledger_step l (Admit tx) l' \<longleftrightarrow> admits l tx \<and> l' = l\<lparr>pending := (pending l)(tx_hash tx \<mapsto> tx)\<rparr>"
| "ledger_step l (Decline tx) l' \<longleftrightarrow> \<not> admits l tx \<and> l' = l"
| "ledger_step l Forget l' \<longleftrightarrow> l' = l\<lparr>pending := Map.empty\<rparr>"

inductive ledger_run :: "ledger_event list \<Rightarrow> ledger \<Rightarrow> bool" where
  nothing: "ledger_run [] ledger_start"
| event: "ledger_run es l \<Longrightarrow> ledger_step l e l' \<Longrightarrow> ledger_run (es @ [e]) l'"

section \<open>The node's events\<close>

text \<open>What reaches a node and the verdict it gives.\<close>

datatype node_event =
    Offered u64 block bool
  | Submitted transaction bool
  | Restarted

inductive node_step :: "string \<Rightarrow> node \<Rightarrow> node_event \<Rightarrow> node \<Rightarrow> bool" for dir n where
  offered: "arr32 (block_hash b) \<Longrightarrow> add_new_block now n b d0 = Inr (ok, d, n') \<Longrightarrow> node_step dir n (Offered now b ok) n'"
| submitted: "fee_sort srt \<Longrightarrow> add_tx srt now (m_tx_pool n) tx reason = (ok, reason', p) \<Longrightarrow>
    node_step dir n (Submitted tx ok) (n\<lparr>m_tx_pool := p\<rparr>)"
| restarted: "node_step dir n Restarted (boot (disk (chain_shutdown n)) r dir)"

inductive_cases offeredE: "node_step dir n (Offered now b ok) n'"
inductive_cases submittedE: "node_step dir n (Submitted tx ok) n'"
inductive_cases restartedE: "node_step dir n Restarted n'"

inductive node_run :: "string \<Rightarrow> node_event list \<Rightarrow> node \<Rightarrow> bool" for dir where
  started: "fresh_disk fs dir \<Longrightarrow> node_run dir [] (boot fs r dir)"
| event: "node_run dir es n \<Longrightarrow> node_step dir n e n' \<Longrightarrow> node_run dir (es @ [e]) n'"

fun observed :: "node_event \<Rightarrow> ledger_event" where
  "observed (Offered now b ok) =
     (if ok then Append now (block_hash b) (prev_id b) (timestamp b) (tx_hashes b)
      else Refuse now (block_hash b) (prev_id b) (timestamp b))"
| "observed (Submitted tx ok) = (if ok then Admit tx else Decline tx)"
| "observed Restarted = Forget"

lemma node_step_lifetime: "node_step dir n e n' \<Longrightarrow> lifetime dir n \<Longrightarrow> lifetime dir n'"
  by (cases rule: node_step.cases) (auto intro: lifetime.intros chain_step.intros)

lemma node_run_lifetime: "node_run dir es n \<Longrightarrow> lifetime dir n"
  by (induction rule: node_run.induct) (auto intro: lifetime.first_start node_step_lifetime)

section \<open>The simulation relation\<close>

definition implements :: "node \<Rightarrow> ledger \<Rightarrow> bool" where
  "implements n l \<longleftrightarrow> map block_hash (m_blocks n) = map e_hash (entries l)
     \<and> map timestamp (m_blocks n) = map e_time (entries l) \<and> m_timestamps n = map e_time (entries l)
     \<and> m_cumulative_difficulties n = running_sums 0 (map e_work (entries l))
     \<and> pool_map (m_tx_pool n) = pending l"

lemma pool_map_empty [simp]: "pool_map empty_pool = Map.empty"
  by (simp add: pool_map_def empty_pool_def)

lemma implements_start: "fresh_disk fs dir \<Longrightarrow> implements (boot fs r dir) ledger_start"
  by (simp add: implements_def boot_fresh ledger_start_def timestamp_genesis GENESIS_TIMESTAMP_def)

lemma implements_difficulty: "implements n l \<Longrightarrow> get_current_difficulty n = ledger_difficulty l"
  by (simp add: implements_def get_current_difficulty_def ledger_difficulty_def)

lemma implements_tip:
  assumes "implements n l" "m_blocks n \<noteq> []"
  shows "block_hash (last (m_blocks n)) = e_hash (last (entries l))" "timestamp (last (m_blocks n)) = e_time (last (entries l))"
proof -
  have ne: "entries l \<noteq> []" using assms by (auto simp: implements_def)
  have "last (map block_hash (m_blocks n)) = last (map e_hash (entries l))"
    "last (map timestamp (m_blocks n)) = last (map e_time (entries l))"
    using assms(1) unfolding implements_def by (simp_all only:)
  then show "block_hash (last (m_blocks n)) = e_hash (last (entries l))" "timestamp (last (m_blocks n)) = e_time (last (entries l))"
    using ne assms(2) by (simp_all add: last_map)
qed

text \<open>The node's verdict on a block is the ledger's judgement.\<close>

lemma add_new_block_judge:
  assumes "implements n l" "history_inv n"
  shows "case judge l now (block_hash b) (prev_id b) (timestamp b) of
      Inl e \<Rightarrow> add_new_block now n b d0 = Inl e
    | Inr None \<Rightarrow> \<exists>e r. add_new_block now n b d0 = Inr (False, e, n\<lparr>rx := r\<rparr>)
    | Inr (Some d) \<Rightarrow> \<exists>r. add_new_block now n b d0 = Inr (True, d, commit_block b d (n\<lparr>rx := r\<rparr>))"
proof -
  let ?early = "prev_id b \<noteq> e_hash (last (entries l)) \<or> timestamp b \<le> e_time (last (entries l)) \<or> now + 7200 < timestamp b"
  have ne: "m_blocks n \<noteq> []" "m_cumulative_difficulties n \<noteq> []" using assms(2) by (auto simp: history_inv_def)
  obtain r where c: "calculate_hash (rx n) (block_hash b) = (True, rx_mix (block_hash b), r)"
    by (simp add: calculate_hash_def Let_def)
  have late: "add_new_block now n b d0 = bindr (ledger_difficulty l) (\<lambda>d.
      if check_pow_hash (rx_mix (block_hash b)) d then Inr (True, d, commit_block b d (n\<lparr>rx := r\<rparr>))
      else Inr (False, d, n\<lparr>rx := r\<rparr>))" if "\<not> ?early"
    using ne that by (cases "ledger_difficulty l") (simp_all add: add_new_block_def Let_def c config_defs
        implements_tip [OF assms(1) ne(1)] implements_difficulty [OF assms(1)])
  have early: "add_new_block now n b d0 = Inr (False, d0, n\<lparr>rx := rx n\<rparr>)" if ?early
    using ne that by (auto simp add: add_new_block_def Let_def config_defs implements_tip [OF assms(1) ne(1)])
  show ?thesis
  proof (cases ?early)
    case True
    then have "judge l now (block_hash b) (prev_id b) (timestamp b) = Inr None" by (auto simp: judge_def)
    moreover have "\<exists>e r. add_new_block now n b d0 = Inr (False, e, n\<lparr>rx := r\<rparr>)" using early [OF True] by blast
    ultimately show ?thesis by simp
  next
    case False
    then show ?thesis using late [OF False] by (cases "ledger_difficulty l") (auto simp: judge_def)
  qed
qed

lemma implements_commit:
  assumes "implements n l" "m_cumulative_difficulties n \<noteq> []" "pool_inv (m_tx_pool n)"
  shows "implements (commit_block b d (n\<lparr>rx := r\<rparr>))
    (l\<lparr>entries := entries l @ [\<lparr>e_hash = block_hash b, e_time = timestamp b, e_work = d\<rparr>],
       pending := pending l |` (- set (tx_hashes b))\<rparr>)"
proof -
  let ?ds = "map e_work (entries l)"
  have "running_sums 0 ?ds \<noteq> []" using assms(1,2) by (simp add: implements_def)
  then have "running_sums 0 (?ds @ [d]) = running_sums 0 ?ds @ [last (running_sums 0 ?ds) + d]"
    by (simp add: running_sums_snoc)
  moreover have "pool_map (remove_txs (m_tx_pool n) (tx_hashes b)) = pending l |` (- set (tx_hashes b))"
    using remove_txs_map [OF assms(3)] assms(1) by (simp add: implements_def)
  ultimately show ?thesis using assms(1) by (simp add: implements_def)
qed

lemma admits_pool:
  assumes "implements n l" "pool_inv (m_tx_pool n)"
  shows "admits l tx \<longleftrightarrow> admission_error (m_tx_pool n) tx = None"
proof -
  let ?p = "m_tx_pool n"
  have p: "pending l = pool_map ?p" using assms(1) by (simp add: implements_def)
  have "tx_hash tx \<notin> dom (pool_map ?p) \<longleftrightarrow> (\<forall>e \<in> set (m_mempool ?p). tx_hash (pe_tx e) \<noteq> tx_hash tx)"
    using pool_map_Some [OF assms(2)] by (auto simp: dom_def)
  moreover have "ran (pool_map ?p) = pe_tx ` set (m_mempool ?p)"
    using pool_map_Some [OF assms(2)] by (auto simp: ran_def)
  ultimately show ?thesis unfolding admits_def p admission_None by auto
qed

section \<open>Each implements the other\<close>

lemma node_step_simulated:
  assumes "node_step dir n e n'" "implements n l" "lifetime dir n"
  shows "\<exists>l'. ledger_step l (observed e) l' \<and> implements n' l'"
proof -
  have inv: "history_inv n" "pool_inv (m_tx_pool n)" "m_cumulative_difficulties n \<noteq> []" "m_blocks n \<noteq> []" "persisted dir n"
    using lifetime_inv [OF assms(3)] by (auto simp: history_inv_def)
  note judge = add_new_block_judge [OF assms(2) inv(1)]
  from assms(1) show ?thesis
  proof cases
    case (offered b now d0 ok d)
    from offered(3) show ?thesis
    proof (cases rule: add_new_block_cases)
      case rejected
      then have "judge l now (block_hash b) (prev_id b) (timestamp b) = Inr None"
        using judge [of now b d0] offered(3) by (auto split: sum.splits option.splits)
      moreover have "implements n' l" using rejected(2) assms(2) by (auto simp: implements_def)
      ultimately show ?thesis using rejected(1) offered(1,2) by auto
    next
      case (accepted r)
      then have "judge l now (block_hash b) (prev_id b) (timestamp b) = Inr (Some d)"
        using judge [of now b d0] offered(3) by (auto split: sum.splits option.splits)
      then show ?thesis using implements_commit [OF assms(2) inv(3,2)] accepted offered(1,2) by auto
    qed
  next
    case (submitted srt now tx reason ok reason' p)
    have "pool_map p = (if ok then (pool_map (m_tx_pool n))(tx_hash tx \<mapsto> tx) else pool_map (m_tx_pool n))"
      using add_tx_map [OF submitted(3) inv(2) submitted(4)] .
    moreover have "ok \<longleftrightarrow> admits l tx"
      using submitted(4) admits_pool [OF assms(2) inv(2)] by (auto simp: add_tx_def split: option.splits)
    ultimately show ?thesis using submitted(1,2) assms(2) by (cases ok) (auto simp: implements_def)
  next
    case (restarted r)
    then show ?thesis using assms(2) boot_again [OF inv(5,4)] by (auto simp: implements_def comp_def)
  qed
qed

lemma ledger_step_deterministic: "ledger_step l e l1 \<Longrightarrow> ledger_step l e l2 \<Longrightarrow> l2 = l1"
  by (cases e) auto

lemma ledger_block_performed:
  assumes "ledger_step l e l'" "implements n l" "history_inv n"
    and "e = Append now hash parent time confirmed \<or> e = Refuse now hash parent time \<and> confirmed = []"
  shows "\<exists>b ok n'. node_step dir n (Offered now b ok) n' \<and> observed (Offered now b ok) = e"
proof -
  let ?b = "blank_block\<lparr>prev_id := parent, timestamp := time, tx_hashes := confirmed, block_hash := hash\<rparr>"
  define ok where "ok \<longleftrightarrow> e = Append now hash parent time confirmed"
  obtain d n' where "add_new_block now n ?b 0 = Inr (ok, d, n')"
    using assms(1,4) add_new_block_judge [OF assms(2,3), of now ?b 0] by (auto simp: ok_def)
  then have "node_step dir n (Offered now ?b ok) n'"
    using assms(1,4) by (intro node_step.offered) (auto simp: ok_def)
  then show ?thesis using assms(4)
    by (intro exI [of _ ?b] exI [of _ ok] exI [of _ n']) (auto simp: ok_def)
qed

lemma ledger_tx_performed:
  assumes "ledger_step l e l'" "implements n l" "pool_inv (m_tx_pool n)" "e = Admit tx \<or> e = Decline tx"
  shows "\<exists>ok n'. node_step dir n (Submitted tx ok) n' \<and> observed (Submitted tx ok) = e"
proof -
  obtain ok r p where a: "add_tx fee_insertion_sort 0 (m_tx_pool n) tx [] = (ok, r, p)" by (metis prod_cases3)
  then have "ok \<longleftrightarrow> admits l tx"
    using admits_pool [OF assms(2,3)] by (auto simp: add_tx_def split: option.splits)
  then have "observed (Submitted tx ok) = e" using assms(1,4) by auto
  with node_step.submitted [OF insertion.fee_sort_axioms a] show ?thesis by blast
qed

lemma ledger_step_performed:
  assumes "ledger_step l e l'" "implements n l" "lifetime dir n"
  shows "\<exists>ne n'. node_step dir n ne n' \<and> observed ne = e \<and> implements n' l'"
proof -
  have inv: "history_inv n" "pool_inv (m_tx_pool n)"
    using lifetime_inv [OF assms(3)] by (auto simp: history_inv_def)
  have "\<exists>ne n'. node_step dir n ne n' \<and> observed ne = e"
  proof (cases e)
    case (Append now hash parent time confirmed)
    then show ?thesis using ledger_block_performed [OF assms(1,2) inv(1)] by blast
  next
    case (Refuse now hash parent time)
    then show ?thesis using ledger_block_performed [OF assms(1,2) inv(1)] by blast
  next
    case (Admit tx)
    then show ?thesis using ledger_tx_performed [OF assms(1,2) inv(2)] by blast
  next
    case (Decline tx)
    then show ?thesis using ledger_tx_performed [OF assms(1,2) inv(2)] by blast
  next
    case Forget
    have "node_step dir n Restarted (boot (disk (chain_shutdown n)) rx_initial dir)" by (rule node_step.restarted)
    then show ?thesis using Forget by force
  qed
  then show ?thesis
    using node_step_simulated [OF _ assms(2,3)] ledger_step_deterministic [OF assms(1)] by blast
qed

lemma node_run_simulated:
  "node_run dir es n \<Longrightarrow> \<exists>l. ledger_run (map observed es) l \<and> implements n l"
proof (induction rule: node_run.induct)
  case (started fs r)
  then show ?case using implements_start ledger_run.nothing by auto
next
  case (event es n e n')
  then obtain l where "ledger_run (map observed es) l" "implements n l" by blast
  with node_step_simulated [OF event.hyps(2)] node_run_lifetime [OF event.hyps(1)] show ?case
    by (fastforce intro: ledger_run.event)
qed

lemma ledger_run_performed:
  "ledger_run es l \<Longrightarrow> \<exists>nes n. node_run dir nes n \<and> map observed nes = es \<and> implements n l"
proof (induction rule: ledger_run.induct)
  case nothing
  have "fresh_disk \<lparr>files = Map.empty, writable = (\<lambda>_. True)\<rparr> dir" by (simp add: fresh_disk_def)
  then show ?case using implements_start node_run.started by fastforce
next
  case (event es l e l')
  then obtain nes n where n: "node_run dir nes n" "map observed nes = es" "implements n l" by blast
  obtain ne n' where "node_step dir n ne n'" "observed ne = e" "implements n' l'"
    using ledger_step_performed [OF event.hyps(2) n(3) node_run_lifetime [OF n(1)]] by blast
  with n show ?case using node_run.event by (intro exI [of _ "nes @ [ne]"] exI [of _ n']) auto
qed

section \<open>Properties\<close>

text \<open>C2: The node refines the ledger: whatever blocks and transactions reach it, in any order and over any
  restarts, the verdicts it gives are those of a run of the specification, and its blocks, vectors
  and pool are that run's entries, work and pending transactions.\<close>

theorem node_refines_ledger:
  assumes "node_run dir es n"
  shows "\<exists>l. ledger_run (map observed es) l
     \<and> map block_hash (m_blocks n) = map e_hash (entries l) \<and> m_timestamps n = map e_time (entries l)
     \<and> m_cumulative_difficulties n = running_sums 0 (map e_work (entries l))
     \<and> pool_map (m_tx_pool n) = pending l"
  using node_run_simulated [OF assms] by (auto simp: implements_def)

lemma demo_node_run: "node_run ''d''
    [Offered 1788462000 demo_block True, Restarted]
    (boot (disk (chain_shutdown (commit_block demo_block 1 (demo_node\<lparr>rx := snd (snd (calculate_hash (rx demo_node) free_hash))\<rparr>)))) rx_initial ''d'')"
proof -
  have "node_run ''d'' [] demo_node" unfolding demo_node_def by (rule node_run.started) simp
  from node_run.event [OF this node_step.offered [OF _ demo_accepted]]
  have "node_run ''d'' [Offered 1788462000 demo_block True]
      (commit_block demo_block 1 (demo_node\<lparr>rx := snd (snd (calculate_hash (rx demo_node) free_hash))\<rparr>))" by simp
  from node_run.event [OF this node_step.restarted] show ?thesis by simp
qed

theorem node_refines_ledger_witness:
  "\<exists>l. ledger_run [Append 1788462000 free_hash (block_hash genesis_block) 1788462076 [], Forget] l"
  using node_refines_ledger [OF demo_node_run] by auto

text \<open>C3: The specification is exact: a sequence of verdicts is a behaviour of some node on a fresh directory if
  and only if it is a behaviour of the ledger, so nothing the node keeps besides (files, the sorted
  pool, the RandomX engine, the fields lost in a restart) can be observed through its verdicts.\<close>

theorem node_and_ledger_same_traces:
  "(\<exists>nes n. node_run dir nes n \<and> map observed nes = es) \<longleftrightarrow> (\<exists>l. ledger_run es l)"
  using node_run_simulated ledger_run_performed by metis

end
