(* ===== verification/Crypto.thy ===== *)
theory Crypto
  imports Keccak Blake2b
begin

text \<open>
  src/crypto/crypto.cpp over theories Keccak and Blake2b: the two guarded hashes, key generation, stealth
  addresses and key images. Buffers are byte lists; an out-parameter is a result. The pointer tests
  of the guard are left out (every caller passes arrays), and the draws of
  \<open>uniform_int_distribution(0, 255)\<close> are an argument. \<open>hash_to_hex\<close> and \<open>hex_to_hash\<close> are in theory Bytes.
\<close>

text \<open>The buffer \<open>result\<close> after the call: untouched when the guard refuses the length.\<close>

definition crypto_keccak :: "bytes \<Rightarrow> bytes \<Rightarrow> nat \<Rightarrow> bytes result" where
  "crypto_keccak data buf result_len =
     (if result_len = 0 \<or> result_len > 64 then Inr buf
      else bindr (keccak data (int result_len)) (\<lambda>md. Inr (overwrite 0 md buf)))"

definition crypto_blake2b :: "blake2b_state \<Rightarrow> bytes \<Rightarrow> bytes \<Rightarrow> nat \<Rightarrow> bytes" where
  "crypto_blake2b S data buf result_len =
     (if result_len = 0 \<or> result_len > 64 then buf
      else let (r, buf) = blake2b S buf result_len data [] in
        if r \<noteq> 0 then overwrite 0 (replicate result_len 0) buf else buf)"

definition secret_key_to_public_key :: "bytes \<Rightarrow> bytes result" where
  "secret_key_to_public_key sec =
     bindr (crypto_keccak (take 32 sec) zeros32 32) (\<lambda>pub.
       let pub = pub[0 := pub ! 0 AND 0xF8];
           pub = pub[31 := pub ! 31 AND 0x7F]
       in Inr (pub[31 := pub ! 31 OR 0x40]))"

definition generate_keys :: "(nat \<Rightarrow> byte) \<Rightarrow> (bytes \<times> bytes) result" where
  "generate_keys draw =
     (let sec = map draw [0..<32] in bindr (secret_key_to_public_key sec) (\<lambda>pub. Inr (pub, sec)))"

definition xor3 :: "bytes \<Rightarrow> bytes \<Rightarrow> bytes \<Rightarrow> bytes" where
  "xor3 a b c = map (\<lambda>i. a ! i XOR b ! i XOR c ! i) [0..<32]"

definition derive_stealth_address :: "bytes \<Rightarrow> bytes \<Rightarrow> bytes \<Rightarrow> u64 \<Rightarrow> bytes result" where
  "derive_stealth_address spend_public_key view_public_key tx_secret_key output_index =
     bindr (crypto_keccak (take 32 tx_secret_key) zeros32 32) (\<lambda>shared_secret.
       let hash_buf = shared_secret @ word_to_le 8 output_index in
       bindr (crypto_keccak hash_buf zeros32 32) (\<lambda>scalar_hash.
         Inr (xor3 spend_public_key scalar_hash view_public_key)))"

definition generate_key_image :: "bytes \<Rightarrow> bytes \<Rightarrow> bytes result" where
  "generate_key_image derived_stealth_key derived_secret_key =
     bindr (crypto_keccak (take 32 derived_stealth_key) zeros32 32) (\<lambda>hp.
       Inr (map (\<lambda>i. hp ! i XOR derived_secret_key ! i) [0..<32]))"

lemma crypto_keccak_32: "length buf = 32 \<Longrightarrow> crypto_keccak data buf 32 = keccak data 32"
  using keccak_32_total [of data] by (auto simp: crypto_keccak_def overwrite_def arr32_def)

lemma crypto_keccak_obtain:
  obtains h where "crypto_keccak data zeros32 32 = Inr h" "keccak data 32 = Inr h" "arr32 h"
  using keccak_32_total [of data] crypto_keccak_32 [of zeros32 data] by (auto simp: zeros32_def)

lemma word_xor_cancel: "(a XOR b) XOR b = (a :: 'a::len word)" "b XOR (b XOR a) = (a :: 'a::len word)"
  by (simp_all flip: xor.assoc) (simp add: xor.assoc)

text \<open>The BLAKE2b wrapper is total: for every length its guard admits it leaves the digest of RFC 7693 in the
  front of the buffer, so its zero-filling fallback is dead code, and otherwise it leaves the buffer alone.\<close>

theorem crypto_blake2b_total:
  "crypto_blake2b S data buf n = (if n = 0 \<or> 64 < n then buf else rfc_blake2b n [] data @ drop n buf)"
  by (simp add: crypto_blake2b_def blake2b_code)

text \<open>The length guard of the wrapper and the checks of the hash under it disagree: of the lengths 1 to 64 the
  guard admits, only 32, 40, 48, 56 and 64 return a digest; every other one aborts the process.
  Lengths the guard refuses leave the buffer as it was.\<close>

theorem crypto_keccak_lengths:
  "(\<exists>out. crypto_keccak data buf n = Inr out) \<longleftrightarrow> n = 0 \<or> 64 < n \<or> n \<in> {32, 40, 48, 56, 64}"
proof (cases "n = 0 \<or> 64 < n")
  case False
  then have "(\<exists>h. keccak data (int n) = Inr h) \<longleftrightarrow> int n \<in> {32, 40, 48, 56, 64}"
    by (intro keccak_returns_iff) auto
  with False show ?thesis by (auto simp: crypto_keccak_def bindr_def split: sum.splits)
qed (auto simp: crypto_keccak_def)

lemma six_bits: "(2 :: nat) ^ 6 = 64" by simp

lemma clamp_high: "64 \<le> ((n :: nat) AND 127) OR 64" "((n :: nat) AND 127) OR 64 < 128"
proof -
  let ?y = "(n AND 127) OR 64"
  have m: "n AND 127 = take_bit 7 n" by (simp add: take_bit_eq_mask mask_eq_exp_minus_1)
  have "take_bit 7 (64 :: nat) = 64" by (simp add: take_bit_eq_mod)
  then have "take_bit 7 ?y = ?y" by (simp only: m take_bit_or) simp
  then show "?y < 128" using take_bit_nat_less_exp [of 7 ?y] by simp
  have "bit (64 :: nat) 6" by (simp add: bit_iff_odd)
  then have "bit ?y 6" by (simp add: bit_or_iff)
  then have "take_bit 6 ?y \<noteq> ?y" by (metis bit_take_bit_iff less_irrefl)
  then show "64 \<le> ?y" by (metis not_le take_bit_nat_eq_self_iff six_bits)
qed

text \<open>Every public key has the clamped shape: 32 bytes, the three low bits of the first clear, the top bits
  of the last 01; key generation returns for every secret.\<close>

theorem public_key_clamped:
  "\<exists>pub. secret_key_to_public_key sec = Inr pub \<and> arr32 pub
     \<and> unat (pub ! 0) mod 8 = 0 \<and> 64 \<le> unat (pub ! 31) \<and> unat (pub ! 31) < 128"
proof -
  obtain h where h: "crypto_keccak (take 32 sec) zeros32 32 = Inr h" "arr32 h"
    using crypto_keccak_obtain by blast
  have low: "unat (x AND 0xF8) mod 8 = 0" for x :: byte
  proof -
    have "take_bit 3 (unat (x AND 0xF8)) = take_bit 3 (unat x) AND take_bit 3 248"
      by (simp add: unsigned_and_eq take_bit_and)
    also have "take_bit 3 (248 :: nat) = 0" by (simp add: take_bit_eq_mod)
    finally show ?thesis by (simp add: take_bit_eq_mod)
  qed
  have high: "64 \<le> unat (x AND 0x7F OR 0x40)" "unat (x AND 0x7F OR 0x40) < 128" for x :: byte
    using clamp_high [of "unat x"] by (simp_all add: unsigned_and_eq unsigned_or_eq)
  show ?thesis
    using h low high by (auto simp: secret_key_to_public_key_def Let_def arr32_def)
qed

text \<open>A key image gives the secret key away: it is the secret masked by a hash of the one-time address, which
  is public, so XORing the two returns the secret.\<close>

theorem key_image_reveals_secret:
  assumes "arr32 x" "generate_key_image p x = Inr img" "keccak (take 32 p) 32 = Inr hp"
  shows "map2 (XOR) hp img = x"
proof -
  obtain h where h: "crypto_keccak (take 32 p) zeros32 32 = Inr h" "keccak (take 32 p) 32 = Inr h" "arr32 h"
    using crypto_keccak_obtain by blast
  then have "img = map (\<lambda>i. hp ! i XOR x ! i) [0..<32]" and "length hp = 32"
    using assms(2,3) by (auto simp: generate_key_image_def arr32_def)
  then show ?thesis
    using assms(1) by (intro nth_equalityI) (simp_all add: arr32_def word_xor_cancel)
qed

theorem key_image_reveals_secret_witness:
  "\<exists>img hp. generate_key_image (replicate 32 9) (replicate 32 5) = Inr img
     \<and> keccak (replicate 32 9) 32 = Inr hp \<and> map2 (XOR) hp img = replicate 32 5"
proof -
  obtain hp where hp: "crypto_keccak (replicate 32 9) zeros32 32 = Inr hp" "keccak (replicate 32 9) 32 = Inr hp"
    using crypto_keccak_obtain by blast
  then obtain img where i: "generate_key_image (replicate 32 9) (replicate 32 5) = Inr img"
    by (simp add: generate_key_image_def)
  have "map2 (XOR) hp img = replicate 32 5"
    by (rule key_image_reveals_secret [OF _ i]) (simp_all add: arr32_def hp)
  with i hp show ?thesis by blast
qed

text \<open>Whoever knows a transaction's secret key can tell which address an output pays: the one-time key
  returns the recipient's spend key once the hash and the recipient's view key are taken off.\<close>

theorem stealth_address_opens:
  assumes "arr32 spend" "arr32 view"
  shows "\<exists>mask. arr32 mask \<and> (\<forall>spend' view'. derive_stealth_address spend' view' r i = Inr (xor3 spend' mask view'))
     \<and> bindr (derive_stealth_address spend view r i) (\<lambda>p. Inr (xor3 p mask view)) = Inr spend"
proof -
  obtain s where s: "crypto_keccak (take 32 r) zeros32 32 = Inr s" using crypto_keccak_obtain by blast
  obtain m where m: "crypto_keccak (s @ word_to_le 8 i) zeros32 32 = Inr m" "arr32 m" using crypto_keccak_obtain by blast
  have d: "derive_stealth_address spend' view' r i = Inr (xor3 spend' m view')" for spend' view'
    using s m by (simp add: derive_stealth_address_def)
  have "a XOR b XOR c XOR b XOR c = a" for a b c :: byte
    by (simp add: xor.left_commute xor.commute xor.assoc)
  then have "xor3 (xor3 spend m view) m view = spend"
    using assms by (intro nth_equalityI) (simp_all add: xor3_def arr32_def xor.assoc)
  with d m show ?thesis by auto
qed

theorem stealth_address_opens_witness:
  "\<exists>mask. bindr (derive_stealth_address (replicate 32 1) (replicate 32 2) (replicate 32 3) 0)
     (\<lambda>p. Inr (xor3 p mask (replicate 32 2))) = Inr (replicate 32 1)"
  using stealth_address_opens [of "replicate 32 1" "replicate 32 2" "replicate 32 3" 0] by (auto simp: arr32_def)

end
