(* ===== verification/Stod.thy ===== *)
theory Stod
  imports Bytes Doubles
begin

text \<open>
  \<open>std::stod\<close> and the decimal reader under it (\<open>strtod\<close> in the C locale): white space, a sign,
  then a decimal literal, a hexadecimal literal, or the words \<open>inf\<close>, \<open>infinity\<close>, \<open>nan\<close>. The exact
  rational value is rounded once. \<open>stod\<close> throws \<open>invalid_argument\<close> when nothing is read and
  \<open>out_of_range\<close> when \<open>strtod\<close> reports a range error: overflow, or a nonzero result below the
  normal range.
\<close>

datatype parsed = Finite rat | NonFinite

definition pow_base :: "rat \<Rightarrow> int \<Rightarrow> rat" where
  "pow_base b e = (if 0 \<le> e then b ^ nat e else 1 / b ^ nat (- e))"

definition split_digits :: "(char \<Rightarrow> bool) \<Rightarrow> string \<Rightarrow> string \<times> string \<times> string" where
  "split_digits p s =
     (let ip = takeWhile p s; r = dropWhile p s
      in case r of
           c # t \<Rightarrow> if c = CHR ''.'' then (ip, takeWhile p t, dropWhile p t) else (ip, [], r)
         | [] \<Rightarrow> (ip, [], []))"

definition exponent_part :: "char list \<Rightarrow> string \<Rightarrow> int" where
  "exponent_part marks s = (case s of [] \<Rightarrow> 0
     | c # t \<Rightarrow> if c \<in> set marks then
                 let (neg, u) = strip_sign t; ds = takeWhile is_digit u
                 in if ds = [] then 0 else if neg then - int (digits_val ds) else int (digits_val ds)
               else 0)"

definition decimal_value :: "string \<Rightarrow> rat option" where
  "decimal_value s =
     (let (ip, fp, r) = split_digits is_digit s
      in if ip = [] \<and> fp = [] then None
         else Some (of_nat (digits_val (ip @ fp))
                    * pow_base 10 (exponent_part [CHR ''e'', CHR ''E''] r - int (length fp))))"

definition is_hex :: "char \<Rightarrow> bool" where
  "is_hex c \<longleftrightarrow> hex_val c \<noteq> None"

definition hex_value :: "string \<Rightarrow> rat option" where
  "hex_value s =
     (let (ip, fp, r) = split_digits is_hex s
      in if ip = [] \<and> fp = [] then None
         else Some (of_nat (hex_run (ip @ fp) 0)
                    * pow_base 2 (exponent_part [CHR ''p'', CHR ''P''] r - 4 * int (length fp))))"

definition lower :: "char \<Rightarrow> char" where
  "lower c = (if (65 :: nat) \<le> of_char c \<and> of_char c \<le> (90 :: nat) then char_of (of_char c + 32 :: nat) else c)"

definition literal_value :: "string \<Rightarrow> parsed option" where
  "literal_value s =
     (let w = map lower (take 3 s) in
      if w = ''inf'' \<or> w = ''nan'' then Some NonFinite
      else if map lower (take 2 s) = ''0x'' \<and> hex_value (drop 2 s) \<noteq> None
      then map_option Finite (hex_value (drop 2 s))
      else map_option Finite (decimal_value s))"

definition negate :: "bool \<Rightarrow> rat \<Rightarrow> rat" where
  "negate neg x = (if neg then - x else x)"

definition stod :: "string \<Rightarrow> parsed result" where
  "stod s =
     (let (neg, t) = strip_sign (dropWhile is_space s)
      in case literal_value t of
           None \<Rightarrow> Inl InvalidArgument
         | Some NonFinite \<Rightarrow> Inr NonFinite
         | Some (Finite x) \<Rightarrow>
             if pow2 1024 \<le> fl x \<or> 0 < x \<and> x < pow2 (- 1022) then Inl OutOfRange
             else Inr (Finite (negate neg (fl x))))"

section \<open>Reading a fixed-point number\<close>

lemma takeWhile_digits: "(\<And>c. c \<in> set s \<Longrightarrow> p c) \<Longrightarrow> \<not> p d \<Longrightarrow> takeWhile p (s @ d # t) = s"
  by (induction s) auto

lemma dropWhile_digits: "(\<And>c. c \<in> set s \<Longrightarrow> p c) \<Longrightarrow> \<not> p d \<Longrightarrow> dropWhile p (s @ d # t) = d # t"
  by (induction s) auto

lemma decimal_value_fixed:
  assumes "\<And>c. c \<in> set ip \<Longrightarrow> is_digit c" "\<And>c. c \<in> set fp \<Longrightarrow> is_digit c" "ip \<noteq> []"
    and "\<not> is_digit d" "d \<noteq> CHR ''e''" "d \<noteq> CHR ''E''"
  shows "decimal_value (ip @ CHR ''.'' # fp @ d # t)
         = Some (of_nat (digits_val ip * 10 ^ length fp + digits_val fp) / 10 ^ length fp)"
proof -
  have dot: "\<not> is_digit (CHR ''.'')" by (simp add: is_digit_def)
  have "split_digits is_digit (ip @ CHR ''.'' # fp @ d # t) = (ip, fp, d # t)"
    using assms(1,2,4) dot by (simp add: split_digits_def takeWhile_digits dropWhile_digits)
  then show ?thesis
    using assms(3,5,6)
    by (simp add: decimal_value_def exponent_part_def pow_base_def digits_val_append)
qed

lemma digit_not_special:
  "is_digit c \<Longrightarrow> \<not> is_space c \<and> c \<noteq> CHR ''-'' \<and> c \<noteq> CHR ''+'' \<and> lower c = c
     \<and> c \<noteq> CHR ''i'' \<and> c \<noteq> CHR ''n'' \<and> c \<noteq> CHR ''x''"
  by (auto simp: is_digit_def is_space_def lower_def)

lemma literal_value_digit:
  assumes "is_digit c" "is_digit d \<or> d = CHR ''.''"
  shows "literal_value (c # d # s) = map_option Finite (decimal_value (c # d # s))"
proof -
  have "lower d = d \<and> d \<noteq> CHR ''x''" using assms(2) digit_not_special [of d] by (auto simp: lower_def)
  with assms(1) show ?thesis
    by (simp add: literal_value_def Let_def digit_not_special)
qed

text \<open>The text of a nonnegative fixed-point number is read as its exact value, rounded once.\<close>

lemma stod_fixed:
  assumes ip: "\<And>c. c \<in> set ip \<Longrightarrow> is_digit c" "ip \<noteq> []"
    and fp: "\<And>c. c \<in> set fp \<Longrightarrow> is_digit c"
    and d: "\<not> is_digit d" "d \<noteq> CHR ''e''" "d \<noteq> CHR ''E''"
    and x: "x = of_nat (digits_val ip * 10 ^ length fp + digits_val fp) / 10 ^ length fp"
    and range: "fl x < pow2 1024" "x = 0 \<or> pow2 (- 1022) \<le> x"
  shows "stod (ip @ CHR ''.'' # fp @ d # t) = Inr (Finite (fl x))"
proof -
  obtain c u where c: "ip = c # u" using ip(2) by (cases ip) auto
  have cd: "is_digit c" using ip(1) c by simp
  obtain e v where e: "u @ CHR ''.'' # fp @ d # t = e # v" "is_digit e \<or> e = CHR ''.''"
    using ip(1) c by (cases u) auto
  have "decimal_value (ip @ CHR ''.'' # fp @ d # t) = Some x"
    unfolding x by (rule decimal_value_fixed) (use ip fp d in auto)
  moreover have "ip @ CHR ''.'' # fp @ d # t = c # e # v" using c e(1) by simp
  ultimately have "literal_value (ip @ CHR ''.'' # fp @ d # t) = Some (Finite x)"
    using literal_value_digit [OF cd e(2), of v] by simp
  moreover have "strip_sign (dropWhile is_space (ip @ CHR ''.'' # fp @ d # t)) = (False, ip @ CHR ''.'' # fp @ d # t)"
    using digit_not_special [OF cd] by (simp add: c strip_sign_def)
  ultimately show ?thesis
    using range by (auto simp: stod_def negate_def)
qed

end
