(* ===== verification/Emission.thy ===== *)
theory Emission
  imports Config Stod
begin

text \<open>
  src/cryptonote_core/emission.cpp: the block reward, and money as text. \<open>get_block_reward\<close> is the
  code's integer arithmetic on \<open>u64\<close>; \<open>parse_money\<close> goes through \<open>double\<close> as the code does, so
  what it returns is stated through the rounding of theory Doubles.
\<close>

definition BASE_SUPPLY :: u64 where
  "BASE_SUPPLY = 18400000 * COIN_UNITS"

definition TAIL_EMISSION_REWARD :: u64 where
  "TAIL_EMISSION_REWARD = 600000000000"

definition get_block_reward :: "u64 \<Rightarrow> u64 \<Rightarrow> u64" where
  "get_block_reward already_generated_coins current_height =
     (if current_height = 0 then 100 * COIN_UNITS
      else if BASE_SUPPLY \<le> already_generated_coins then TAIL_EMISSION_REWARD
      else let base_reward = drop_bit EMISSION_SPEED_FACTOR_PER_MINUTE (BASE_SUPPLY - already_generated_coins)
           in if base_reward < TAIL_EMISSION_REWARD then TAIL_EMISSION_REWARD else base_reward)"

definition print_money :: "u64 \<Rightarrow> string" where
  "print_money amount =
     dec (unat (amount div COIN_UNITS)) @ ''.'' @
     zero_pad 12 (dec (unat (amount mod COIN_UNITS))) @ '' XRL''"

definition parse_money :: "string \<Rightarrow> u64 result" where
  "parse_money str = bindr (stod str) (\<lambda>v. case v of
       NonFinite \<Rightarrow> Inl FloatCast
     | Finite val \<Rightarrow> u64_of_double (fl (val * double_of_u64 COIN_UNITS)))"

section \<open>The reward\<close>

lemma unat_BASE_SUPPLY: "unat BASE_SUPPLY = 18400000000000000000"
  and unat_TAIL: "unat TAIL_EMISSION_REWARD = 600000000000"
  and unat_COIN_UNITS: "unat COIN_UNITS = 1000000000000"
  by (simp_all add: BASE_SUPPLY_def TAIL_EMISSION_REWARD_def COIN_UNITS_def)

text \<open>The reward as a natural number.\<close>

definition reward_nat :: "nat \<Rightarrow> nat" where
  "reward_nat g = max 600000000000 ((18400000000000000000 - g) div 2 ^ 20)"

lemma get_block_reward_nat:
  "h \<noteq> 0 \<Longrightarrow> unat (get_block_reward g h) = reward_nat (unat g)"
proof -
  assume h: "h \<noteq> 0"
  show ?thesis
  proof (cases "BASE_SUPPLY \<le> g")
    case True
    then show ?thesis
      using h by (simp add: get_block_reward_def reward_nat_def unat_TAIL word_le_nat_alt unat_BASE_SUPPLY)
  next
    case False
    then have "unat (BASE_SUPPLY - g) = 18400000000000000000 - unat g"
      using unat_sub_le [of g BASE_SUPPLY] by (simp add: unat_BASE_SUPPLY)
    then have "unat (drop_bit 20 (BASE_SUPPLY - g)) = (18400000000000000000 - unat g) div 2 ^ 20"
      by (simp only: unat_drop_bit_eq) (simp add: drop_bit_eq_div)
    with False h show ?thesis
      by (simp add: get_block_reward_def Let_def reward_nat_def EMISSION_SPEED_FACTOR_PER_MINUTE_def
          word_less_nat_alt unat_TAIL)
  qed
qed

lemma reward_nat_antimono: "g \<le> g' \<Longrightarrow> reward_nat g' \<le> reward_nat g"
  unfolding reward_nat_def by (intro max.mono order_refl div_le_mono diff_le_mono2)

lemma reward_nat_range: "600000000000 \<le> reward_nat g" "reward_nat g \<le> 17547607421875"
  using reward_nat_antimono [of 0 g] by (simp_all add: reward_nat_def)

text \<open>C36: After the genesis block the reward never leaves the interval from the tail reward (0.6 XRL) to
  17.547607421875 XRL, and it never rises as coins are generated.\<close>

theorem block_reward_range_antimono:
  assumes "h \<noteq> 0" "h' \<noteq> 0" "g \<le> g'"
  shows "TAIL_EMISSION_REWARD \<le> get_block_reward g h \<and> get_block_reward g h \<le> 17547607421875
         \<and> get_block_reward g' h' \<le> get_block_reward g h"
  using assms reward_nat_range reward_nat_antimono [of "unat g" "unat g'"]
  by (simp add: word_le_nat_alt get_block_reward_nat unat_TAIL)

theorem block_reward_range_antimono_witness:
  "TAIL_EMISSION_REWARD \<le> get_block_reward 0 1 \<and> get_block_reward 0 1 \<le> 17547607421875
   \<and> get_block_reward BASE_SUPPLY 2 \<le> get_block_reward 0 1"
  using block_reward_range_antimono [of 1 2 0 BASE_SUPPLY] by simp

section \<open>The emission over a chain\<close>

text \<open>
  The counter every caller keeps (the rescan loop of wallet.cpp): blocks 1, 2, ... each add their
  reward to a \<open>uint64_t\<close>.
\<close>

fun generated_after :: "nat \<Rightarrow> u64 \<Rightarrow> u64" where
  "generated_after 0 g = g"
| "generated_after (Suc n) g = generated_after n (g + get_block_reward g 1)"

lemma generated_step_below:
  assumes "unat g < 18400000000000000000"
  shows "unat (g + get_block_reward g 1) = unat g + reward_nat (unat g)"
    "unat g + reward_nat (unat g) < 18400000600000000000"
proof -
  have r: "reward_nat (unat g) = 600000000000 \<or> reward_nat (unat g) \<le> 18400000000000000000 - unat g"
    by (auto simp: reward_nat_def max_def)
  with assms show lt: "unat g + reward_nat (unat g) < 18400000600000000000" by linarith
  then show "unat (g + get_block_reward g 1) = unat g + reward_nat (unat g)"
    by (subst unat_add_no_wrap) (simp_all add: get_block_reward_nat)
qed

lemma generated_tail:
  "18400000000000000000 \<le> unat g \<Longrightarrow> unat g + n * 600000000000 < 2 ^ 64 \<Longrightarrow>
   unat (generated_after n g) = unat g + n * 600000000000"
proof (induction n arbitrary: g)
  case (Suc n)
  have r: "unat (get_block_reward g 1) = 600000000000"
    using Suc.prems(1) by (simp add: get_block_reward_nat reward_nat_def)
  have "unat (g + get_block_reward g 1) = unat g + 600000000000"
    using Suc.prems r by (subst unat_add_no_wrap) simp_all
  then show ?case using Suc.IH [of "g + get_block_reward g 1"] Suc.prems by simp
qed simp

lemma generated_after_add: "generated_after (m + n) g = generated_after n (generated_after m g)"
  by (induction m arbitrary: g) simp_all

text \<open>The tail emission is not perpetual. Once the base supply has been generated the counter is driven
  past 2^64 within 77,908 blocks; it wraps to less than one tail reward, and the next block is paid
  more than 17 XRL, as in the first days of the chain.\<close>

theorem tail_emission_wraps:
  assumes "BASE_SUPPLY \<le> g"
  shows "\<exists>n \<le> 77908. generated_after n g < TAIL_EMISSION_REWARD
         \<and> 17547606849670 \<le> get_block_reward (generated_after n g) 1"
proof -
  define n where "n = (2 ^ 64 - 1 - unat g) div 600000000000"
  have g: "18400000000000000000 \<le> unat g" "unat g < 18446744073709551616"
    using assms unat_u64_less [of g] by (simp_all add: word_le_nat_alt unat_BASE_SUPPLY)
  have n: "n * 600000000000 \<le> 2 ^ 64 - 1 - unat g" "2 ^ 64 - 1 - unat g < n * 600000000000 + 600000000000"
    by (simp_all add: n_def div_times_less_eq_dividend dividend_less_div_times)
  then have top: "unat (generated_after n g) = unat g + n * 600000000000"
    using g by (intro generated_tail) simp_all
  have step: "generated_after (Suc n) g = generated_after n g + get_block_reward (generated_after n g) 1"
    using generated_after_add [of n 1 g] by simp
  have "unat (get_block_reward (generated_after n g) 1) = 600000000000"
    using top g by (simp add: get_block_reward_nat reward_nat_def)
  then have "unat (generated_after (Suc n) g) = (unat g + n * 600000000000 + 600000000000) mod 2 ^ 64"
    by (simp only: step unat_word_ariths top) simp
  also have "\<dots> = unat g + n * 600000000000 + 600000000000 - 2 ^ 64"
    using n g by (subst mod_if) (simp add: mod_if)
  finally have lt: "unat (generated_after (Suc n) g) < 600000000000" using n g by simp
  then have "reward_nat 600000000000 \<le> reward_nat (unat (generated_after (Suc n) g))"
    by (intro reward_nat_antimono) simp
  then have "17547606849670 \<le> unat (get_block_reward (generated_after (Suc n) g) 1)"
    by (simp add: get_block_reward_nat reward_nat_def)
  moreover have "Suc n \<le> 77908" using n(1) g by simp
  ultimately show ?thesis
    using lt by (intro exI [of _ "Suc n"]) (simp add: word_less_nat_alt word_le_nat_alt unat_TAIL)
qed

theorem tail_emission_wraps_witness:
  "\<exists>n \<le> 77908. generated_after n BASE_SUPPLY < TAIL_EMISSION_REWARD
     \<and> 17547606849670 \<le> get_block_reward (generated_after n BASE_SUPPLY) 1"
  using tail_emission_wraps [of BASE_SUPPLY] by simp

section \<open>Money as text\<close>

lemma double_COIN_UNITS: "double_of_u64 COIN_UNITS = 1000000000000"
  using fl_of_nat [of 1000000000000] by (simp add: double_of_u64_def unat_COIN_UNITS)

lemma stod_print_money:
  "stod (print_money a) = Inr (Finite (fl (of_nat (unat a) / 1000000000000)))"
proof -
  let ?q = "unat a div 1000000000000" and ?r = "unat a mod 1000000000000"
  have parts: "unat (a div COIN_UNITS) = ?q" "unat (a mod COIN_UNITS) = ?r"
    by (simp_all add: unat_div unat_mod_distrib unat_COIN_UNITS)
  have len: "length (zero_pad 12 (dec ?r)) = 12" by (rule length_zero_pad) simp_all
  have e: "?q * 10 ^ 12 + ?r = unat a" by simp
  have x: "(of_nat (unat a) / 1000000000000 :: rat)
      = of_nat (digits_val (dec ?q) * 10 ^ length (zero_pad 12 (dec ?r)) + digits_val (zero_pad 12 (dec ?r)))
        / 10 ^ length (zero_pad 12 (dec ?r))"
    by (simp only: len digits_val_dec digits_val_zero_pad e) simp
  have up: "fl (of_nat (unat a) / 1000000000000) < pow2 1024"
  proof -
    have "(of_nat (unat a) :: rat) \<le> of_nat (2 ^ 64)"
      using unat_u64_less [of a] by (simp only: of_nat_le_iff) simp
    then have "fl (of_nat (unat a) / 1000000000000) \<le> fl (2 ^ 64)" by (intro fl_mono) simp_all
    also have "\<dots> = pow2 (int 64)" by (simp only: fl_power2 pow2_nat)
    also have "\<dots> < pow2 1024" by (simp only: pow2_less_iff)
    finally show ?thesis .
  qed
  have low: "of_nat (unat a) / 1000000000000 = (0 :: rat) \<or> pow2 (- 1022) \<le> of_nat (unat a) / 1000000000000"
  proof (cases "unat a = 0")
    case False
    have "pow2 (- 1022) \<le> pow2 (- 40)" by (simp only: pow2_le_iff)
    also have "\<dots> \<le> of_nat 1 / 1000000000000" by (simp add: pow2_def)
    also have "\<dots> \<le> of_nat (unat a) / 1000000000000" using False by (intro divide_right_mono) auto
    finally show ?thesis by simp
  qed simp
  have "stod (dec ?q @ CHR ''.'' # zero_pad 12 (dec ?r) @ CHR '' '' # ''XRL'')
      = Inr (Finite (fl (of_nat (unat a) / 1000000000000)))"
    by (rule stod_fixed [OF _ _ _ _ _ _ x up low])
       (auto simp: is_digit_def dest: dec_digits zero_pad_digits)
  then show ?thesis by (simp add: print_money_def parts)
qed

lemma parse_print_money:
  "parse_money (print_money a)
   = u64_of_double (fl (fl (of_nat (unat a) / 1000000000000) * 1000000000000))"
  by (simp add: parse_money_def stod_print_money double_COIN_UNITS)

text \<open>Rounding the quotient and then the product moves an amount below 2^52 by less than one unit.\<close>

lemma rounded_twice:
  fixes a :: rat
  assumes "1 \<le> a" "a \<le> 2 ^ 52 - 1"
  shows "\<bar>fl (fl (a / 1000000000000) * 1000000000000) - a\<bar> < 1"
proof -
  define x y where "x = a / 1000000000000" and "y = fl x * 1000000000000"
  have tiny: "pow2 (- 1022) \<le> pow2 (- 41)" "pow2 (- 41) = 1 / 2 ^ 41"
    by (simp only: pow2_le_iff, simp, simp add: pow2_def)
  have x: "0 < x" "1 / 2 ^ 40 \<le> x" using assms(1) by (simp_all add: x_def)
  then have "\<bar>fl x - x\<bar> \<le> x / 2 ^ 53"
    using tiny by (intro fl_error normal_if_ge) auto
  moreover have "a = x * 1000000000000" by (simp add: x_def)
  ultimately have ya: "\<bar>y - a\<bar> \<le> a / 2 ^ 53" unfolding y_def abs_le_iff by auto
  then have "y - a \<le> a / 2 ^ 53" "a - y \<le> a / 2 ^ 53" by (simp_all only: abs_le_iff minus_diff_eq)
  moreover have "a / 2 ^ 53 \<le> a / 2" using assms(1) by simp
  ultimately have y: "1 / 2 \<le> y" "y \<le> a + a / 2 ^ 53" using assms(1) by linarith+
  have "1 / 2 ^ 41 \<le> (1 / 2 :: rat)" by simp
  then have "pow2 (- 1022) \<le> y" using tiny y by linarith
  then have "\<bar>fl y - y\<bar> \<le> y / 2 ^ 53" using y by (intro fl_error normal_if_ge) auto
  moreover have "y / 2 ^ 53 \<le> (a + a / 2 ^ 53) / 2 ^ 53" using y by (intro divide_right_mono) auto
  moreover have "a / 2 ^ 53 + (a + a / 2 ^ 53) / 2 ^ 53 < 1" using assms(2) by simp
  ultimately show ?thesis using ya unfolding y_def x_def by linarith
qed

lemma u64_of_double_near:
  assumes "\<bar>x - of_nat n\<bar> < 1" "n < 2 ^ 52"
  shows "\<exists>b. u64_of_double x = Inr b \<and> (unat b = n \<or> unat b + 1 = n)"
proof (cases "0 \<le> x")
  case True
  have "(of_nat n :: rat) < of_nat (2 ^ 52)" using assms(2) by (simp only: of_nat_less_iff)
  then have lt: "x < 18446744073709551616" using assms(1) by (simp add: abs_less_iff)
  then have u: "u64_of_double x = Inr (of_nat (nat \<lfloor>x\<rfloor>))" using True by (simp add: u64_of_double_def)
  have "of_int (int n) - 1 < x" "x < of_int (int n) + 1" using assms(1) by (auto simp: abs_less_iff)
  then have "\<lfloor>x\<rfloor> = int n \<or> \<lfloor>x\<rfloor> = int n - 1" by linarith
  then have "nat \<lfloor>x\<rfloor> = n \<or> nat \<lfloor>x\<rfloor> + 1 = n" using True by auto
  with u u64_of_double_Inr [OF True u] show ?thesis by auto
next
  case False
  then have "of_nat n < (1 :: rat)" using assms(1) by (auto simp: abs_less_iff)
  then have "n = 0" by (metis less_one of_nat_1 of_nat_less_iff)
  moreover from this have "\<lfloor>x\<rfloor> < 0" "- 1 < x" using False assms(1) by (auto simp: abs_less_iff)
  ultimately show ?thesis using False by (auto simp: u64_of_double_def)
qed

text \<open>Printing an amount below 2^52 atomic units (4503.6 XRL) and parsing it back returns the amount or
  one unit less: never more, and never an error.\<close>

theorem parse_print_money_near:
  assumes "unat a < 2 ^ 52"
  shows "\<exists>b. parse_money (print_money a) = Inr b \<and> (unat b = unat a \<or> unat b + 1 = unat a)"
proof (cases "unat a = 0")
  case True
  then show ?thesis by (simp add: parse_print_money u64_of_double_def)
next
  case False
  have "(of_nat 1 :: rat) \<le> of_nat (unat a)" "(of_nat (unat a) :: rat) \<le> of_nat (2 ^ 52 - 1)"
    using False assms by (simp_all only: of_nat_le_iff)
  then show ?thesis
    unfolding parse_print_money using assms by (intro u64_of_double_near rounded_twice) simp_all
qed

text \<open>Whole coins survive the trip: printing any multiple of one XRL that a uint64_t holds and parsing it
  back returns it exactly.\<close>

theorem parse_print_money_whole:
  assumes "unat a = n * 1000000000000"
  shows "parse_money (print_money a) = Inr a"
proof -
  have n: "n \<le> 18446744" using assms unat_u64_less [of a] by linarith
  then have v: "fl (of_nat n) = of_nat n" by (intro fl_of_nat) simp
  have "fl (of_int (int (n * 244140625)) * pow2 12) = of_int (int (n * 244140625)) * pow2 12"
    using n by (intro fl_exact) simp_all
  then have y: "fl (of_nat n * 1000000000000) = of_nat n * 1000000000000"
    by (simp add: pow2_def mult.commute)
  have "parse_money (print_money a) = u64_of_double (of_nat (unat a))"
    unfolding parse_print_money assms using v y by simp
  also have "\<dots> = Inr a" using u64_of_double_of_nat [of "unat a"] unat_u64_less [of a] by simp
  finally show ?thesis .
qed

theorem parse_print_money_whole_witness:
  "parse_money (print_money 250000000000000) = Inr 250000000000000"
  using parse_print_money_whole [of 250000000000000 250] by simp

lemma fl_61: "fl (61 / 1000000000000) = 4719646399775512 * pow2 (- 86)"
  using fl_eqI [of "61 / 1000000000000" "- 34" 4719646399775512] by (simp add: pow2_def)

lemma fl_61_back: "fl (4719646399775512 * pow2 (- 86) * 1000000000000) = 8584986789675007 * pow2 (- 47)"
  using fl_eqI [of "4719646399775512 * pow2 (- 86) * 1000000000000" 5 8584986789675007] by (simp add: pow2_def)

text \<open>The bound is attained: 61 atomic units come back as 60.\<close>

theorem parse_print_money_near_witness:
  "parse_money (print_money 61) = Inr 60 \<and> (\<exists>b. parse_money (print_money 61) = Inr b
     \<and> (unat b = unat (61 :: u64) \<or> unat b + 1 = unat (61 :: u64)))"
proof
  have "\<lfloor>8584986789675007 / 140737488355328 :: rat\<rfloor> = 60" by (simp add: floor_eq_iff)
  then show "parse_money (print_money 61) = Inr 60"
    by (simp add: parse_print_money) (simp only: fl_61 fl_61_back, simp add: u64_of_double_def pow2_def)
  show "\<exists>b. parse_money (print_money 61) = Inr b
     \<and> (unat b = unat (61 :: u64) \<or> unat b + 1 = unat (61 :: u64))"
    by (rule parse_print_money_near) simp
qed

end
