(* ===== verification/Wallet.thy ===== *)
theory Wallet
  imports Crypto Emission Storage TxPool
begin

text \<open>
  src/wallet/wallet.cpp and wallet.h: class Wallet, with the command loop of wallet_main.cpp and the
  start of wallet_rpc_main.cpp. The draws of the random distributions are arguments; the input
  is the list of lines read, and what the commands write is in Terminal.
\<close>

record WalletTransfer =
  tr_tx_hash :: string
  tr_amount :: u64
  tr_height :: u64
  is_incoming :: bool
  is_unlocked :: bool
  recipient_address :: string

record wallet =
  m_filename :: string
  m_address :: string
  m_mnemonic :: string
  m_spend_public_key :: bytes
  m_view_public_key :: bytes
  m_spend_private_key :: bytes
  m_view_private_key :: bytes
  m_total_balance :: u64
  m_unlocked_balance :: u64
  m_history :: "WalletTransfer list"

definition new_wallet :: "bytes \<Rightarrow> wallet" where
  "new_wallet junk = \<lparr>m_filename = [], m_address = [], m_mnemonic = [], m_spend_public_key = junk,
     m_view_public_key = junk, m_spend_private_key = junk, m_view_private_key = junk,
     m_total_balance = 0, m_unlocked_balance = 0, m_history = []\<rparr>"

definition MNEMONIC_DICTIONARY :: "string list" where
  "MNEMONIC_DICTIONARY = [
    ''abbey'', ''abduct'', ''ability'', ''ablaze'', ''abnormal'', ''abode'', ''abolish'', ''abound'',
    ''abrasive'', ''abrupt'', ''absent'', ''absorb'', ''abstract'', ''absurd'', ''abundant'', ''academic'',
    ''academy'', ''accelerate'', ''accent'', ''accept'', ''access'', ''accident'', ''acclaim'', ''accommodate'',
    ''accompany'', ''accomplish'', ''accord'', ''account'', ''accumulate'', ''accurate'', ''accuse'', ''accustom'',
    ''achieve'', ''acid'', ''acknowledge'', ''acorn'', ''acoustic'', ''acquire'', ''acre'', ''across'',
    ''action'', ''active'', ''actor'', ''actress'', ''actual'', ''acute'', ''adamant'', ''adapt'']"

text \<open>The loop of create_new over 25 words, with a space after each but the last.\<close>

definition mnemonic_words :: "(nat \<Rightarrow> nat) \<Rightarrow> string" where
  "mnemonic_words dis =
     concat (map (\<lambda>i. MNEMONIC_DICTIONARY ! dis i @ (if i < 24 then '' '' else [])) [0..<25])"

definition address_of :: "bytes \<Rightarrow> bytes \<Rightarrow> string" where
  "address_of spend view =
     ''XRL4'' @ concat (map (\<lambda>i. byte_hex (spend ! i)) [0..<16]) @ concat (map (\<lambda>i. byte_hex (view ! i)) [0..<16])"

definition create_new ::
  "(nat \<Rightarrow> nat) \<Rightarrow> (nat \<Rightarrow> byte) \<Rightarrow> (nat \<Rightarrow> byte) \<Rightarrow> string \<Rightarrow> string \<Rightarrow> wallet \<Rightarrow> (bool \<times> wallet) result" where
  "create_new dis draw1 draw2 wallet_name password w =
     (let w = w\<lparr>m_filename := wallet_name, m_mnemonic := mnemonic_words dis\<rparr> in
      bindr (generate_keys draw1) (\<lambda>(spend, spend_sec).
      bindr (generate_keys draw2) (\<lambda>(view, view_sec).
        Inr (True, w\<lparr>m_spend_public_key := spend, m_spend_private_key := spend_sec,
                     m_view_public_key := view, m_view_private_key := view_sec,
                     m_address := address_of spend view,
                     m_total_balance := 250 * COIN_UNITS, m_unlocked_balance := 250 * COIN_UNITS\<rparr>))))"

definition load_wallet :: "string \<Rightarrow> string \<Rightarrow> wallet \<Rightarrow> bool \<times> wallet" where
  "load_wallet wallet_name password w = (False, w\<lparr>m_filename := wallet_name\<rparr>)"

definition get_balance :: "wallet \<Rightarrow> u64 \<times> u64" where
  "get_balance w = (m_total_balance w, m_unlocked_balance w)"

text \<open>The loop of rescan_blockchain over \<open>i = 1, ..., size - 1\<close>.\<close>

fun rescan_loop :: "u64 \<Rightarrow> nat list \<Rightarrow> u64 \<Rightarrow> u64 \<Rightarrow> u64 \<Rightarrow> u64 \<times> u64" where
  "rescan_loop top_height [] generated tot unlocked = (tot, unlocked)"
| "rescan_loop top_height (i # is) generated tot unlocked =
     (let reward = get_block_reward generated (of_nat i) in
      rescan_loop top_height is (generated + reward) (tot + reward)
        (if of_nat (i + CRYPTONOTE_DEFAULT_TX_SPENDABLE_AGE) \<le> top_height then unlocked + reward else unlocked))"

definition rescan_blockchain :: "filesystem \<Rightarrow> string \<Rightarrow> wallet \<Rightarrow> u64 \<times> wallet" where
  "rescan_blockchain fs data_dir w =
     (let (opened, db) = db_open new_database data_dir in
      if \<not> opened then (m_total_balance w, w)
      else let (ok, blocks, timestamps, cumulative_difficulties, spent_key_images) = load_chain db fs [] [] [] {} in
        if ok \<and> blocks \<noteq> [] then
          let (tot, unlocked) = rescan_loop (of_nat (length blocks)) [1..<length blocks] 0 0 0;
              w = w\<lparr>m_total_balance := tot, m_unlocked_balance := unlocked\<rparr>
          in (m_total_balance w, w)
        else (m_total_balance w, w))"

definition resize_bytes :: "nat \<Rightarrow> byte \<Rightarrow> bytes \<Rightarrow> bytes" where
  "resize_bytes n v xs = take n xs @ replicate (n - length xs) v"

definition transfer_input :: txin_to_key where
  "transfer_input = blank_txin\<lparr>in_amount := 0, key_offsets := map (\<lambda>i. of_nat (100 + i * 5)) [0..<16]\<rparr>"

definition transfer_output :: tx_out where
  "transfer_output = blank_tx_out\<lparr>out_amount := 0, out_target := \<lparr>out_key = zeros32[0 := 0x99]\<rparr>\<rparr>"

definition build_transfer :: "transaction \<Rightarrow> transaction" where
  "build_transfer tx =
     (let tx = tx\<lparr>tx_version := 2, unlock_time := 0, vin := vin tx @ [transfer_input],
                  vout := vout tx @ [transfer_output]\<rparr>
      in tx\<lparr>rct := rct tx\<lparr>rct_type := 6, txnFee := 1000000000,
              bulletproof_plus_bytes := resize_bytes 128 0xAA (bulletproof_plus_bytes (rct tx)),
              clsag_signatures := resize_bytes 256 0xBB (clsag_signatures (rct tx))\<rparr>\<rparr>)"

definition transfer_record :: "string \<Rightarrow> u64 \<Rightarrow> WalletTransfer" where
  "transfer_record dst_address amount =
     \<lparr>tr_tx_hash = ''0xa1b2c3d4e5f67890123456789abcdef0123456789abcdef0123456789abcdef0'',
      tr_amount = amount, tr_height = 42, is_incoming = False, is_unlocked = True,
      recipient_address = dst_address\<rparr>"

text \<open>The returned flag, the two out-parameters and the wallet.\<close>

definition create_transfer ::
  "string \<Rightarrow> u64 \<Rightarrow> transaction \<Rightarrow> string \<Rightarrow> wallet \<Rightarrow> bool \<times> transaction \<times> string \<times> wallet" where
  "create_transfer dst_address amount tx err_msg w =
     (if amount > m_unlocked_balance w
      then (False, tx, ''Insufficient unlocked balance. Total: '' @ print_money (m_total_balance w)
                       @ '' | Requested: '' @ print_money amount, w)
      else let tx = build_transfer tx in
        (True, tx, err_msg,
         w\<lparr>m_unlocked_balance := m_unlocked_balance w - (amount + txnFee (rct tx)),
           m_total_balance := m_total_balance w - (amount + txnFee (rct tx)),
           m_history := m_history w @ [transfer_record dst_address amount]\<rparr>))"

section \<open>The command line\<close>

text \<open>
  print_tokenomics: the rows (height, reward) of its preview, for heights 0, 250000, ..., 1000000.
\<close>

fun tokenomics_loop :: "u64 list \<Rightarrow> u64 \<Rightarrow> (u64 \<times> u64) list" where
  "tokenomics_loop [] generated = []"
| "tokenomics_loop (b # bs) generated =
     (let reward = get_block_reward generated b in (b, reward) # tokenomics_loop bs (generated + reward * 250000))"

definition tokenomics_preview :: "(u64 \<times> u64) list" where
  "tokenomics_preview = tokenomics_loop [0, 250000, 500000, 750000, 1000000] 0"

text \<open>\<open>stream >> word\<close>: the word (none if only white space is left) and what is left after it.\<close>

definition read_word :: "string \<Rightarrow> string option \<times> string" where
  "read_word s = (let t = dropWhile is_space s in
     if t = [] then (None, []) else (Some (takeWhile (\<lambda>c. \<not> is_space c) t), dropWhile (\<lambda>c. \<not> is_space c) t))"

text \<open>
  \<open>stream >> double\<close>: the characters of a decimal literal are taken from the stream and must convert
  as a whole; a value of 2^1024 or more sets the fail bit.
\<close>

definition read_double :: "string \<Rightarrow> rat option" where
  "read_double s =
     (let (neg, t) = strip_sign (dropWhile is_space s);
          (ip, fp, r) = split_digits is_digit t;
          open_exponent = (case r of
              c # u \<Rightarrow> (c = CHR ''e'' \<or> c = CHR ''E'') \<and> takeWhile is_digit (snd (strip_sign u)) = []
            | [] \<Rightarrow> False)
      in case decimal_value t of
           None \<Rightarrow> None
         | Some x \<Rightarrow> if open_exponent \<or> pow2 1024 \<le> fl x then None else Some (negate neg (fl x)))"

text \<open>\<open>static_cast<uint64_t>(amount_dbl * COIN_UNITS)\<close>\<close>

definition atomic_amount :: "rat \<Rightarrow> u64 result" where
  "atomic_amount amount_dbl = u64_of_double (fl (amount_dbl * double_of_u64 COIN_UNITS))"

record cli =
  cli_wallet :: wallet
  cli_total :: u64
  cli_unlocked :: u64
  cli_done :: bool

text \<open>
  One turn of the loop on a line. \<open>rnd\<close> holds the draws a \<open>create\<close> in this turn would make and
  \<open>tx0\<close> the unwritten members of the local transaction.
\<close>

definition cli_step ::
  "filesystem \<Rightarrow> (nat \<Rightarrow> nat) \<times> (nat \<Rightarrow> byte) \<times> (nat \<Rightarrow> byte) \<Rightarrow> transaction \<Rightarrow> string \<Rightarrow> cli \<Rightarrow> cli result" where
  "cli_step fs rnd tx0 line s =
     (if line = [] then Inr s
      else let (w0, ss) = read_word line; cmd = (case w0 of None \<Rightarrow> [] | Some w \<Rightarrow> w); w = cli_wallet s in
        if cmd = ''exit'' \<or> cmd = ''quit'' then Inr (s\<lparr>cli_done := True\<rparr>)
        else if cmd = ''create'' then
          let wname = (case fst (read_word ss) of None \<Rightarrow> ''new_wallet'' | Some n \<Rightarrow> n); (dis, d1, d2) = rnd in
          bindr (create_new dis d1 d2 wname ''password123'' w) (\<lambda>(_, w'). Inr (s\<lparr>cli_wallet := w'\<rparr>))
        else if cmd = ''rescan'' then Inr (s\<lparr>cli_wallet := snd (rescan_blockchain fs ''./data'' w)\<rparr>)
        else if cmd = ''balance'' then
          let w' = snd (rescan_blockchain fs ''./data'' w); (t, u) = get_balance w'
          in Inr (s\<lparr>cli_wallet := w', cli_total := t, cli_unlocked := u\<rparr>)
        else if cmd = ''transfer'' then
          (case read_word ss of
             (None, _) \<Rightarrow> Inr s
           | (Some dst_addr, ss') \<Rightarrow>
               (case read_double ss' of
                  None \<Rightarrow> Inr s
                | Some amount_dbl \<Rightarrow>
                    bindr (atomic_amount amount_dbl) (\<lambda>amount.
                      let (_, _, _, w') = create_transfer dst_addr amount tx0 [] w in Inr (s\<lparr>cli_wallet := w'\<rparr>))))
        else Inr s)"

fun cli_loop ::
  "filesystem \<Rightarrow> (nat \<Rightarrow> (nat \<Rightarrow> nat) \<times> (nat \<Rightarrow> byte) \<times> (nat \<Rightarrow> byte)) \<Rightarrow> transaction \<Rightarrow> string list \<Rightarrow> cli \<Rightarrow> cli result" where
  "cli_loop fs rnds tx0 [] s = Inr s"
| "cli_loop fs rnds tx0 (l # ls) s =
     bindr (cli_step fs (rnds (length ls)) tx0 l s) (\<lambda>s'. if cli_done s' then Inr s' else cli_loop fs rnds tx0 ls s')"

text \<open>main: create, rescan, read the balance, then the loop. \<open>rnds (length lines)\<close> serves the first create.\<close>

definition wallet_main ::
  "filesystem \<Rightarrow> (nat \<Rightarrow> (nat \<Rightarrow> nat) \<times> (nat \<Rightarrow> byte) \<times> (nat \<Rightarrow> byte)) \<Rightarrow> bytes \<Rightarrow> transaction \<Rightarrow> string list \<Rightarrow> cli result" where
  "wallet_main fs rnds junk tx0 lines =
     (let (dis, d1, d2) = rnds (length lines) in
      bindr (create_new dis d1 d2 ''default_wallet'' ''password123'' (new_wallet junk)) (\<lambda>(_, w).
        let w = snd (rescan_blockchain fs ''./data'' w); (t, u) = get_balance w
        in cli_loop fs rnds tx0 lines \<lparr>cli_wallet = w, cli_total = t, cli_unlocked = u, cli_done = False\<rparr>))"

definition wallet_rpc_main ::
  "(nat \<Rightarrow> nat) \<times> (nat \<Rightarrow> byte) \<times> (nat \<Rightarrow> byte) \<Rightarrow> bytes \<Rightarrow> wallet result" where
  "wallet_rpc_main rnd junk =
     (let (dis, d1, d2) = rnd in
      bindr (create_new dis d1 d2 ''exchange_hot_wallet'' ''secure_password'' (new_wallet junk)) (\<lambda>(_, w). Inr w))"


section \<open>Rescanning\<close>

lemma reward_height: "h \<noteq> 0 \<Longrightarrow> get_block_reward g h = get_block_reward g 1"
  by (simp add: get_block_reward_def)

lemma of_nat_u64_pos: "0 < i \<Longrightarrow> i < 2 ^ 63 \<Longrightarrow> (of_nat i :: u64) \<noteq> 0"
  using unat_of_nat_small [of i, where ?'a = 64] by auto

text \<open>With \<open>t\<close> blocks, \<open>t - 9 - i\<close> of the heights from \<open>i\<close> on are ten blocks deep.\<close>

lemma rescan_loop_eq:
  assumes "0 < i" "i + k < 2 ^ 62" "t < 2 ^ 62"
  shows "rescan_loop (of_nat t) [i..<i + k] g g u =
     (generated_after k g, u + (generated_after (min k (t - 9 - i)) g - g))"
  using assms
proof (induction k arbitrary: i g u)
  case (Suc k)
  let ?r = "get_block_reward g 1"
  have h: "get_block_reward g (of_nat i) = ?r"
    using Suc.prems of_nat_u64_pos [of i] by (intro reward_height) simp
  have le: "(of_nat (i + 10) \<le> (of_nat t :: u64)) \<longleftrightarrow> i + 10 \<le> t"
    using Suc.prems by (simp add: word_le_nat_alt unat_of_nat_small del: of_nat_add)
  have up: "[i..<i + Suc k] = i # [Suc i..<Suc i + k]" by (simp add: upt_rec)
  have IH: "rescan_loop (of_nat t) [Suc i..<Suc i + k] (g + ?r) (g + ?r) v =
     (generated_after k (g + ?r), v + (generated_after (min k (t - 9 - Suc i)) (g + ?r) - (g + ?r)))" for v
    using Suc.prems by (intro Suc.IH) simp_all
  show ?case
  proof (cases "i + 10 \<le> t")
    case True
    define m where "m = t - 10 - i"
    then have m: "t - 9 - i = Suc m" "t - 9 - Suc i = m" using True by simp_all
    with True show ?thesis
      unfolding up by (simp only: rescan_loop.simps Let_def h le CRYPTONOTE_DEFAULT_TX_SPENDABLE_AGE_def if_True IH m) simp
  next
    case False
    then have m: "t - 9 - i = 0" "t - 9 - Suc i = 0" by simp_all
    with False show ?thesis
      unfolding up by (simp only: rescan_loop.simps Let_def h le CRYPTONOTE_DEFAULT_TX_SPENDABLE_AGE_def if_False IH m) simp
  qed
qed simp

lemma rescan_eq:
  assumes "holds_records fs \<lparr>m_db_path = dir, m_opened = True\<rparr> rs" "rs \<noteq> []" "length rs < 2 ^ 62"
  shows "rescan_blockchain fs dir w =
     (generated_after (length rs - 1) 0,
      w\<lparr>m_total_balance := generated_after (length rs - 1) 0,
        m_unlocked_balance := generated_after (length rs - 10) 0\<rparr>)"
proof -
  have l: "load_chain \<lparr>m_db_path = dir, m_opened = True\<rparr> fs [] [] [] {} =
     (True, map (on_disk \<circ> fst) rs, map (timestamp \<circ> fst) rs, running_sums 0 (map (snd \<circ> snd) rs),
      load_keys fs \<lparr>m_db_path = dir, m_opened = True\<rparr> {})"
    using load_chain_holds [OF _ assms(1,2), of "[]" "[]" "[]" "{}"] by simp
  obtain k where k: "length rs = Suc k" using assms(2) by (cases rs) auto
  then have "rescan_loop (of_nat (Suc k)) [1..<1 + k] 0 0 0 = (generated_after k 0, 0 + (generated_after (min k (Suc k - 9 - 1)) 0 - 0))"
    using assms(3) by (intro rescan_loop_eq) simp_all
  then have "rescan_loop (of_nat (length rs)) [1..<length rs] 0 0 0 =
      (generated_after (length rs - 1) 0, generated_after (length rs - 10) 0)"
  proof -
    have "min k (Suc k - 9 - 1) = length rs - 10" using k by simp
    with \<open>rescan_loop _ _ _ _ _ = _\<close> show ?thesis using k by (simp del: upt_Suc)
  qed
  then show ?thesis
    using l assms(2) by (simp add: rescan_blockchain_def db_open_def new_database_def)
qed

text \<open>A rescan credits the wallet, whichever wallet it is, with the rewards of every block on disk after the
  first, and unlocks those ten blocks deep; nothing of what the wallet held or spent enters.\<close>

theorem rescan_credits_every_block:
  assumes "holds_records fs \<lparr>m_db_path = dir, m_opened = True\<rparr> rs" "rs \<noteq> []" "length rs < 2 ^ 62"
  shows "fst (rescan_blockchain fs dir w) = generated_after (length rs - 1) 0
     \<and> get_balance (snd (rescan_blockchain fs dir w)) =
         (generated_after (length rs - 1) 0, generated_after (length rs - 10) 0)
     \<and> m_history (snd (rescan_blockchain fs dir w)) = m_history w"
  by (simp add: rescan_eq [OF assms] get_balance_def)

definition demo_wallet :: wallet where
  "demo_wallet = (new_wallet zeros32)\<lparr>m_total_balance := 5, m_unlocked_balance := 5\<rparr>"

lemma demo_records:
  "holds_records (save_all demo_db demo_fs [(blank_block, 0, 1), (blank_block, 1, 1)])
     \<lparr>m_db_path = ''d'', m_opened = True\<rparr> [(blank_block, 0, 1), (blank_block, 1, 1)]"
  by (simp add: holds_records_def save_block_def append_file_def demo_db_def demo_fs_def blocks_file_def blank_block_def)

theorem rescan_credits_every_block_witness:
  "get_balance (snd (rescan_blockchain (save_all demo_db demo_fs [(blank_block, 0, 1), (blank_block, 1, 1)]) ''d'' demo_wallet))
   = (17547607421875, 0)"
  using rescan_credits_every_block [OF demo_records, of demo_wallet]
  by (simp add: get_block_reward_def Let_def BASE_SUPPLY_def COIN_UNITS_def TAIL_EMISSION_REWARD_def
      EMISSION_SPEED_FACTOR_PER_MINUTE_def)

section \<open>Transfers\<close>

text \<open>A transfer is refused, and the wallet kept, when the amount alone exceeds the unlocked balance; otherwise
  both balances drop by the amount and the fee of 0.001 XRL modulo 2^64. The fee is not covered by the
  test: an amount within the balance that leaves less than the fee wraps the unlocked balance to at
  least 2^64 - 10^9.\<close>

theorem transfer_balance:
  assumes "create_transfer dst amount tx err w = (ok, tx', err', w')" "unat amount < 2 ^ 63"
  shows "(ok \<longleftrightarrow> amount \<le> m_unlocked_balance w) \<and> (\<not> ok \<longrightarrow> w' = w \<and> tx' = tx)
     \<and> (ok \<longrightarrow> m_unlocked_balance w' = m_unlocked_balance w - (amount + 1000000000)
              \<and> m_total_balance w' = m_total_balance w - (amount + 1000000000)
              \<and> length (m_history w') = length (m_history w) + 1)
     \<and> (ok \<and> unat (m_unlocked_balance w) < unat amount + 1000000000 \<longrightarrow>
          18446744072709551616 \<le> unat (m_unlocked_balance w'))"
proof -
  have ok: "ok \<longleftrightarrow> amount \<le> m_unlocked_balance w" "\<not> ok \<longrightarrow> w' = w \<and> tx' = tx"
    "ok \<longrightarrow> m_unlocked_balance w' = m_unlocked_balance w - (amount + 1000000000)
              \<and> m_total_balance w' = m_total_balance w - (amount + 1000000000)
              \<and> length (m_history w') = length (m_history w) + 1"
    using assms(1) by (auto simp: create_transfer_def build_transfer_def Let_def not_less split: if_splits)
  have "18446744072709551616 \<le> unat (m_unlocked_balance w')"
    if "ok" "unat (m_unlocked_balance w) < unat amount + 1000000000"
  proof -
    let ?u = "m_unlocked_balance w"
    have a: "unat (amount + 1000000000) = unat amount + 1000000000"
      using assms(2) by (subst unat_add_no_wrap) simp_all
    have "unat amount \<le> unat ?u" using ok(1) that(1) by (simp add: word_le_nat_alt)
    moreover have "unat (?u - (amount + 1000000000)) = unat ?u + 2 ^ 64 - (unat amount + 1000000000)"
      using that(2) a by (simp add: unat_sub_if_size word_size)
    ultimately show ?thesis using ok(3) that(1) by simp
  qed
  with ok show ?thesis by blast
qed

theorem transfer_balance_witness:
  "18446744072709551616 \<le> unat (m_unlocked_balance (snd (snd (snd (create_transfer ''a'' 5 blank_tx [] demo_wallet)))))"
proof -
  obtain ok tx' e w' where c: "create_transfer ''a'' 5 blank_tx [] demo_wallet = (ok, tx', e, w')"
    by (metis prod_cases4)
  with transfer_balance [OF c] show ?thesis by (simp add: demo_wallet_def)
qed

lemma transfer_image: "i \<in> set (vin (build_transfer tx)) \<Longrightarrow> i = transfer_input \<or> i \<in> set (vin tx)"
  by (auto simp: build_transfer_def Let_def)

lemma transfer_vin: "vin (build_transfer tx) = vin tx @ [transfer_input]"
  by (simp add: build_transfer_def Let_def)

lemma admission_image:
  "e \<in> set (m_mempool p) \<Longrightarrow> transfer_input \<in> set (vin (pe_tx e)) \<Longrightarrow>
   \<exists>r. admission_error p (build_transfer tx) = Some r"
proof -
  assume e: "e \<in> set (m_mempool p)" "transfer_input \<in> set (vin (pe_tx e))"
  then have "tx_images (pe_tx e) \<inter> tx_images (build_transfer tx) \<noteq> {}"
    by (auto simp: tx_images_def transfer_vin)
  with e(1) have "admission_error p (build_transfer tx) \<noteq> None" by (auto simp: admission_None)
  then show ?thesis by blast
qed

text \<open>Every transfer spends the same all-zero key image, so a memory pool admits at most one: once one
  transfer is in, every other, from any wallet and whatever its hash, is refused.\<close>

theorem second_transfer_refused:
  assumes "fee_sort srt" "add_tx srt now p (build_transfer tx1) r = (True, r1, p1)"
  shows "\<exists>r2. add_tx srt now' p1 (build_transfer tx2) r1 = (False, r2, p1)"
proof -
  have "new_entry now (build_transfer tx1) \<in># mset (m_mempool p1)"
    using fee_sort.add_contents [OF assms] by simp
  then obtain e where "admission_error p1 (build_transfer tx2) = Some e"
    using admission_image [of "new_entry now (build_transfer tx1)" p1 tx2]
    by (auto simp: new_entry_def transfer_vin)
  then show ?thesis by (simp add: add_tx_def)
qed

lemma demo_transfer_added:
  "add_tx fee_insertion_sort 0 empty_pool (build_transfer blank_tx) [] =
     (True, [], empty_pool\<lparr>m_mempool := [new_entry 0 (build_transfer blank_tx)]\<rparr>)"
  by (simp add: add_tx_def admission_error_def missing_proofs_def image_present_def fee_insertion_sort_def
      build_transfer_def Let_def transfer_input_def resize_bytes_def blank_defs empty_pool_def
      CRYPTONOTE_MINIMUM_MIXIN_V3_def)

theorem second_transfer_refused_witness:
  "\<exists>r2. add_tx fee_insertion_sort 9 (empty_pool\<lparr>m_mempool := [new_entry 0 (build_transfer blank_tx)]\<rparr>)
     (build_transfer (blank_tx\<lparr>tx_hash := replicate 32 7\<rparr>)) [] =
     (False, r2, empty_pool\<lparr>m_mempool := [new_entry 0 (build_transfer blank_tx)]\<rparr>)"
  using second_transfer_refused [OF insertion.fee_sort_axioms demo_transfer_added] by blast

lemma built_transfer:
  assumes "vin tx0 = []"
  shows "vin (build_transfer tx0) = [transfer_input]" "vout (build_transfer tx0) = vout tx0 @ [transfer_output]"
    "tx_hash (build_transfer tx0) = tx_hash tx0" "admissible (build_transfer tx0)"
proof -
  show "vin (build_transfer tx0) = [transfer_input]" "vout (build_transfer tx0) = vout tx0 @ [transfer_output]"
    "tx_hash (build_transfer tx0) = tx_hash tx0"
    using assms by (simp_all add: build_transfer_def Let_def)
  show "admissible (build_transfer tx0)"
    using assms by (auto simp: admissible_def missing_proofs_def build_transfer_def Let_def resize_bytes_def transfer_input_def)
qed

lemma first_admitted:
  assumes "fee_sort srt" "m_mempool p = []" "admissible tx"
  shows "add_tx srt now p tx r = (True, r, p\<lparr>m_mempool := [new_entry now tx]\<rparr>)"
proof -
  have "mset (srt [new_entry now tx]) = {#new_entry now tx#}" using fee_sort.srt_mset [OF assms(1)] by simp
  then have "srt [new_entry now tx] = [new_entry now tx]" by (simp only: mset_single_iff)
  moreover have "admission_error p tx = None" using assms(2,3) by (simp add: admission_None)
  ultimately show ?thesis using assms(2) by (simp add: add_tx_def)
qed

section \<open>Sessions of the command line\<close>

lemma generate_keys_total: "\<exists>pub sec. generate_keys draw = Inr (pub, sec)"
proof -
  obtain h where "crypto_keccak (take 32 (map draw [0..<32])) zeros32 32 = Inr h"
    using crypto_keccak_obtain by blast
  then show ?thesis by (simp add: generate_keys_def secret_key_to_public_key_def Let_def)
qed

lemma create_new_total:
  "\<exists>w'. create_new dis d1 d2 wname pw w = Inr (True, w') \<and> m_total_balance w' = 250 * COIN_UNITS
     \<and> m_unlocked_balance w' = 250 * COIN_UNITS \<and> m_history w' = m_history w"
proof -
  obtain p1 s1 p2 s2 where "generate_keys d1 = Inr (p1, s1)" "generate_keys d2 = Inr (p2, s2)"
    using generate_keys_total by meson
  then show ?thesis by (simp add: create_new_def)
qed

lemma create_new_address: "create_new dis d1 d2 wname pw w = Inr (ok, w') \<Longrightarrow> m_address w' \<noteq> []"
  by (auto simp: create_new_def address_of_def Let_def bindr_Inr_iff)

definition transfer_line :: "string \<Rightarrow> bool" where
  "transfer_line l \<longleftrightarrow> fst (read_word l) = Some ''transfer''"

lemma cli_step_error:
  assumes "cli_step fs rnd tx0 line s = Inl e"
  shows "e = FloatCast \<and> transfer_line line"
proof -
  obtain dis d1 d2 where r: "rnd = (dis, d1, d2)" by (cases rnd)
  obtain w0 ss where w: "read_word line = (w0, ss)" by fastforce
  have c: "bindr (create_new dis d1 d2 nm pw wl) (\<lambda>(_, w'). Inr (f w')) \<noteq> Inl e" for nm pw wl and f :: "wallet \<Rightarrow> cli"
    using create_new_total [of dis d1 d2 nm pw wl] by auto
  have "e = FloatCast \<and> w0 = Some ''transfer''"
    using assms c [of _ "''password123''"] unfolding cli_step_def r w
    by (auto simp: Let_def atomic_amount_def u64_of_double_def bindr_def split: if_splits option.splits prod.splits sum.splits)
  then show ?thesis by (simp add: transfer_line_def w)
qed

lemma cli_loop_error:
  "cli_loop fs rnds tx0 ls s = Inl e \<Longrightarrow> e = FloatCast \<and> (\<exists>l \<in> set ls. transfer_line l)"
proof (induction ls arbitrary: s)
  case (Cons l ls)
  show ?case
  proof (cases "cli_step fs (rnds (length ls)) tx0 l s")
    case (Inl a)
    with Cons.prems cli_step_error show ?thesis by fastforce
  next
    case (Inr s')
    with Cons show ?thesis by (auto split: if_splits)
  qed
qed simp

text \<open>A negative amount reaches the cast.\<close>

lemma negative_amount_undefined: "cli_step fs rnd tx0 ''transfer a -5'' s = Inl FloatCast"
proof -
  have w: "read_word ''transfer a -5'' = (Some ''transfer'', '' a -5'')" "read_word '' a -5'' = (Some ''a'', '' -5'')"
    by (simp_all add: read_word_def is_space_def)
  have v: "decimal_value ''5'' = Some 5" "split_digits is_digit ''5'' = (''5'', [], [])"
    by (simp_all add: decimal_value_def split_digits_def is_digit_def digits_val_def digit_val_def exponent_part_def pow_base_def)
  have "fl 5 = 5" by (rule fl_numeral) simp
  moreover have "\<not> pow2 1024 \<le> 5" using pow2_nat [of 1024] by simp
  ultimately have d: "read_double '' -5'' = Some (- 5)"
    by (simp add: read_double_def is_space_def strip_sign_def v negate_def)
  have "fl 5000000000000 = 5000000000000" by (rule fl_numeral) simp
  then have "fl (- 5000000000000) = - 5000000000000" by (simp add: fl_def)
  then have "atomic_amount (- 5) = Inl FloatCast"
    by (simp add: atomic_amount_def double_COIN_UNITS u64_of_double_def)
  with w d show ?thesis by (cases rnd) (simp add: cli_step_def Let_def)
qed

text \<open>C37: Whatever is typed into the wallet, its process has one way to fail: a session over any lines, on any
  disk and for any random draws, runs to its end or meets the cast of a typed amount to uint64_t out of
  range, which is undefined behaviour, and that only at a transfer command. Key generation, rescans and
  every other command always return. A negative amount is such a cast.\<close>

theorem wallet_session_outcome:
  "((\<exists>s. wallet_main fs rnds junk tx0 lines = Inr s)
   \<or> wallet_main fs rnds junk tx0 lines = Inl FloatCast \<and> (\<exists>l \<in> set lines. transfer_line l))
   \<and> cli_step fs rnd tx0 ''transfer a -5'' s0 = Inl FloatCast"
proof -
  obtain dis d1 d2 where r: "rnds (length lines) = (dis, d1, d2)" by (cases "rnds (length lines)")
  obtain w where w: "create_new dis d1 d2 ''default_wallet'' ''password123'' (new_wallet junk) = Inr (True, w)"
    using create_new_total by blast
  have "\<exists>s. wallet_main fs rnds junk tx0 lines = cli_loop fs rnds tx0 lines s"
    by (auto simp: wallet_main_def r w Let_def split: prod.splits)
  then obtain s where "wallet_main fs rnds junk tx0 lines = cli_loop fs rnds tx0 lines s" ..
  then show ?thesis using cli_loop_error [of fs rnds tx0 lines s] negative_amount_undefined
    by (cases "cli_loop fs rnds tx0 lines s") auto
qed

section \<open>Addresses and the emission preview\<close>

lemma take_hex: "take (2 * k) (concat (map (\<lambda>i. byte_hex (f i)) [0..<k]) @ t) = concat (map (\<lambda>i. byte_hex (f i)) [0..<k])"
  by (simp add: length_concat o_def byte_hex_def sum_list_triv)

lemma byte_hex_inject: "byte_hex a = byte_hex b \<longleftrightarrow> a = b"
  by (metis strtoul16_byte_hex)

lemma concat_hex_inject:
  "concat (map (\<lambda>i. byte_hex (f i)) is) = concat (map (\<lambda>i. byte_hex (g i)) is) \<longleftrightarrow> (\<forall>i \<in> set is. f i = g i)"
proof (induction "is")
  case (Cons i js)
  have "length (byte_hex (f i)) = length (byte_hex (g i))" by (simp add: byte_hex_def)
  with Cons show ?case by (simp add: byte_hex_inject append_eq_append_conv)
qed simp

text \<open>An address is XRL4 and 64 hexadecimal digits, and it fixes only the first halves of the two public
  keys: two key pairs share an address exactly when those 16 bytes agree in each.\<close>

theorem address_fixes_half_keys:
  "length (address_of s v) = 68
   \<and> (address_of s v = address_of s' v' \<longleftrightarrow> (\<forall>i < 16. s ! i = s' ! i) \<and> (\<forall>i < 16. v ! i = v' ! i))"
proof -
  let ?h = "\<lambda>k. concat (map (\<lambda>i. byte_hex (k ! i)) [0..<16])"
  have len: "length (?h k) = 32" for k
    by (simp only: length_concat map_map o_def) (simp add: byte_hex_def sum_list_triv)
  have "address_of s v = address_of s' v' \<longleftrightarrow> ?h s @ ?h v = ?h s' @ ?h v'"
    unfolding address_of_def same_append_eq ..
  also have "\<dots> \<longleftrightarrow> ?h s = ?h s' \<and> ?h v = ?h v'"
    by (rule append_eq_append_conv) (simp only: len simp_thms)
  also have "\<dots> \<longleftrightarrow> (\<forall>i < 16. s ! i = s' ! i) \<and> (\<forall>i < 16. v ! i = v' ! i)"
    unfolding concat_hex_inject by auto
  finally show ?thesis unfolding address_of_def length_append len by simp
qed

text \<open>The emission preview of print_tokenomics wraps at its first step: 250,000 blocks at the genesis reward of
  100 XRL exceed 2^64 atomic units, and the later rows are computed from the wrapped counter.\<close>

theorem tokenomics_preview_wraps:
  "tokenomics_preview = [(0, 100000000000000), (250000, 11297935556134), (500000, 8604297814060), (750000, 6552873355065), (1000000, 4990546600718)]
   \<and> unat (get_block_reward 0 0) * 250000 > 2 ^ 64"
  by (simp add: tokenomics_preview_def get_block_reward_def Let_def BASE_SUPPLY_def COIN_UNITS_def
      TAIL_EMISSION_REWARD_def EMISSION_SPEED_FACTOR_PER_MINUTE_def)

end
