(* ===== verification/Network.thy ===== *)
theory Network
  imports Blockchain
begin

text \<open>
  src/p2p/net_server.cpp and src/rpc/rpc_server.cpp: the two servers of the daemon. Each owns a
  thread whose body only sleeps while \<open>m_running\<close> holds, so a server's thread is modelled by
  whether the \<open>std::thread\<close> member is joinable; assigning a new thread to a joinable member is
  \<open>std::terminate\<close>, and so is destroying one. \<open>join\<close> returns because \<open>stop\<close> clears
  \<open>m_running\<close> first. Log lines are left out but for the one that is all of
  \<open>broadcast_block\<close>.
\<close>

section \<open>A server that owns a thread\<close>

datatype call = Start | Stop

fun active_after :: "bool \<Rightarrow> call list \<Rightarrow> bool option" where
  "active_after a [] = Some a"
| "active_after a (Start # cs) = (if a then None else active_after True cs)"
| "active_after a (Stop # cs) = active_after False cs"

text \<open>A sequence of calls on a server.\<close>

fun run_calls :: "('s \<Rightarrow> 's result) \<Rightarrow> ('s \<Rightarrow> 's) \<Rightarrow> call list \<Rightarrow> 's \<Rightarrow> 's result" where
  "run_calls start stop [] s = Inr s"
| "run_calls start stop (Start # cs) s = bindr (start s) (run_calls start stop cs)"
| "run_calls start stop (Stop # cs) s = run_calls start stop cs (stop s)"

text \<open>
  The contract the daemon relies on: starting an idle server returns and makes it active, stopping
  makes it idle, and starting an active one terminates the process.
\<close>

locale threaded_server =
  fixes start :: "'s \<Rightarrow> 's result" and stop :: "'s \<Rightarrow> 's" and active :: "'s \<Rightarrow> bool" and destroy :: "'s \<Rightarrow> unit result"
  assumes start_idle: "\<not> active s \<Longrightarrow> \<exists>s'. start s = Inr s' \<and> active s'"
    and start_active: "active s \<Longrightarrow> start s = Inl Terminated"
    and stop_idle: "\<not> active (stop s)"
    and destroy_law: "destroy s = (if active s then Inl Terminated else Inr ())"
begin

lemma run_active_after:
  "(case active_after (active s) cs of
      None \<Rightarrow> run_calls start stop cs s = Inl Terminated
    | Some a \<Rightarrow> \<exists>s'. run_calls start stop cs s = Inr s' \<and> active s' = a)"
proof (induction cs arbitrary: s)
  case (Cons c cs)
  show ?case
  proof (cases c)
    case Start
    show ?thesis
    proof (cases "active s")
      case True
      then show ?thesis by (simp add: Start start_active)
    next
      case False
      then obtain s' where "start s = Inr s'" "active s'" using start_idle by blast
      with False Cons.IH [of s'] show ?thesis by (simp add: Start split: option.splits)
    qed
  next
    case Stop
    then show ?thesis using Cons.IH [of "stop s"] stop_idle [of s] by (simp split: option.splits)
  qed
qed simp

lemma scope_ends_cleanly:
  "\<not> active s \<Longrightarrow> (bindr (run_calls start stop cs s) destroy = Inr ()) \<longleftrightarrow> active_after False cs = Some False"
  using run_active_after [where s = s and cs = cs] by (auto simp: destroy_law split: option.splits)

end

section \<open>The P2P server\<close>

record PeerNode =
  ip :: string
  peer_port :: u16
  is_connected :: bool
  last_seen :: u64

record P2PServer =
  p2p_port :: u16
  p2p_running :: bool
  m_peers :: "PeerNode list"
  listener_joinable :: bool

definition new_p2p_server :: P2PServer where
  "new_p2p_server = \<lparr>p2p_port = P2P_DEFAULT_PORT, p2p_running = False, m_peers = [], listener_joinable = False\<rparr>"

text \<open>\<open>clock k\<close> is what the k-th call of \<open>time(nullptr)\<close> returns.\<close>

definition connect_seed_nodes :: "(nat \<Rightarrow> u64) \<Rightarrow> P2PServer \<Rightarrow> P2PServer" where
  "connect_seed_nodes clock s =
     foldl (\<lambda>s (k, seed). s\<lparr>m_peers := m_peers s @
         [\<lparr>ip = seed, peer_port = p2p_port s, is_connected = True, last_seen = clock k\<rparr>]\<rparr>)
       s (enumerate 0 SEED_NODES)"

definition p2p_start :: "(nat \<Rightarrow> u64) \<Rightarrow> u16 \<Rightarrow> P2PServer \<Rightarrow> P2PServer result" where
  "p2p_start clock port s =
     (let s = connect_seed_nodes clock (s\<lparr>p2p_port := port, p2p_running := True\<rparr>)
      in if listener_joinable s then Inl Terminated else Inr (s\<lparr>listener_joinable := True\<rparr>))"

definition p2p_stop :: "P2PServer \<Rightarrow> P2PServer" where
  "p2p_stop s =
     (let s = s\<lparr>p2p_running := False\<rparr>
      in if listener_joinable s then s\<lparr>listener_joinable := False\<rparr> else s)"

definition get_peer_count :: "P2PServer \<Rightarrow> nat" where
  "get_peer_count s = length (m_peers s)"

text \<open>The daemon calls it for each block it adds: one line of text, and nothing is sent.\<close>

definition broadcast_block :: "bytes \<Rightarrow> u64 \<Rightarrow> P2PServer \<Rightarrow> string \<times> P2PServer" where
  "broadcast_block hash height s =
     (out_line (''[P2P Network] Broadcasted Block #'' @ dec (unat height) @ '' to '' @ dec (length (m_peers s)) @ '' peer nodes.''), s)"

definition p2p_destroy :: "P2PServer \<Rightarrow> unit result" where
  "p2p_destroy s = (if listener_joinable s then Inl Terminated else Inr ())"

lemma connect_seed_nodes_eq:
  "connect_seed_nodes clock s = s\<lparr>m_peers := m_peers s @ map (\<lambda>(k, seed).
     \<lparr>ip = seed, peer_port = p2p_port s, is_connected = True, last_seen = clock k\<rparr>) (enumerate 0 SEED_NODES)\<rparr>"
proof -
  have "foldl (\<lambda>s (k, seed). s\<lparr>m_peers := m_peers s @
         [\<lparr>ip = seed, peer_port = p2p_port s, is_connected = True, last_seen = clock k\<rparr>]\<rparr>) s ks
    = s\<lparr>m_peers := m_peers s @ map (\<lambda>(k, seed).
     \<lparr>ip = seed, peer_port = p2p_port s, is_connected = True, last_seen = clock k\<rparr>) ks\<rparr>" for ks
    by (induction ks arbitrary: s) auto
  then show ?thesis by (simp add: connect_seed_nodes_def)
qed

lemma connect_joinable [simp]: "listener_joinable (connect_seed_nodes clock s) = listener_joinable s"
  by (simp add: connect_seed_nodes_eq)

lemma p2p_start_eq:
  "p2p_start clock port s = (if listener_joinable s then Inl Terminated
     else Inr (connect_seed_nodes clock (s\<lparr>p2p_port := port, p2p_running := True\<rparr>)\<lparr>listener_joinable := True\<rparr>))"
  by (simp add: p2p_start_def Let_def)

interpretation p2p: threaded_server "p2p_start clock port" p2p_stop listener_joinable p2p_destroy
  for clock :: "nat \<Rightarrow> u64" and port :: u16
  by unfold_locales (simp_all add: p2p_start_eq p2p_stop_def Let_def p2p_destroy_def)

section \<open>The RPC server\<close>

text \<open>
  \<open>m_chain\<close> is a pointer to the daemon's chain: the record keeps whether it is set, and a request
  takes the chain it points to at the time of the call.
\<close>

record RPCServer =
  rpc_port :: u16
  rpc_chain :: bool
  rpc_running :: bool
  rpc_joinable :: bool

definition new_rpc_server :: RPCServer where
  "new_rpc_server = \<lparr>rpc_port = RPC_DEFAULT_PORT, rpc_chain = False, rpc_running = False, rpc_joinable = False\<rparr>"

definition rpc_start :: "bool \<Rightarrow> u16 \<Rightarrow> RPCServer \<Rightarrow> RPCServer result" where
  "rpc_start chain port s =
     (let s = s\<lparr>rpc_chain := chain, rpc_port := port, rpc_running := True\<rparr>
      in if rpc_joinable s then Inl Terminated else Inr (s\<lparr>rpc_joinable := True\<rparr>))"

definition rpc_stop :: "RPCServer \<Rightarrow> RPCServer" where
  "rpc_stop s =
     (let s = s\<lparr>rpc_running := False\<rparr>
      in if rpc_joinable s then s\<lparr>rpc_joinable := False\<rparr> else s)"

definition rpc_destroy :: "RPCServer \<Rightarrow> unit result" where
  "rpc_destroy s = (if rpc_joinable s then Inl Terminated else Inr ())"

interpretation rpc: threaded_server "rpc_start chain port" rpc_stop rpc_joinable rpc_destroy
  for chain :: bool and port :: u16
  by unfold_locales (simp_all add: rpc_start_def rpc_stop_def Let_def rpc_destroy_def)

text \<open>A C string literal with its escapes: \<open>nl\<close> is a newline, \<open>quoted\<close> puts double quotes round a text.\<close>

definition nl :: string where "nl = [CHR 0x0A]"

definition quoted :: "string \<Rightarrow> string" where
  "quoted s = CHR 0x22 # s @ [CHR 0x22]"

definition get_info_reply :: "u64 \<Rightarrow> u64 \<Rightarrow> string" where
  "get_info_reply height difficulty =
     ''{'' @ nl
     @ ''  '' @ quoted ''height'' @ '': '' @ dec (unat height) @ '','' @ nl
     @ ''  '' @ quoted ''difficulty'' @ '': '' @ dec (unat difficulty) @ '','' @ nl
     @ ''  '' @ quoted ''target_time'' @ '': '' @ dec DIFFICULTY_TARGET_V2 @ '','' @ nl
     @ ''  '' @ quoted ''status'' @ '': '' @ quoted ''OK'' @ '','' @ nl
     @ ''  '' @ quoted ''coin_name'' @ '': '' @ quoted COIN_NAME @ '','' @ nl
     @ ''  '' @ quoted ''ticker'' @ '': '' @ quoted COIN_TICKER @ nl
     @ ''}''"

definition block_template_reply :: "u64 \<Rightarrow> u64 \<Rightarrow> string" where
  "block_template_reply height difficulty =
     ''{'' @ nl
     @ ''  '' @ quoted ''height'' @ '': '' @ dec (unat height) @ '','' @ nl
     @ ''  '' @ quoted ''difficulty'' @ '': '' @ dec (unat difficulty) @ '','' @ nl
     @ ''  '' @ quoted ''reserved_offset'' @ '': 40,'' @ nl
     @ ''  '' @ quoted ''status'' @ '': '' @ quoted ''OK'' @ nl
     @ ''}''"

definition error_reply :: "string \<Rightarrow> string" where
  "error_reply msg = ''{'' @ quoted ''error'' @ '': '' @ quoted msg @ ''}''"

definition handle_request :: "node \<Rightarrow> RPCServer \<Rightarrow> string \<Rightarrow> string \<Rightarrow> string result" where
  "handle_request chain s method params_json =
     (if \<not> rpc_chain s then Inr (error_reply ''Blockchain state uninitialized'')
      else
          if method = ''get_info'' then
            bindr (get_current_difficulty chain) (\<lambda>d. Inr (get_info_reply (get_current_height chain) d))
          else if method = ''get_block_template'' then
            bindr (get_current_difficulty chain) (\<lambda>d. Inr (block_template_reply (get_current_height chain + 1) d))
          else if method = ''submit_block'' then
            Inr (error_reply ''Block submission is unavailable until canonical block parsing and validation are implemented'')
          else Inr (error_reply ''Unknown RPC method''))"

section \<open>Properties\<close>

text \<open>The life of the P2P server: any sequence of starts and stops on a fresh server, followed by the end of
  its scope, leaves the process alive exactly when no start follows a start without a stop between
  and the last call is not a start; otherwise std::terminate is called.\<close>

theorem p2p_lifecycle:
  "bindr (run_calls (p2p_start clock port) p2p_stop calls new_p2p_server) p2p_destroy = Inr () \<longleftrightarrow> active_after False calls = Some False"
  by (rule p2p.scope_ends_cleanly) (simp add: new_p2p_server_def)

text \<open>The RPC server has the same life: only alternating starts and stops that end stopped leave the process
  alive.\<close>

theorem rpc_lifecycle:
  "bindr (run_calls (rpc_start chain port) rpc_stop calls new_rpc_server) rpc_destroy = Inr () \<longleftrightarrow> active_after False calls = Some False"
  by (rule rpc.scope_ends_cleanly) (simp add: new_rpc_server_def)

lemma p2p_cycle:
  "\<not> listener_joinable s \<Longrightarrow> \<exists>s'. bindr (p2p_start clock port s) (\<lambda>s. Inr (p2p_stop s)) = Inr s'
     \<and> get_peer_count s' = get_peer_count s + 3 \<and> \<not> listener_joinable s'"
  by (simp add: p2p_start_eq p2p_stop_def Let_def get_peer_count_def connect_seed_nodes_eq SEED_NODES_def)

text \<open>Stopping the P2P server forgets no peer and starting it lists every seed again: after k restarts of a
  fresh server the three seeds are counted 3 k times.\<close>

theorem restarts_multiply_peers:
  "\<exists>s. run_calls (p2p_start clock port) p2p_stop (concat (replicate k [Start, Stop])) new_p2p_server = Inr s \<and> get_peer_count s = 3 * k"
proof -
  have "\<exists>s. run_calls (p2p_start clock port) p2p_stop (concat (replicate k [Start, Stop])) s0 = Inr s
      \<and> get_peer_count s = get_peer_count s0 + 3 * k" if "\<not> listener_joinable s0" for s0
    using that
  proof (induction k arbitrary: s0)
    case (Suc k)
    then obtain s1 where "bindr (p2p_start clock port s0) (\<lambda>s. Inr (p2p_stop s)) = Inr s1"
      "get_peer_count s1 = get_peer_count s0 + 3" "\<not> listener_joinable s1"
      using p2p_cycle by blast
    with Suc.IH [of s1] show ?case by (cases "p2p_start clock port s0") auto
  qed simp
  from this [of new_p2p_server] show ?thesis by (simp add: new_p2p_server_def get_peer_count_def)
qed

lemma number_then_comma:
  assumes "dec m @ CHR '','' # r = dec n @ CHR '','' # r'"
  shows "m = n \<and> r = r'"
proof -
  have "takeWhile is_digit (dec k @ CHR '','' # t) = dec k" for k t
    using dec_digits [of _ k] by (subst takeWhile_append2) (auto simp: is_digit_def [of "CHR '',''"])
  then have "dec m = dec n" using assms by metis
  with assms show ?thesis by (simp add: dec_inject)
qed

lemma reply_shape:
  obtains a b c where "\<And>h d. get_info_reply h d = a @ dec (unat h) @ CHR '','' # b @ dec (unat d) @ CHR '','' # c"
proof -
  let ?a = "''{'' @ nl @ ''  '' @ quoted ''height'' @ '': ''" and ?b = "nl @ ''  '' @ quoted ''difficulty'' @ '': ''"
  let ?c = "nl @ ''  '' @ quoted ''target_time'' @ '': '' @ dec DIFFICULTY_TARGET_V2 @ '','' @ nl
     @ ''  '' @ quoted ''status'' @ '': '' @ quoted ''OK'' @ '','' @ nl
     @ ''  '' @ quoted ''coin_name'' @ '': '' @ quoted COIN_NAME @ '','' @ nl
     @ ''  '' @ quoted ''ticker'' @ '': '' @ quoted COIN_TICKER @ nl @ ''}''"
  show thesis by (rule that [of ?a ?b ?c]) (simp only: get_info_reply_def append_assoc append.simps)
qed

lemma reply_determines:
  "get_info_reply h d = get_info_reply h' d' \<longleftrightarrow> h = h' \<and> d = d'"
proof
  assume e: "get_info_reply h d = get_info_reply h' d'"
  obtain a b c where r: "\<And>h d. get_info_reply h d = a @ dec (unat h) @ CHR '','' # b @ dec (unat d) @ CHR '','' # c"
    using reply_shape by blast
  have "dec (unat h) @ CHR '','' # b @ dec (unat d) @ CHR '','' # c
      = dec (unat h') @ CHR '','' # b @ dec (unat d') @ CHR '','' # c"
    using e unfolding r same_append_eq .
  note first = number_then_comma [OF this]
  then have "dec (unat d) @ CHR '','' # c = dec (unat d') @ CHR '','' # c" by (simp only: same_append_eq)
  note second = number_then_comma [OF this]
  from first second show "h = h' \<and> d = d'" by (simp only: word_unat_eq_iff)
qed simp

text \<open>The get_info reply carries the state it reports: two servers whose chains give the same reply have the
  same height and the same difficulty.\<close>

theorem get_info_determines:
  assumes "rpc_chain s" "rpc_chain s'"
    and "handle_request n s ''get_info'' p = Inr reply" "handle_request n' s' ''get_info'' p' = Inr reply"
  shows "get_current_height n = get_current_height n' \<and> get_current_difficulty n = get_current_difficulty n'"
  using assms by (auto simp: handle_request_def bindr_Inr_iff reply_determines)

theorem get_info_determines_witness:
  "get_current_difficulty demo_node = get_current_difficulty demo_node
   \<and> handle_request demo_node (new_rpc_server\<lparr>rpc_chain := True\<rparr>) ''get_info'' [] = Inr (get_info_reply 1 1)"
proof -
  have r: "handle_request demo_node (new_rpc_server\<lparr>rpc_chain := True\<rparr>) ''get_info'' p = Inr (get_info_reply 1 1)" for p
    by (simp add: handle_request_def get_current_height_def)
  from get_info_determines [OF _ _ r r] r show ?thesis by simp
qed

end
