(* ===== verification/Daemon.thy ===== *)
theory Daemon
  imports Network
begin

text \<open>
  src/daemon/main.cpp: the node daemon. \<open>g_running\<close> is cleared by a signal at any time, so what the
  loop reads of it is an argument: for each turn, \<open>keep k\<close> is the value read at nonce \<open>k\<close> and
  \<open>keep_end\<close> the value read before the block is submitted; the loop ends with the list of turns. The
  two clock reads of a turn are arguments too.
\<close>

record turn =
  mined_at :: u64
  submitted_at :: u64
  keep :: "nat \<Rightarrow> bool"
  keep_end :: bool

record daemon =
  chain :: node
  block_counter :: u64
  broadcasts :: "(bytes \<times> u64) list"

text \<open>The handler of SIGINT and SIGTERM: its line of text and the flag after it.\<close>

definition signal_handler :: "int \<Rightarrow> bool \<Rightarrow> string \<times> bool" where
  "signal_handler sig g_running =
     (out_line (newline @ ''[Daemon] Shutdown signal received ('' @ dec (nat sig) @ ''). Exiting...''), False)"

definition set_nonce :: "u64 \<Rightarrow> nat \<Rightarrow> block \<Rightarrow> block" where
  "set_nonce counter k b =
     b\<lparr>nonce := of_nat k,
       block_hash := (block_hash b)[0 := ucast (counter AND 0xFF), 1 := ucast (drop_bit 8 counter AND 0xFF),
                                    2 := ucast ((of_nat k :: u32) AND 0xFF),
                                    3 := ucast (drop_bit 8 (of_nat k :: u32) AND 0xFF)]\<rparr>"

fun mine_nonces :: "(nat \<Rightarrow> bool) \<Rightarrow> u64 \<Rightarrow> u64 \<Rightarrow> nat list \<Rightarrow> rx_state \<Rightarrow> block \<Rightarrow> bool \<times> rx_state \<times> block" where
  "mine_nonces kp counter target [] r b = (False, r, b)"
| "mine_nonces kp counter target (k # ks) r b =
     (if \<not> kp k then (False, r, b)
      else let b = set_nonce counter k b; (_, pow_hash, r) = calculate_hash r (block_hash b)
        in if check_pow_hash pow_hash target then (True, r, b) else mine_nonces kp counter target ks r b)"

definition daemon_turn :: "turn \<Rightarrow> daemon \<Rightarrow> daemon result" where
  "daemon_turn t d =
     bindr (get_current_difficulty (chain d)) (\<lambda>target_diff.
       let new_block = blank_block\<lparr>major_version := 1, minor_version := 0, timestamp := mined_at t\<rparr>;
           (found, r, new_block) = mine_nonces (keep t) (block_counter d) target_diff [1..<1000000] (rx (chain d)) new_block;
           d = d\<lparr>chain := (chain d)\<lparr>rx := r\<rparr>\<rparr>
       in if found \<and> keep_end t then
            bindr (add_new_block (submitted_at t) (chain d) new_block 0) (\<lambda>(ok, diff, n).
              let d = d\<lparr>chain := n\<rparr> in
              if ok then Inr (d\<lparr>broadcasts := broadcasts d @ [(block_hash new_block, block_counter d)],
                                block_counter := block_counter d + 1\<rparr>)
              else Inr d)
          else Inr d)"

fun daemon_loop :: "turn list \<Rightarrow> daemon \<Rightarrow> daemon result" where
  "daemon_loop [] d = Inr d"
| "daemon_loop (t # ts) d = bindr (daemon_turn t d) (daemon_loop ts)"

text \<open>main: the exit code, and the servers and the chain when it returns.\<close>

definition daemon_main ::
  "filesystem \<Rightarrow> rx_state \<Rightarrow> (nat \<Rightarrow> u64) \<Rightarrow> turn list \<Rightarrow> (int \<times> daemon \<times> P2PServer \<times> RPCServer) result" where
  "daemon_main fs r clock turns =
     (let (ok, n) = chain_init ''./data'' (new_node fs r); d = \<lparr>chain = n, block_counter = 0, broadcasts = []\<rparr> in
      if \<not> ok then Inr (1, d, new_p2p_server, new_rpc_server)
      else bindr (p2p_start clock P2P_DEFAULT_PORT new_p2p_server) (\<lambda>p2p.
           bindr (rpc_start True RPC_DEFAULT_PORT new_rpc_server) (\<lambda>rpc.
           bindr (daemon_loop turns (d\<lparr>block_counter := get_current_height n\<rparr>)) (\<lambda>d.
             Inr (0, d\<lparr>chain := chain_shutdown (chain d)\<rparr>, p2p_stop p2p, rpc_stop rpc)))))"

section \<open>The daemon cannot extend a chain\<close>

text \<open>The candidate block never gets a previous hash: it is all zero throughout the search.\<close>

lemma mine_prev_id:
  "mine_nonces kp c t ks r b = (found, r', b') \<Longrightarrow> prev_id b' = prev_id b"
proof (induction ks arbitrary: r b)
  case (Cons k ks)
  then show ?case
    by (auto simp: Let_def set_nonce_def calculate_hash_def split: if_splits)
qed simp

lemma turn_keeps_chain:
  assumes "m_blocks (chain d) \<noteq> []" "block_hash (last (m_blocks (chain d))) \<noteq> zeros32"
    and "get_current_difficulty (chain d) = Inr g"
  shows "\<exists>r. daemon_turn t d = Inr (d\<lparr>chain := (chain d)\<lparr>rx := r\<rparr>\<rparr>)"
proof -
  let ?b = "blank_block\<lparr>major_version := 1, minor_version := 0, timestamp := mined_at t\<rparr>"
  obtain found r b where m: "mine_nonces (keep t) (block_counter d) g [1..<1000000] (rx (chain d)) ?b = (found, r, b)"
    by (metis prod_cases3)
  have "prev_id b = zeros32" using mine_prev_id [OF m] by (simp add: blank_block_def)
  then have "add_new_block (submitted_at t) ((chain d)\<lparr>rx := r\<rparr>) b 0 = Inr (False, 0, (chain d)\<lparr>rx := r\<rparr>)"
    using assms(1,2) by (simp add: add_new_block_def)
  then show ?thesis using assms(3) m by (auto simp: daemon_turn_def Let_def)
qed

lemma difficulty_rx [simp]: "get_current_difficulty (n\<lparr>rx := r\<rparr>) = get_current_difficulty n"
  by (simp add: get_current_difficulty_def)

lemma loop_keeps_chain:
  assumes "m_blocks (chain d) \<noteq> []" "block_hash (last (m_blocks (chain d))) \<noteq> zeros32"
    and "get_current_difficulty (chain d) = Inr g"
  shows "\<exists>r. daemon_loop ts d = Inr (d\<lparr>chain := (chain d)\<lparr>rx := r\<rparr>\<rparr>)"
  using assms
proof (induction ts arbitrary: d)
  case Nil
  have "d = d\<lparr>chain := (chain d)\<lparr>rx := rx (chain d)\<rparr>\<rparr>" by simp
  then show ?case by (metis daemon_loop.simps(1))
next
  case (Cons t ts)
  obtain r where r: "daemon_turn t d = Inr (d\<lparr>chain := (chain d)\<lparr>rx := r\<rparr>\<rparr>)"
    using turn_keeps_chain [OF Cons.prems] by blast
  with Cons.IH [of "d\<lparr>chain := (chain d)\<lparr>rx := r\<rparr>\<rparr>"] Cons.prems show ?case by simp
qed

text \<open>The daemon never extends a chain whose tip hash is not all zero, however long it runs and whatever it
  mines, because it never fills in the previous block's hash: every turn returns and leaves the
  chain, its counter and its broadcasts as they were.\<close>

theorem daemon_never_extends:
  assumes "m_blocks (chain d) \<noteq> []" "block_hash (last (m_blocks (chain d))) \<noteq> zeros32"
    and "get_current_difficulty (chain d) = Inr g"
  shows "\<exists>d'. daemon_loop ts d = Inr d' \<and> m_blocks (chain d') = m_blocks (chain d)
     \<and> disk (chain d') = disk (chain d) \<and> block_counter d' = block_counter d \<and> broadcasts d' = broadcasts d"
proof -
  obtain r where "daemon_loop ts d = Inr (d\<lparr>chain := (chain d)\<lparr>rx := r\<rparr>\<rparr>)"
    using loop_keeps_chain [OF assms] by blast
  then show ?thesis by simp
qed

lemma genesis_hash_nonzero: "block_hash genesis_block \<noteq> zeros32"
proof -
  have "block_hash genesis_block ! 1 = 1" by (simp add: genesis_block_def zeros32_def)
  moreover have "zeros32 ! 1 = 0" by (simp add: zeros32_def)
  ultimately show ?thesis by force
qed

theorem daemon_never_extends_witness:
  "\<exists>d'. daemon_loop (replicate 9 \<lparr>mined_at = 1788462076, submitted_at = 1788462076, keep = (\<lambda>_. True), keep_end = True\<rparr>)
       \<lparr>chain = demo_node, block_counter = 1, broadcasts = []\<rparr> = Inr d' \<and> m_blocks (chain d') = [genesis_block]"
  using daemon_never_extends [of "\<lparr>chain = demo_node, block_counter = 1, broadcasts = []\<rparr>" 1]
    genesis_hash_nonzero by fastforce

text \<open>The run on an empty data directory.\<close>

lemma fresh_daemon_run:
  assumes "fresh_disk fs ''./data''"
  shows "\<exists>d p r'. daemon_main fs r clock turns = Inr (0, d, p, r') \<and> m_blocks (chain d) = [genesis_block]
     \<and> p2p_destroy p = Inr () \<and> rpc_destroy r' = Inr ()
     \<and> files (disk (chain d)) ''./data/blocks.dat'' = Some (block_record genesis_block 0 1)
     \<and> \<not> m_opened (m_db (chain d))"
proof -
  have b: "chain_init ''./data'' (new_node fs r) = (True, boot fs r ''./data'')"
    by (simp add: boot_def chain_init_def Let_def split: prod.splits)
  let ?d = "\<lparr>chain = boot fs r ''./data'', block_counter = get_current_height (boot fs r ''./data''), broadcasts = []\<rparr>"
  have "get_current_difficulty (chain ?d) = Inr 1"
    by (simp add: boot_fresh [OF assms] get_current_difficulty_def next_difficulty_lwma3_def)
  then obtain r2 where l: "daemon_loop turns ?d = Inr (?d\<lparr>chain := (chain ?d)\<lparr>rx := r2\<rparr>\<rparr>)"
    using loop_keeps_chain [of ?d 1 turns] genesis_hash_nonzero by (auto simp: boot_fresh [OF assms])
  have f: "files (disk (boot fs r ''./data'')) ''./data/blocks.dat'' = Some (block_record genesis_block 0 1)"
    using assms by (simp add: boot_fresh [OF assms] save_block_def append_file_def blocks_file_def fresh_disk_def)
  show ?thesis
    using l f by (auto simp: daemon_main_def b p2p_start_eq new_p2p_server_def rpc_start_def new_rpc_server_def
        p2p_stop_def rpc_stop_def p2p_destroy_def rpc_destroy_def chain_shutdown_def db_close_def Let_def
        boot_fresh [OF assms])
qed

text \<open>C38: On an empty data directory the daemon starts, runs its loop for any schedule of signals and clocks, stops
  both servers and exits with code 0; its disk then holds the genesis block and nothing else, and
  the process could end without std::terminate.\<close>

theorem daemon_main_exits:
  assumes "fresh_disk fs ''./data''"
  shows "\<exists>d p r'. daemon_main fs r clock turns = Inr (0, d, p, r') \<and> m_blocks (chain d) = [genesis_block]
     \<and> p2p_destroy p = Inr () \<and> rpc_destroy r' = Inr ()
     \<and> files (disk (chain d)) ''./data/blocks.dat'' = Some (block_record genesis_block 0 1)
     \<and> \<not> m_opened (m_db (chain d))"
  using assms by (rule fresh_daemon_run)

theorem daemon_main_exits_witness:
  "\<exists>d p r'. daemon_main demo_fs rx_initial (\<lambda>_. 0) [] = Inr (0, d, p, r') \<and> m_blocks (chain d) = [genesis_block]"
  using daemon_main_exits [of demo_fs rx_initial "\<lambda>_. 0" "[]"] by (auto simp: fresh_disk_def demo_fs_def)

end
