(* ===== verification/Tdd.thy ===== *)
theory Tdd
  imports Wallet Daemon
begin

text \<open>
  tests/test_consensus_tdd.cpp: the project's integration test program, its three tests over the
  models of the code they call. The assertion macro counts and returns early; the four miner threads
  of the second test are a step relation in which each access to a shared variable and each call of a
  locked method is one step. Console output is left out.
\<close>

record tests =
  tests_passed :: int
  tests_total :: int

definition no_tests :: tests where
  "no_tests = \<lparr>tests_passed = 0, tests_total = 0\<rparr>"

text \<open>\<open>TEST_ASSERT\<close>s in sequence: the first that fails ends the test with false.\<close>

fun test_asserts :: "bool list \<Rightarrow> tests \<Rightarrow> bool \<times> tests" where
  "test_asserts [] c = (True, c)"
| "test_asserts (cond # conds) c =
     (let c = c\<lparr>tests_total := tests_total c + 1\<rparr> in
      if \<not> cond then (False, c) else test_asserts conds (c\<lparr>tests_passed := tests_passed c + 1\<rparr>))"

section \<open>Test 1: retargeting\<close>

fun block_times :: "nat \<Rightarrow> u64 \<Rightarrow> u64 \<Rightarrow> u64 \<Rightarrow> u64 list \<times> u64 list" where
  "block_times 0 t cum gap = ([], [])"
| "block_times (Suc n) t cum gap =
     (let cum = cum + 5000; (ts, cd) = block_times n (t + gap) cum gap in (t # ts, cum # cd))"

definition test_100_block_epoch_retarget :: "tests \<Rightarrow> (bool \<times> tests) result" where
  "test_100_block_epoch_retarget c =
     (let (ts, cd) = block_times 121 1700000000 0 50 in
      bindr (next_difficulty_lwma3 ts cd (of_nat DIFFICULTY_TARGET_V2) 100) (\<lambda>d.
      let (ok, c) = test_asserts [d > 5000] c in
      if \<not> ok then Inr (False, c)
      else let (ts, cd) = block_times 121 1700000000 0 500 in
        bindr (next_difficulty_lwma3 ts cd (of_nat DIFFICULTY_TARGET_V2) 100) (\<lambda>d.
        Inr (test_asserts [d < 5000] c))))"

lemma block_times_eq:
  "block_times n (of_nat t) (of_nat c) (of_nat g) =
     (map (\<lambda>i. of_nat (t + g * i)) [0..<n], map (\<lambda>i. of_nat (c + 5000 + 5000 * i)) [0..<n])"
proof (induction n arbitrary: t c)
  case (Suc n)
  have step: "(of_nat t :: u64) + of_nat g = of_nat (t + g)" "(of_nat c :: u64) + 5000 = of_nat (c + 5000)" by simp_all
  have up: "[0..<Suc n] = 0 # map Suc [0..<n]" by (simp add: upt_conv_Cons map_Suc_upt del: upt_Suc)
  show ?case unfolding up using Suc.IH [of "t + g" "c + 5000"] by (simp add: step del: of_nat_add upt_Suc) (simp add: algebra_simps)
qed simp

lemma retarget_5750:
  assumes "g \<in> {50, 500}"
  shows "\<exists>d. next_difficulty_lwma3 (fst (block_times 121 1700000000 0 (of_nat g))) (snd (block_times 121 1700000000 0 (of_nat g)))
     (of_nat DIFFICULTY_TARGET_V2) 100 = Inr d \<and> unat d = 5750"
proof -
  have b: "block_times 121 1700000000 0 (of_nat g) =
      (map (\<lambda>i. of_nat (1700000000 + g * i)) [0..<121], map (\<lambda>i. of_nat (5000 + 5000 * i)) [0..<121])"
    using block_times_eq [of 121 1700000000 0 g] by simp
  have "steady (map (\<lambda>i. of_nat (1700000000 + g * i)) [0..<121]) (map (\<lambda>i. of_nat (5000 + 5000 * i)) [0..<121]) g 5000"
    using assms by (intro steady_map) auto
  from lwma_steady_growth [OF this, of "of_nat DIFFICULTY_TARGET_V2" 100] show ?thesis
    using assms by (auto simp: b DIFFICULTY_TARGET_V2_def)
qed

lemma retarget_outcome:
  "test_100_block_epoch_retarget c = Inr (False, c\<lparr>tests_total := tests_total c + 2, tests_passed := tests_passed c + 1\<rparr>)"
proof -
  obtain d e where d: "next_difficulty_lwma3 (fst (block_times 121 1700000000 0 50)) (snd (block_times 121 1700000000 0 50))
      (of_nat DIFFICULTY_TARGET_V2) 100 = Inr d" "unat d = 5750"
    and e: "next_difficulty_lwma3 (fst (block_times 121 1700000000 0 500)) (snd (block_times 121 1700000000 0 500))
      (of_nat DIFFICULTY_TARGET_V2) 100 = Inr e" "unat e = 5750"
    using retarget_5750 [of 50] retarget_5750 [of 500] by auto
  have "5000 < d" "\<not> e < 5000" using d(2) e(2) by (simp_all add: word_less_nat_alt)
  with d(1) e(1) show ?thesis
    unfolding test_100_block_epoch_retarget_def by (simp add: split_def Let_def del: block_times.simps)
qed

section \<open>Test 2: four miners\<close>

text \<open>
  Where a miner thread is: at the two reads of the outer loop, at the difficulty, at the test of the
  inner loop, at the hash, at the submission, at the counter, at the store that stops everyone, or
  returned. \<open>Attempt k d\<close> is the k-th try against difficulty d.
\<close>

datatype miner_pc =
    Head
  | Head_total
  | Fetch
  | Attempt nat u64
  | Hash nat u64
  | Submit nat u64 block
  | Count
  | Finish
  | Returned

record test_miner =
  miner_id :: nat
  next_nonce :: u32
  pc :: miner_pc

record mining =
  shared_chain :: node
  running :: bool
  total_blocks :: u32
  miners :: "test_miner list"

definition goal :: u32 where
  "goal = 20"

definition miners_start :: "node \<Rightarrow> mining" where
  "miners_start n = \<lparr>shared_chain = n, running = True, total_blocks = 0,
     miners = map (\<lambda>i. \<lparr>miner_id = i, next_nonce = of_nat i * 10000000, pc = Head\<rparr>) [1..<5]\<rparr>"

definition test_block :: "u64 \<Rightarrow> nat \<Rightarrow> u32 \<Rightarrow> block" where
  "test_block now i nc =
     (let nc' = nc + 1 in
      blank_block\<lparr>major_version := 1, minor_version := 0, timestamp := now, nonce := nc,
        block_hash := zeros32[0 := of_nat i, 1 := ucast (nc' AND 0xFF), 2 := ucast (drop_bit 8 nc' AND 0xFF),
                              3 := ucast (drop_bit 16 nc' AND 0xFF), 4 := ucast (drop_bit 24 nc' AND 0xFF)]\<rparr>)"

text \<open>One step of a thread; \<open>now\<close> is what the clock returns if the step reads it.\<close>

definition thread_step :: "u64 \<Rightarrow> test_miner \<Rightarrow> mining \<Rightarrow> (test_miner \<times> mining) result" where
  "thread_step now m s =
     (case pc m of
        Head \<Rightarrow> Inr (m\<lparr>pc := if running s then Head_total else Returned\<rparr>, s)
      | Head_total \<Rightarrow> Inr (m\<lparr>pc := if total_blocks s < goal then Fetch else Returned\<rparr>, s)
      | Fetch \<Rightarrow> bindr (get_current_difficulty (shared_chain s)) (\<lambda>d. Inr (m\<lparr>pc := Attempt 0 d\<rparr>, s))
      | Attempt k d \<Rightarrow> Inr (m\<lparr>pc := if k < 50000 \<and> running s then Hash k d else Head\<rparr>, s)
      | Hash k d \<Rightarrow>
          (let b = test_block now (miner_id m) (next_nonce m);
               (_, pow_hash, r) = calculate_hash (rx (shared_chain s)) (block_hash b)
           in Inr (m\<lparr>next_nonce := next_nonce m + 1,
                     pc := if check_pow_hash pow_hash d then Submit k d b else Attempt (k + 1) d\<rparr>,
                   s\<lparr>shared_chain := (shared_chain s)\<lparr>rx := r\<rparr>\<rparr>))
      | Submit k d b \<Rightarrow>
          bindr (add_new_block now (shared_chain s) b 0) (\<lambda>(ok, diff, n).
            Inr (m\<lparr>pc := if ok then Count else Attempt (k + 1) d\<rparr>, s\<lparr>shared_chain := n\<rparr>))
      | Count \<Rightarrow> Inr (m\<lparr>pc := if total_blocks s + 1 \<ge> goal then Finish else Head\<rparr>, s\<lparr>total_blocks := total_blocks s + 1\<rparr>)
      | Finish \<Rightarrow> Inr (m\<lparr>pc := Returned\<rparr>, s\<lparr>running := False\<rparr>)
      | Returned \<Rightarrow> Inr (m, s))"

inductive mining_step :: "mining \<Rightarrow> mining \<Rightarrow> bool" where
  thread: "i < length (miners s) \<Longrightarrow> pc (miners s ! i) \<noteq> Returned \<Longrightarrow>
    thread_step now (miners s ! i) s = Inr (m, s') \<Longrightarrow> mining_step s (s'\<lparr>miners := (miners s)[i := m]\<rparr>)"
| timeout: "running s \<Longrightarrow> mining_step s (s\<lparr>running := False\<rparr>)"

inductive_cases mining_stepE: "mining_step s s'"

definition joined :: "mining \<Rightarrow> bool" where
  "joined s \<longleftrightarrow> (\<forall>m \<in> set (miners s). pc m = Returned)"

definition test_4_miners_concurrent :: "mining \<Rightarrow> tests \<Rightarrow> bool \<times> tests" where
  "test_4_miners_concurrent s c = test_asserts [total_blocks s \<ge> goal] c"

text \<open>No candidate names a predecessor, so no submission succeeds and the counter stays at zero.\<close>

definition candidate_ok :: "test_miner \<Rightarrow> bool" where
  "candidate_ok m \<longleftrightarrow> pc m \<noteq> Count \<and> pc m \<noteq> Finish \<and> (\<forall>k d b. pc m = Submit k d b \<longrightarrow> prev_id b = zeros32)"

definition mining_inv :: "node \<Rightarrow> mining \<Rightarrow> bool" where
  "mining_inv n s \<longleftrightarrow> (\<exists>r. shared_chain s = n\<lparr>rx := r\<rparr>) \<and> total_blocks s = 0
     \<and> length (miners s) = 4 \<and> (\<forall>m \<in> set (miners s). candidate_ok m)"

definition unextendable :: "node \<Rightarrow> bool" where
  "unextendable n \<longleftrightarrow> m_blocks n \<noteq> [] \<and> block_hash (last (m_blocks n)) \<noteq> zeros32 \<and> (\<exists>g. get_current_difficulty n = Inr g)"

lemma zero_parent_rejected:
  "unextendable n \<Longrightarrow> prev_id b = zeros32 \<Longrightarrow> add_new_block now (n\<lparr>rx := r\<rparr>) b d0 = Inr (False, d0, n\<lparr>rx := r\<rparr>)"
  by (auto simp: unextendable_def add_new_block_def Let_def)

lemma thread_step_inv:
  assumes "unextendable n" "mining_inv n s" "m \<in> set (miners s)"
  shows "\<exists>m' r. thread_step now m s = Inr (m', s\<lparr>shared_chain := n\<lparr>rx := r\<rparr>\<rparr>) \<and> candidate_ok m'"
proof -
  obtain r where r: "shared_chain s = n\<lparr>rx := r\<rparr>" and t: "total_blocks s = 0" and m: "candidate_ok m"
    using assms(2,3) by (auto simp: mining_inv_def)
  have s: "s = s\<lparr>shared_chain := n\<lparr>rx := r\<rparr>\<rparr>" using r by simp
  obtain g where g: "get_current_difficulty n = Inr g" using assms(1) by (auto simp: unextendable_def)
  show ?thesis
  proof (cases "pc m")
    case (Hash k d)
    then show ?thesis
      by (auto simp: thread_step_def r Let_def calculate_hash_def candidate_ok_def test_block_def blank_block_def)
  next
    case (Submit k d b)
    then have "prev_id b = zeros32" using m by (simp add: candidate_ok_def)
    then show ?thesis
      using Submit zero_parent_rejected [OF assms(1)] by (auto simp: thread_step_def r candidate_ok_def)
  qed (use m g in \<open>auto simp: thread_step_def r t candidate_ok_def intro!: exI [of _ r] s\<close>)
qed

lemma mining_step_inv:
  assumes "mining_step s s'" "unextendable n" "mining_inv n s"
  shows "mining_inv n s'"
  using assms(1)
proof cases
  case (thread i now m s1)
  then have "miners s ! i \<in> set (miners s)" by simp
  from thread_step_inv [OF assms(2,3) this, of now] obtain r
    where "s1 = s\<lparr>shared_chain := n\<lparr>rx := r\<rparr>\<rparr>" "candidate_ok m" using thread(4) by auto
  then show ?thesis
    using assms(3) thread(1) by (auto simp: mining_inv_def dest!: subsetD [OF set_update_subset_insert])
next
  case timeout
  then show ?thesis using assms(3) by (simp add: mining_inv_def)
qed

lemma mining_inv_start: "mining_inv n (miners_start n)"
  unfolding mining_inv_def miners_start_def by (auto simp: candidate_ok_def intro!: exI [of _ "rx n"])

lemma mining_steps_inv:
  "mining_step\<^sup>*\<^sup>* s s' \<Longrightarrow> unextendable n \<Longrightarrow> mining_inv n s \<Longrightarrow> mining_inv n s'"
  by (induction rule: rtranclp.induct) (auto dest: mining_step_inv)

text \<open>How many steps a thread has left at most once nobody is told to run.\<close>

fun rank :: "miner_pc \<Rightarrow> nat" where
  "rank Returned = 0"
| "rank Head = 1"
| "rank Finish = 1"
| "rank (Attempt k d) = 2"
| "rank Count = 2"
| "rank Fetch = 3"
| "rank (Submit k d b) = 3"
| "rank Head_total = 4"
| "rank (Hash k d) = 4"

definition steps_left :: "mining \<Rightarrow> nat" where
  "steps_left s = sum_list (map (rank \<circ> pc) (miners s))"

lemma rank_le: "rank p \<le> 4"
  by (cases p) auto

lemma thread_step_rank:
  assumes "thread_step now m s = Inr (m', s')" "\<not> running s" "pc m \<noteq> Returned"
  shows "rank (pc m') < rank (pc m)" "\<not> running s'"
  using assms by (auto simp: thread_step_def Let_def bindr_Inr_iff split: miner_pc.splits if_splits prod.splits)

lemma sum_list_decreases: "i < length xs \<Longrightarrow> f x < f (xs ! i) \<Longrightarrow> sum_list (map f (xs[i := x])) < (sum_list (map f xs) :: nat)"
  by (induction xs arbitrary: i) (auto split: nat.split simp: less_Suc_eq_0_disj nth_Cons')

lemma stopped_step:
  assumes "mining_step s s'" "\<not> running s"
  shows "steps_left s' < steps_left s \<and> \<not> running s'"
  using assms(1)
proof cases
  case (thread i now m s1)
  then show ?thesis
    using thread_step_rank [OF thread(4) assms(2) thread(3)]
    by (auto simp: steps_left_def intro!: sum_list_decreases)
qed (use assms(2) in simp)

lemma stopped_steps: "(mining_step ^^ k) s s' \<Longrightarrow> \<not> running s \<Longrightarrow> k + steps_left s' \<le> steps_left s"
proof (induction k arbitrary: s')
  case (Suc k)
  then obtain s1 where s1: "(mining_step ^^ k) s s1" "mining_step s1 s'" by auto
  have "\<not> running t" if "(mining_step ^^ j) s t" for j t
    using that Suc.prems(2) by (induction j arbitrary: t) (auto dest: stopped_step)
  then have "steps_left s' < steps_left s1" using stopped_step [OF s1(2)] s1(1) by blast
  then show ?case using Suc.IH [OF s1(1) Suc.prems(2)] by simp
qed simp

lemma fresh_unextendable: "fresh_disk fs dir \<Longrightarrow> unextendable (boot fs r dir)"
  using genesis_hash_nonzero
  by (simp add: unextendable_def boot_fresh get_current_difficulty_def next_difficulty_lwma3_def)

text \<open>However the four miner threads of the test interleave, and whatever their clocks read, no step of
  theirs is undefined, none of their blocks is ever accepted and the counter of mined blocks stays at
  zero, because no candidate names its predecessor; the test's assertion of 20 blocks fails.\<close>

theorem concurrent_miners_mine_nothing:
  assumes "unextendable n" "mining_step\<^sup>*\<^sup>* (miners_start n) s"
  shows "(\<exists>r. shared_chain s = n\<lparr>rx := r\<rparr>) \<and> total_blocks s = 0
     \<and> (\<forall>m \<in> set (miners s). \<forall>now. \<exists>x. thread_step now m s = Inr x)
     \<and> test_4_miners_concurrent s c = (False, c\<lparr>tests_total := tests_total c + 1\<rparr>)"
proof -
  have i: "mining_inv n s" using mining_steps_inv [OF assms(2,1) mining_inv_start] .
  moreover have "\<exists>x. thread_step now m s = Inr x" if "m \<in> set (miners s)" for m now
    using thread_step_inv [OF assms(1) i that, of now] by blast
  ultimately show ?thesis by (simp add: mining_inv_def test_4_miners_concurrent_def goal_def)
qed

lemma demo_unextendable: "unextendable demo_node"
  unfolding demo_node_def by (rule fresh_unextendable) simp

theorem concurrent_miners_mine_nothing_witness:
  "test_4_miners_concurrent ((miners_start demo_node)\<lparr>running := False\<rparr>) no_tests = (False, no_tests\<lparr>tests_total := 1\<rparr>)"
proof -
  have "mining_step (miners_start demo_node) ((miners_start demo_node)\<lparr>running := False\<rparr>)"
    by (rule mining_step.timeout) (simp add: miners_start_def)
  then have "mining_step\<^sup>*\<^sup>* (miners_start demo_node) ((miners_start demo_node)\<lparr>running := False\<rparr>)" by simp
  from concurrent_miners_mine_nothing [OF demo_unextendable this, of no_tests] show ?thesis by (simp add: no_tests_def)
qed

text \<open>C39: The join at the end of the test returns: once the time limit has cleared the running flag, the threads
  together can take at most 16 more steps, whatever the schedule, and as long as one has not
  returned some thread can step. The premise \<open>unextendable\<close> (there is a tip, its hash is not
  zero, the next difficulty is defined) holds in the test's fresh directory (fresh_unextendable).\<close>

theorem miners_join:
  assumes "unextendable n" "mining_step\<^sup>*\<^sup>* (miners_start n) s" "\<not> running s" "(mining_step ^^ k) s s'"
  shows "k \<le> 16 \<and> (joined s' \<or> (\<exists>s''. mining_step s' s''))"
proof
  have i: "mining_inv n s" using mining_steps_inv [OF assms(2,1) mining_inv_start] .
  have "sum_list (map (rank \<circ> pc) ms) \<le> 4 * length ms" for ms :: "test_miner list"
    by (induction ms) (use rank_le in \<open>auto simp: add_le_mono\<close>)
  then have "steps_left s \<le> 4 * length (miners s)" unfolding steps_left_def .
  then show "k \<le> 16" using stopped_steps [OF assms(4,3)] i by (simp add: mining_inv_def)
  have "mining_inv n s'" using mining_steps_inv [OF relpowp_imp_rtranclp [OF assms(4)] assms(1) i] .
  note step = thread_step_inv [OF assms(1) this]
  show "joined s' \<or> (\<exists>s''. mining_step s' s'')"
  proof (cases "joined s'")
    case False
    then obtain j where j: "j < length (miners s')" "pc (miners s' ! j) \<noteq> Returned"
      by (auto simp: joined_def in_set_conv_nth)
    then obtain m r where "thread_step 0 (miners s' ! j) s' = Inr (m, s'\<lparr>shared_chain := n\<lparr>rx := r\<rparr>\<rparr>)"
      using step [of "miners s' ! j" 0] by auto
    then show ?thesis using mining_step.thread [OF j] by blast
  qed simp
qed

theorem miners_join_witness:
  "joined ((miners_start demo_node)\<lparr>running := False\<rparr>) \<or> (\<exists>s''. mining_step ((miners_start demo_node)\<lparr>running := False\<rparr>) s'')"
proof -
  have "mining_step (miners_start demo_node) ((miners_start demo_node)\<lparr>running := False\<rparr>)"
    by (rule mining_step.timeout) (simp add: miners_start_def)
  then have "mining_step\<^sup>*\<^sup>* (miners_start demo_node) ((miners_start demo_node)\<lparr>running := False\<rparr>)" by simp
  from miners_join [OF demo_unextendable this, of 0] show ?thesis by simp
qed

section \<open>Test 3: a transfer through the pool\<close>

type_synonym wallet_draws = "(nat \<Rightarrow> nat) \<times> (nat \<Rightarrow> byte) \<times> (nat \<Rightarrow> byte)"

definition test_transactions_and_mempool ::
  "(pool_entry list \<Rightarrow> pool_entry list) \<Rightarrow> u64 \<Rightarrow> wallet_draws \<Rightarrow> wallet_draws \<Rightarrow> bytes \<Rightarrow> transaction \<Rightarrow> tests \<Rightarrow> (bool \<times> tests) result" where
  "test_transactions_and_mempool srt now rnd1 rnd2 junk tx0 c =
     (let (dis1, a1, b1) = rnd1; (dis2, a2, b2) = rnd2 in
      bindr (create_new dis1 a1 b1 ''tdd_sender'' ''pw1'' (new_wallet junk)) (\<lambda>(_, sender).
      bindr (create_new dis2 a2 b2 ''tdd_recip'' ''pw2'' (new_wallet junk)) (\<lambda>(_, recipient).
        let (go, c) = test_asserts [m_address sender \<noteq> [], m_address recipient \<noteq> [],
                                    m_address sender \<noteq> m_address recipient] c in
        if \<not> go then Inr (False, c)
        else let (ok, tx, err, sender) = create_transfer (m_address recipient) (50 * COIN_UNITS) tx0 [] sender;
                 (go, c) = test_asserts [ok] c in
        if \<not> go then Inr (False, c)
        else bindr (nth_r (vin tx) 0) (\<lambda>input.
          let (go, c) = test_asserts [rct_type (rct tx) = 6, length (key_offsets input) = CRYPTONOTE_MINIMUM_MIXIN_V3 + 1,
                                      bulletproof_plus_bytes (rct tx) \<noteq> []] c in
          if \<not> go then Inr (False, c)
          else let (added, pool_err, pool) = add_tx srt now empty_pool tx [];
                   (go, c) = test_asserts [added, pool_size pool = 1] c in
          if \<not> go then Inr (False, c)
          else let tpl = get_block_template_txs pool 300000 in Inr (test_asserts [length tpl = 1] c)))))"

definition tdd_main ::
  "mining \<Rightarrow> (pool_entry list \<Rightarrow> pool_entry list) \<Rightarrow> u64 \<Rightarrow> wallet_draws \<Rightarrow> wallet_draws \<Rightarrow> bytes \<Rightarrow> transaction \<Rightarrow> (int \<times> tests) result" where
  "tdd_main s srt now rnd1 rnd2 junk tx0 =
     bindr (test_100_block_epoch_retarget no_tests) (\<lambda>(t1, c).
     let (t2, c) = test_4_miners_concurrent s c in
     bindr (test_transactions_and_mempool srt now rnd1 rnd2 junk tx0 c) (\<lambda>(t3, c).
     Inr (if t1 \<and> t2 \<and> t3 then 0 else 1, c)))"

lemma mempool_test_passes:
  assumes "fee_sort srt" "vin tx0 = []" "rnd1 = (dis1, a1, b1)" "rnd2 = (dis2, a2, b2)"
    and w1: "create_new dis1 a1 b1 ''tdd_sender'' ''pw1'' (new_wallet junk) = Inr (o1, sender)"
    and w2: "create_new dis2 a2 b2 ''tdd_recip'' ''pw2'' (new_wallet junk) = Inr (o2, recipient)"
    and "m_address sender \<noteq> m_address recipient"
  shows "test_transactions_and_mempool srt now rnd1 rnd2 junk tx0 c =
    Inr (True, c\<lparr>tests_total := tests_total c + 10, tests_passed := tests_passed c + 10\<rparr>)"
proof -
  let ?tx = "build_transfer tx0" and ?p = "empty_pool\<lparr>m_mempool := [new_entry now (build_transfer tx0)]\<rparr>"
  have "m_unlocked_balance sender = 250 * COIN_UNITS"
    using create_new_total [of dis1 a1 b1 "''tdd_sender''" "''pw1''" "new_wallet junk"] w1 by auto
  then have tr: "\<exists>w'. create_transfer dst (50 * COIN_UNITS) tx0 [] sender = (True, ?tx, [], w')" for dst
    by (simp add: create_transfer_def Let_def COIN_UNITS_def)
  note tx = built_transfer [OF assms(2)]
  have add: "add_tx srt now empty_pool ?tx [] = (True, [], ?p)"
    by (rule first_admitted [OF assms(1) _ tx(4)]) (simp add: empty_pool_def)
  have "pool_inv ?p" using fee_sort.add_keeps_inv [OF assms(1) pool_inv_empty add] .
  then have tpl: "get_block_template_txs ?p 300000 = [?tx]"
    using template_take [of ?p 300000] by (simp add: new_entry_def)
  have rct: "rct_type (rct ?tx) = 6" "bulletproof_plus_bytes (rct ?tx) \<noteq> []" "length (key_offsets transfer_input) = 16"
    using tx(4) by (auto simp: admissible_def missing_proofs_def tx(1))
  have addr: "m_address sender \<noteq> []" "m_address recipient \<noteq> []"
    using create_new_address [OF w1] create_new_address [OF w2] by simp_all
  obtain w' where "create_transfer (m_address recipient) (50 * COIN_UNITS) tx0 [] sender = (True, ?tx, [], w')"
    using tr by blast
  then show ?thesis
    using assms(7) addr rct
    by (simp add: test_transactions_and_mempool_def assms(3,4) w1 w2 tx(1) nth_r_def add tpl pool_size_def
        CRYPTONOTE_MINIMUM_MIXIN_V3_def)
qed

lemma mempool_test_same_address:
  assumes "rnd1 = (dis1, a1, b1)" "rnd2 = (dis2, a2, b2)"
    and w1: "create_new dis1 a1 b1 ''tdd_sender'' ''pw1'' (new_wallet junk) = Inr (o1, sender)"
    and w2: "create_new dis2 a2 b2 ''tdd_recip'' ''pw2'' (new_wallet junk) = Inr (o2, recipient)"
    and "m_address sender = m_address recipient"
  shows "test_transactions_and_mempool srt now rnd1 rnd2 junk tx0 c =
    Inr (False, c\<lparr>tests_total := tests_total c + 3, tests_passed := tests_passed c + 2\<rparr>)"
  using create_new_address [OF w1] assms(5)
  by (simp add: test_transactions_and_mempool_def assms(1,2) w1 w2)

text \<open>The integration suite fails in every run: on a fresh test directory, for any interleaving of the miner
  threads, any clocks, any sort of the pool and any random draws, the program exits with code 1. Unless
  the two wallets drew the same address, 11 of the 13 assertions pass; the two that fail are the
  retargeting on slow blocks (the difficulty rises to 5750) and the 20 mined blocks.\<close>

theorem integration_suite_fails:
  assumes "fresh_disk fs ''./test_data_tdd''" "mining_step\<^sup>*\<^sup>* (miners_start (boot fs r ''./test_data_tdd'')) s"
    and "fee_sort srt" "vin tx0 = []"
  shows "\<exists>sender recipient.
      create_new dis1 a1 b1 ''tdd_sender'' ''pw1'' (new_wallet junk) = Inr (True, sender)
    \<and> create_new dis2 a2 b2 ''tdd_recip'' ''pw2'' (new_wallet junk) = Inr (True, recipient)
    \<and> tdd_main s srt now (dis1, a1, b1) (dis2, a2, b2) junk tx0 =
        Inr (1, if m_address sender \<noteq> m_address recipient then \<lparr>tests_passed = 11, tests_total = 13\<rparr>
                else \<lparr>tests_passed = 3, tests_total = 6\<rparr>)"
proof -
  have "mining_inv (boot fs r ''./test_data_tdd'') s"
    using mining_steps_inv [OF assms(2) fresh_unextendable [OF assms(1)] mining_inv_start] .
  then have g: "\<not> goal \<le> total_blocks s" by (simp add: mining_inv_def goal_def)
  obtain sender where w1: "create_new dis1 a1 b1 ''tdd_sender'' ''pw1'' (new_wallet junk) = Inr (True, sender)"
    using create_new_total by blast
  obtain recipient where w2: "create_new dis2 a2 b2 ''tdd_recip'' ''pw2'' (new_wallet junk) = Inr (True, recipient)"
    using create_new_total by blast
  have "tdd_main s srt now (dis1, a1, b1) (dis2, a2, b2) junk tx0 =
      Inr (1, if m_address sender \<noteq> m_address recipient then \<lparr>tests_passed = 11, tests_total = 13\<rparr>
              else \<lparr>tests_passed = 3, tests_total = 6\<rparr>)"
    using g mempool_test_passes [OF assms(3,4) refl refl w1 w2] mempool_test_same_address [OF refl refl w1 w2]
    by (simp add: tdd_main_def retarget_outcome no_tests_def test_4_miners_concurrent_def)
  with w1 w2 show ?thesis by blast
qed

theorem integration_suite_fails_witness:
  "\<exists>c. tdd_main (miners_start (boot demo_fs rx_initial ''./test_data_tdd'')) fee_insertion_sort 0
     (\<lambda>_. 0, \<lambda>_. 1, \<lambda>_. 2) (\<lambda>_. 0, \<lambda>_. 3, \<lambda>_. 4) zeros32 blank_tx = Inr (1, c)"
proof -
  have "fresh_disk demo_fs ''./test_data_tdd''" by (simp add: fresh_disk_def demo_fs_def)
  from integration_suite_fails [OF this rtranclp.rtrancl_refl insertion.fee_sort_axioms, of blank_tx]
  show ?thesis by (force simp: blank_tx_def)
qed

end
