(* ===== verification/Terminal.thy ===== *)
theory Terminal
  imports Wallet
begin

text \<open>
  What the wallet writes: the console text of wallet_main.cpp, with the lines that
  \<open>rescan_blockchain\<close> and \<open>load_chain\<close> print, standard output and standard error in one transcript.
  Theory Wallet has the states between which this text appears.
\<close>

definition rule_line :: string where
  "rule_line = replicate 55 (CHR ''='')"

definition print_help :: string where
  "print_help = concat (map out_line
     [newline @ rule_line,
      ''  '' @ COIN_NAME @ '' ('' @ COIN_TICKER @ '') Wallet CLI Commands'',
      rule_line,
      ''  create <name>            - Create a new wallet'',
      ''  rescan                   - Scan blockchain disk DB for mined rewards'',
      ''  address                  - Show primary XRL stealth address'',
      ''  balance                  - View total & unlocked balance'',
      ''  transfer <addr> <amt>    - Send RingCT transaction (CLSAG 16)'',
      ''  seed                     - Display 25-word recovery seed'',
      ''  history                  - View transaction history'',
      ''  tokenomics               - View XRL supply & emission breakdown'',
      ''  exit                     - Exit wallet CLI'' @ newline])"

text \<open>\<open>std::setw(w) << std::left\<close>\<close>

definition left_pad :: "nat \<Rightarrow> string \<Rightarrow> string" where
  "left_pad w s = s @ replicate (w - length s) (CHR '' '')"

definition print_tokenomics :: string where
  "print_tokenomics =
     concat (map out_line
       [newline @ rule_line,
        ''  '' @ COIN_NAME @ '' ('' @ COIN_TICKER @ '') Tokenomics & Emission Profile'',
        rule_line,
        ''  Base Money Supply    : 18,400,000 XRL'',
        ''  Tail Emission        : 0.6 XRL per 150s block (~210,240 XRL/year)'',
        ''  Emission Factor      : 20 (Exponential decay curve)'',
        ''  Target Block Time    : 150 seconds (2.5 minutes)'',
        ''  Output Lock Maturity : 10 blocks (25 minutes real time)'',
        ''  Decimals             : 12 (1 XRL = 1,000,000,000,000 atomic units)'',
        newline @ ''  [Emission Schedule Preview]''])
     @ concat (map (\<lambda>(block, reward). out_line (''  Height #'' @ left_pad 7 (dec (unat block)) @ '' | Block Reward: '' @ print_money reward))
         tokenomics_preview)
     @ out_line (rule_line @ newline)"

definition load_chain_output :: "database \<Rightarrow> filesystem \<Rightarrow> string" where
  "load_chain_output db fs =
     (let (ok, blocks, timestamps, cds, spent) = load_chain db fs [] [] [] {} in
      if ok then out_line (''[LMDB Persistence] Loaded '' @ dec (length blocks) @ '' blocks & '' @ dec (card spent)
                           @ '' spent key images from disk.'')
      else [])"

definition rescan_output :: "filesystem \<Rightarrow> string \<Rightarrow> wallet \<Rightarrow> string" where
  "rescan_output fs data_dir w =
     (let (opened, db) = db_open new_database data_dir in
      if \<not> opened then []
      else let (ok, blocks, timestamps, cds, spent) = load_chain db fs [] [] [] {} in
        load_chain_output db fs @
        (if ok \<and> blocks \<noteq> [] then
           let w = snd (rescan_blockchain fs data_dir w) in
           out_line (''[Wallet Rescan] Scanned '' @ dec (length blocks) @ '' blocks on disk.'')
           @ out_line (''[Wallet Rescan] Total Mined Balance: '' @ print_money (m_total_balance w)
                       @ '' | Unlocked Spendable: '' @ print_money (m_unlocked_balance w))
         else []))"

definition balance_output :: "u64 \<Rightarrow> u64 \<Rightarrow> string" where
  "balance_output tot unlocked =
     out_line (''Total Balance    : '' @ print_money tot)
     @ out_line (''Unlocked Balance : '' @ print_money unlocked)
     @ out_line ''Lock Maturity    : 10 blocks (25 minutes spendable age)''"

definition history_output :: "WalletTransfer list \<Rightarrow> string" where
  "history_output hist =
     out_line (newline @ ''Transaction History ('' @ dec (length hist) @ '' records):'')
     @ concat (map (\<lambda>tr. out_line (''  [TX] '' @ take 16 (tr_tx_hash tr) @ ''... | Amount: '' @ print_money (tr_amount tr)
                              @ '' -> '' @ take 16 (recipient_address tr) @ ''...'')) hist)"

definition transfer_output_text :: "string \<Rightarrow> string" where
  "transfer_output_text dst_addr = concat (map out_line
     [newline @ rule_line,
      ''  '' @ [CHR 0xF0, CHR 0x9F, CHR 0x8E, CHR 0x89] @ '' RingCT Transaction Created & Signed!'',
      ''  Anonymity Ring Size : 16 (1 real + 15 decoys)'',
      ''  Range Proof Format  : Bulletproofs+ (Zero Knowledge)'',
      ''  Transaction Fee     : 0.001 XRL'',
      ''  Destination Address : '' @ dst_addr,
      ''  Broadcasting transaction to randomlited P2P network...'',
      rule_line @ newline])"

definition seed_output :: "wallet \<Rightarrow> string" where
  "seed_output w = out_line (''25-Word Mnemonic Seed:'' @ newline @ m_mnemonic w)"

text \<open>What one line typed into the wallet makes it print.\<close>

definition cli_output ::
  "filesystem \<Rightarrow> (nat \<Rightarrow> nat) \<times> (nat \<Rightarrow> byte) \<times> (nat \<Rightarrow> byte) \<Rightarrow> transaction \<Rightarrow> string \<Rightarrow> cli \<Rightarrow> string result" where
  "cli_output fs rnd tx0 line s =
     (if line = [] then Inr []
      else let (w0, ss) = read_word line; cmd = (case w0 of None \<Rightarrow> [] | Some w \<Rightarrow> w); w = cli_wallet s in
        if cmd = ''exit'' \<or> cmd = ''quit'' then Inr (out_line ''Exiting wallet.'')
        else if cmd = ''help'' then Inr print_help
        else if cmd = ''create'' then
          let wname = (case fst (read_word ss) of None \<Rightarrow> ''new_wallet'' | Some n \<Rightarrow> n); (dis, d1, d2) = rnd in
          bindr (create_new dis d1 d2 wname ''password123'' w) (\<lambda>(_, w').
            Inr (out_line ''New Wallet Created!'' @ out_line (''Stealth Address: '' @ m_address w') @ seed_output w'))
        else if cmd = ''rescan'' then Inr (rescan_output fs ''./data'' w)
        else if cmd = ''address'' then Inr (out_line (''Stealth Address: '' @ m_address w))
        else if cmd = ''balance'' then
          let w' = snd (rescan_blockchain fs ''./data'' w); (t, u) = get_balance w'
          in Inr (rescan_output fs ''./data'' w @ balance_output t u)
        else if cmd = ''seed'' then Inr (seed_output w)
        else if cmd = ''tokenomics'' then Inr print_tokenomics
        else if cmd = ''history'' then Inr (history_output (m_history w))
        else if cmd = ''transfer'' then
          (case read_word ss of
             (None, _) \<Rightarrow> Inr (out_line ''Usage: transfer <destination_address> <amount_in_xrl>'')
           | (Some dst_addr, ss') \<Rightarrow>
               (case read_double ss' of
                  None \<Rightarrow> Inr (out_line ''Usage: transfer <destination_address> <amount_in_xrl>'')
                | Some amount_dbl \<Rightarrow>
                    bindr (atomic_amount amount_dbl) (\<lambda>amount.
                      let (ok, _, err, _) = create_transfer dst_addr amount tx0 [] w in
                      Inr (if ok then transfer_output_text dst_addr else out_line (''Transfer Error: '' @ err)))))
        else Inr (out_line (''Unknown command: '' @ [CHR 0x27] @ cmd @ [CHR 0x27] @ ''. Type '' @ [CHR 0x27] @ ''help''
                            @ [CHR 0x27] @ '' for available commands.'')))"

text \<open>The loop with its prompt, and the whole session.\<close>

fun cli_transcript ::
  "filesystem \<Rightarrow> (nat \<Rightarrow> (nat \<Rightarrow> nat) \<times> (nat \<Rightarrow> byte) \<times> (nat \<Rightarrow> byte)) \<Rightarrow> transaction \<Rightarrow> string list \<Rightarrow> cli \<Rightarrow> string result" where
  "cli_transcript fs rnds tx0 [] s = Inr ''xrl-wallet> ''"
| "cli_transcript fs rnds tx0 (l # ls) s =
     bindr (cli_output fs (rnds (length ls)) tx0 l s) (\<lambda>text.
     bindr (cli_step fs (rnds (length ls)) tx0 l s) (\<lambda>s'.
     bindr (if cli_done s' then Inr [] else cli_transcript fs rnds tx0 ls s') (\<lambda>rest.
     Inr (''xrl-wallet> '' @ text @ rest))))"

definition wallet_transcript ::
  "filesystem \<Rightarrow> (nat \<Rightarrow> (nat \<Rightarrow> nat) \<times> (nat \<Rightarrow> byte) \<times> (nat \<Rightarrow> byte)) \<Rightarrow> bytes \<Rightarrow> transaction \<Rightarrow> string list \<Rightarrow> string result" where
  "wallet_transcript fs rnds junk tx0 lines =
     (let (dis, d1, d2) = rnds (length lines) in
      bindr (create_new dis d1 d2 ''default_wallet'' ''password123'' (new_wallet junk)) (\<lambda>(_, w0).
        let w = snd (rescan_blockchain fs ''./data'' w0); (t, u) = get_balance w in
        bindr (cli_transcript fs rnds tx0 lines \<lparr>cli_wallet = w, cli_total = t, cli_unlocked = u, cli_done = False\<rparr>) (\<lambda>text.
        Inr (out_line (''Starting '' @ COIN_NAME @ '' ('' @ COIN_TICKER @ '') Wallet CLI v1.0.0...'')
             @ rescan_output fs ''./data'' w0
             @ out_line (newline @ ''Wallet loaded & synced with blockchain disk DB!'')
             @ out_line (''Address: '' @ m_address w)
             @ out_line (''Balance: '' @ print_money t @ '' (Unlocked: '' @ print_money u @ '')'')
             @ print_help @ text))))"

text \<open>wallet_rpc_main.cpp: what it prints up to its loop, which only waits, and the handler that ends it.\<close>

definition wallet_rpc_output :: "wallet \<Rightarrow> string" where
  "wallet_rpc_output w = concat (map out_line
     [''Starting '' @ COIN_NAME @ '' ('' @ COIN_TICKER @ '') Wallet RPC Daemon v1.0.0...'',
      ''[Wallet RPC] Hot Wallet Address: '' @ m_address w,
      ''[Wallet RPC] Listening on http://127.0.0.1:'' @ dec (unat ZMQ_DEFAULT_PORT) @ ''/json_rpc'',
      ''[Wallet RPC] Standard Exchange Endpoints: get_balance, get_address, make_transfer, rescan'',
      ''Press Ctrl+C to stop RPC wallet daemon.'' @ newline])"

definition wallet_rpc_signal_handler :: "int \<Rightarrow> bool \<Rightarrow> string \<times> bool" where
  "wallet_rpc_signal_handler sig g_running =
     (out_line (newline @ ''[Wallet RPC] Shutdown signal received ('' @ dec (nat sig) @ ''). Exiting...''), False)"

section \<open>Text and state agree\<close>

text \<open>A line prints exactly when it steps, with the same failure.\<close>

lemma output_iff_step:
  "(\<exists>text. cli_output fs rnd tx0 line s = Inr text) \<longleftrightarrow> (\<exists>s'. cli_step fs rnd tx0 line s = Inr s')"
  and output_error: "cli_output fs rnd tx0 line s = Inl e \<longleftrightarrow> cli_step fs rnd tx0 line s = Inl e"
  unfolding cli_output_def cli_step_def
  by (auto simp: Let_def bindr_def split: prod.splits option.splits sum.splits if_splits)

end
