(* ===== verification/Spec2Isabelle.thy ===== *)
theory Spec2Isabelle
  imports Miner Hardfork BlockWeight TreeHash Base58 Blake2b_Variants BlockQueue Ledger Tdd Terminal
begin

text \<open>
  RandomLite (XRL): a verification development of the project's own node, wallet and miner (src/src,
  called the prototype below) and of the parts of the vendored Monero code (src/vendor/monero) that
  it links or that decide consensus.

  Parts of the program and how they interact. The daemon (daemon/main.cpp) owns one Blockchain
  (cryptonote_core/blockchain.cpp), a P2P server and an RPC server. The chain holds the blocks, the
  timestamp and cumulative-difficulty vectors, a memory pool (cryptonote_core/tx_pool.cpp) and a
  database (blockchain_db/lmdb_storage.cpp: two append-only files). A block is accepted when it
  extends the tip, is younger than it, is at most two hours ahead of the clock and the RandomX
  stand-in (crypto/randomx-monero.cpp) of its hash field meets the LWMA difficulty
  (crypto/difficulty.cpp); it is then appended, saved to disk and its transactions leave the pool.
  The wallet (wallet/) never talks to the node: it rescans the node's block file and credits the
  emission schedule (cryptonote_core/emission.cpp). The stand-alone miner (miner/miner_main.cpp) only
  hashes. Keys, key images and stealth addresses are in crypto/crypto.cpp, over the vendored Keccak and
  BLAKE2b.

  Theories, the sources they model, and what their lemmas show:

  \<^item> Prelude: C++ integers as words, failures of C++ expressions as the type \<open>cpp_error\<close>, results
    \<open>cpp_error + 'a\<close>, checked vector reads. Config: cryptonote_config.h. Bytes: little-endian
    layouts, decimal and hexadecimal text, \<open>hash_to_hex\<close> and \<open>hex_to_hash\<close>. Doubles: IEEE double
    rounding on rationals and the casts to and from uint64_t. Stod: std::stod. Basic: the structs of
    cryptonote_basic.h.
  \<^item> Lwma: \<open>next_difficulty_lwma3\<close> and \<open>check_pow_hash\<close>. The rule is defined on regular histories, moves
    by the clamp's band, and responds to block times in the wrong direction.
  \<^item> RandomX: the manager's flag and the simulated hash, which is invertible.
  \<^item> Emission: reward (range, antitone, the wrap of the tail), printing and parsing of amounts.
  \<^item> TxPool: admission, removal, templates. The pool invariant (shape, distinct hashes, disjoint key
    images, fees descending), a refinement to a finite map, and repeated mining rounds that drain it
    by fee. The sort is the locale \<open>fee_sort\<close>, interpreted on an insertion sort.
  \<^item> Storage: the block file and the key-image file over an explicit file system. Round trip, torn
    records, and the locale \<open>block_store\<close>, the contract the chain relies on, interpreted on the files.
  \<^item> Blockchain: start, validation, acceptance, shutdown. \<open>chain_step\<close> is what can happen to a running
    node, \<open>running\<close> its reachable states since the first start; invariants by rule induction.
  \<^item> Restart: \<open>lifetime\<close>, the reachable states over any number of restarts. What history survives, that
    consensus cannot tell a restarted node from one that kept running, that the chain can always grow,
    and that the history the disk keeps is final. Ledger: an abstract ledger, a list of blocks with a set of spent keys and
    a pool as a finite map; the node's events refine it and the two have the same traces.
  \<^item> Network: the two servers, with the locale \<open>threaded_server\<close> for start, stop and destruction.
    Daemon: the main loop over a schedule of signals and clock readings. Miner: worker threads as an
    interleaving step relation. Wallet: keys, rescan, transfers, the command loop of wallet_main.cpp. Terminal: the text
    its commands and the RPC wallet write.
  \<^item> Tdd: the checks of tests/ run on the model, the mining loop of the integration suite, and its four
    concurrent miners as an interleaving over one node.
  \<^item> Keccak, Blake2b: vendor crypto/keccak.c and crypto/blake2b.c. Streaming agrees with the one-shot
    hash, and BLAKE2b computes the function of RFC 7693, written with its tables apart from the code.
    Blake2b_Variants: parameters, the tree fields and the family's other entry points. Crypto:
    crypto/crypto.cpp over both.
  \<^item> Hardfork: vendor hardfork.cpp, the vote window, restart and reorganisation, and that a popped block leaves
    a stale window. Difficulty: vendor
    difficulty.cpp and the 128-bit arithmetic under it. Varint: vendor common/varint.h.
    CoreReward: \<open>get_block_reward\<close> of vendor cryptonote_basic_impl.cpp, with its penalty for large blocks.
    RollingMedian: vendor epee rolling_median.h, two heaps around the median in one array; the heaps are the
    locale \<open>heap_order\<close>, interpreted for both. MedianWindow: its median is that of the sorted last N items.
    BlockWeight: the weight limits of vendor blockchain.cpp with the cached long-term median; \<open>weights_running\<close> is
    the life of the cache over any chains, and every answer is a function of the chain alone.
    TreeHash: vendor crypto/tree-hash.c, the root against a recursive Merkle tree, that the branches it hands out
    verify, and that another branch that verifies exhibits a collision of the hash. Base58: vendor common/base58.cpp, both directions of the block code and the
    checksummed addresses.
  \<^item> Pruning: vendor common/pruning.cpp, which stripes of 4096 blocks a pruned node keeps; the next height it
    keeps and the next it lacks are exact, and the stripes share out the chain. BlockQueue: vendor
    cryptonote_protocol/block_queue.cpp, the spans of blocks a syncing node has asked its peers for. \<open>queue_life\<close>
    is what can happen to a queue; its invariant (disjoint spans, books of the requested hashes), the next
    height that is needed, and that turns of reservations share out the whole download.
  \<^item> This theory: the properties that need both the node and the wallet, what a user reads and can pay at
    the prompt, the way of a payment through any node's pool, and the prototype's emission beside the vendored one.

  How the state corresponds. A class is a record with the members as fields, under their names; a
  vector is a list, a map of the file system a function from paths to bytes. A method takes the
  record and returns it; out-parameters are components of the result. Locks make \<open>init\<close>, \<open>add_new_block\<close>
  and \<open>shutdown\<close> of Blockchain and the methods of TxMemoryPool one atomic step each; the readers of Blockchain
  (\<open>get_current_height\<close>, \<open>get_current_difficulty\<close>, \<open>get_top_block\<close>, \<open>get_current_seed_epoch\<close>,
  \<open>verify_transaction\<close>) take no lock and are modelled between those steps. The clock, random draws, signals and the order in
  which std::sort leaves equal fees are arguments, so each theorem holds for all of them. Undefined
  behaviour, exceptions and std::terminate are values of \<open>cpp_error\<close>.

  Bounds. Where a theorem assumes a bound (timestamps below 2^63, work below 2^59, fewer than 2^62
  blocks, sizes below 2^63, windows below 2^27 items) the code's arithmetic wraps or a cast is undefined beyond it, and the
  theorem's text says so. There is no fuel: every loop of the sources is bounded by its input and is
  a total function; the daemon's endless loop is a recursion on the schedule it is given.

  Not modelled. Of the prototype: the console text of the daemon, the servers, the miner and the tests (that
  of the wallet is in Terminal), mutexes as such. Of vendor/monero: the production chain,
  database, RPC, wallet2, RingCT and curve arithmetic, which the prototype does not link and
  which rest on cryptography or I/O outside the scope of this library; of the chain, the block weight limits and the
  fork table are modelled over a database that is a list of blocks; of its P2P code only the two
  parts above, without the queue's transfer speeds and its overview text. The RandomX submodule is empty
  in the repository; the prototype does not call it.

  Where the code falls short of what it means to do, the theorem states what the code does; examples
  are \<open>lwma_slower_never_easier\<close>, \<open>daemon_never_extends\<close>, \<open>key_image_reveals_secret\<close>,
  \<open>transfer_balance\<close>, \<open>truncated_tag_accepted\<close>, \<open>lost_reservation\<close>, \<open>pop_leaves_stale_votes\<close> and
  \<open>new_rolling_median_large\<close>.
\<close>

section \<open>The node and the wallet share a disk\<close>

lemma persisted_records:
  assumes "persisted dir n"
  shows "\<exists>rs. holds_records (disk n) \<lparr>m_db_path = dir, m_opened = True\<rparr> rs \<and> rs \<noteq> [] \<and> length rs = length (m_blocks n)"
proof -
  have db: "m_db n = \<lparr>m_db_path = dir, m_opened = True\<rparr>"
    using assms by (cases "m_db n") (simp add: persisted_def)
  have "store.mirrors (m_db n, disk n) (m_blocks n) (m_timestamps n) (m_cumulative_difficulties n)"
    using assms by (simp add: persisted_def)
  then obtain rs where "disk_holds (m_db n, disk n) rs" "rs \<noteq> []" "map (on_disk \<circ> fst) rs = map on_disk (m_blocks n)"
    unfolding store.mirrors_def by blast
  then show ?thesis unfolding disk_holds_def db by (metis fst_conv length_map snd_conv)
qed

text \<open>The wallet and the node agree through the disk: at any point of a node's life, a rescan of its
  directory reads as many blocks as the node holds in memory, and sets any wallet's balance to the
  coins generated by all of them but the first, unlocked up to ten blocks below the tip.\<close>

theorem wallet_sees_node_chain:
  assumes "lifetime dir n" "length (m_blocks n) < 2 ^ 62"
  shows "rescan_blockchain (disk n) dir w =
     (generated_after (length (m_blocks n) - 1) 0,
      w\<lparr>m_total_balance := generated_after (length (m_blocks n) - 1) 0,
        m_unlocked_balance := generated_after (length (m_blocks n) - 10) 0\<rparr>)"
proof -
  have "persisted dir n" using lifetime_inv [OF assms(1)] by simp
  then obtain rs where rs: "holds_records (disk n) \<lparr>m_db_path = dir, m_opened = True\<rparr> rs" "rs \<noteq> []"
    "length rs = length (m_blocks n)"
    using persisted_records by blast
  then show ?thesis using rescan_eq [OF rs(1,2)] assms(2) by simp
qed

theorem wallet_sees_node_chain_witness:
  "fst (rescan_blockchain (disk (commit_block demo_block 1
      (demo_node\<lparr>rx := snd (snd (calculate_hash (rx demo_node) free_hash))\<rparr>))) ''d'' demo_wallet) = 17547607421875"
  using wallet_sees_node_chain [OF demo_one_block, of demo_wallet]
  by (simp del: commit_block_simps(7) add: get_block_reward_def Let_def BASE_SUPPLY_def COIN_UNITS_def
      TAIL_EMISSION_REWARD_def EMISSION_SPEED_FACTOR_PER_MINUTE_def)

text \<open>C11: What a user reads at the wallet's prompt: at any point of a node's life (below 2^62 blocks), typing balance prints, after
  the rescan's lines, the coins generated by every block of the node's chain but the first, and as
  unlocked those ten blocks deep, and keeps both in the session.\<close>

theorem balance_at_the_prompt:
  assumes "lifetime ''./data'' n" "length (m_blocks n) < 2 ^ 62"
  shows "\<exists>s'. cli_step (disk n) rnd tx0 ''balance'' s = Inr s'
     \<and> get_balance (cli_wallet s') = (generated_after (length (m_blocks n) - 1) 0, generated_after (length (m_blocks n) - 10) 0)
     \<and> cli_output (disk n) rnd tx0 ''balance'' s = Inr (rescan_output (disk n) ''./data'' (cli_wallet s)
         @ out_line (''Total Balance    : '' @ print_money (generated_after (length (m_blocks n) - 1) 0))
         @ out_line (''Unlocked Balance : '' @ print_money (generated_after (length (m_blocks n) - 10) 0))
         @ out_line ''Lock Maturity    : 10 blocks (25 minutes spendable age)'')"
proof -
  have "persisted ''./data'' n" using lifetime_inv [OF assms(1)] by simp
  then obtain rs where rs: "holds_records (disk n) \<lparr>m_db_path = ''./data'', m_opened = True\<rparr> rs" "rs \<noteq> []"
    "length rs = length (m_blocks n)"
    using persisted_records by blast
  note scan = rescan_eq [OF rs(1,2), of "cli_wallet s", unfolded rs(3), OF assms(2)]
  have w: "read_word ''balance'' = (Some ''balance'', [])"
    by (simp add: read_word_def is_space_def)
  show ?thesis by (simp add: cli_step_def cli_output_def w scan get_balance_def balance_output_def)
qed

lemma data_alive: "lifetime ''./data'' (boot demo_fs rx_initial ''./data'')"
  by (rule lifetime.first_start) (simp add: fresh_disk_def demo_fs_def)

theorem balance_at_the_prompt_witness:
  "\<exists>s'. cli_step (disk (boot demo_fs rx_initial ''./data'')) (\<lambda>_. 0, \<lambda>_. 7, \<lambda>_. 9) blank_tx ''balance''
       \<lparr>cli_wallet = demo_wallet, cli_total = 0, cli_unlocked = 0, cli_done = False\<rparr> = Inr s' \<and> get_balance (cli_wallet s') = (0, 0)"
proof -
  have "fresh_disk demo_fs ''./data''" by (simp add: fresh_disk_def demo_fs_def)
  then have "length (m_blocks (boot demo_fs rx_initial ''./data'')) = 1" by (simp add: boot_fresh)
  with balance_at_the_prompt [OF data_alive, of "(\<lambda>_. 0, \<lambda>_. 7, \<lambda>_. 9)" blank_tx
      "\<lparr>cli_wallet = demo_wallet, cli_total = 0, cli_unlocked = 0, cli_done = False\<rparr>"]
  show ?thesis by auto
qed

section \<open>An empty wallet\<close>

lemma genesis_records:
  assumes "files fs (d @ ''/blocks.dat'') = Some (block_record genesis_block h w)"
  shows "holds_records fs \<lparr>m_db_path = d, m_opened = True\<rparr> [(genesis_block, h, w)]"
  using assms by (simp add: holds_records_def blocks_file_def)

lemma typed_zero: "read_word ''transfer a 0'' = (Some ''transfer'', '' a 0'')" "read_word '' a 0'' = (Some ''a'', '' 0'')"
  "read_double '' 0'' = Some 0" "atomic_amount 0 = Inr 0"
proof -
  show "read_word ''transfer a 0'' = (Some ''transfer'', '' a 0'')" "read_word '' a 0'' = (Some ''a'', '' 0'')"
    by (simp_all add: read_word_def is_space_def)
  have v: "decimal_value ''0'' = Some 0" "split_digits is_digit ''0'' = (''0'', [], [])"
    by (simp_all add: decimal_value_def split_digits_def is_digit_def digits_val_def digit_val_def)
  have "fl 0 = 0" by (simp add: fl_def)
  with v show "read_double '' 0'' = Some 0" "atomic_amount 0 = Inr 0"
    using pow2_nat [of 1024]
    by (simp_all add: read_double_def is_space_def strip_sign_def negate_def atomic_amount_def u64_of_double_def)
qed

lemma typed_18_million:
  "read_word ''transfer b 18000000'' = (Some ''transfer'', '' b 18000000'')" "read_word '' b 18000000'' = (Some ''b'', '' 18000000'')"
  "read_double '' 18000000'' = Some 18000000" "atomic_amount 18000000 = Inr 18000000000000000000"
proof -
  show "read_word ''transfer b 18000000'' = (Some ''transfer'', '' b 18000000'')" "read_word '' b 18000000'' = (Some ''b'', '' 18000000'')"
    by (simp_all add: read_word_def is_space_def)
  have v: "decimal_value ''18000000'' = Some 18000000" "split_digits is_digit ''18000000'' = (''18000000'', [], [])"
    by (simp_all add: decimal_value_def split_digits_def is_digit_def digits_val_def digit_val_def exponent_part_def pow_base_def)
  have f: "fl 18000000 = 18000000" by (rule fl_numeral) simp
  have g: "fl 18000000000000000000 = 18000000000000000000" using fl_exact [of 34332275390625 19] by (simp add: pow2_def)
  have "\<not> pow2 1024 \<le> 18000000" using pow2_nat [of 1024] by simp
  with v f show "read_double '' 18000000'' = Some 18000000"
    by (simp add: read_double_def is_space_def strip_sign_def negate_def)
  show "atomic_amount 18000000 = Inr 18000000000000000000"
    using g by (simp add: atomic_amount_def u64_of_double_def double_COIN_UNITS)
qed

text \<open>C10: From the first start of a node to money from nothing: on an empty data directory the daemon runs, for any
  schedule, and exits; a wallet started on the disk it leaves, with any keys, has the balance zero, and
  two typed lines, a transfer of 0 XRL and a transfer of 18,000,000 XRL, are both carried out, since
  the fee of the first wraps the balance to 2^64 - 10^9 atomic units.\<close>

theorem empty_wallet_pays:
  assumes "fresh_disk fs ''./data''"
  shows "\<exists>d p r' s0 s. daemon_main fs r clock turns = Inr (0, d, p, r')
     \<and> wallet_main (disk (chain d)) rnds junk tx0 [] = Inr s0 \<and> get_balance (cli_wallet s0) = (0, 0)
     \<and> wallet_main (disk (chain d)) rnds junk tx0 [''transfer a 0'', ''transfer b 18000000''] = Inr s
     \<and> map (\<lambda>t. (recipient_address t, tr_amount t)) (m_history (cli_wallet s)) =
         [(''a'', 0), (''b'', 18000000000000000000)]
     \<and> m_unlocked_balance (cli_wallet s) = 446744071709551616"
proof -
  obtain d p r' where d: "daemon_main fs r clock turns = Inr (0, d, p, r')"
    "files (disk (chain d)) (''./data'' @ ''/blocks.dat'') = Some (block_record genesis_block 0 1)"
    using fresh_daemon_run [OF assms] by fastforce
  have scan: "rescan_blockchain (disk (chain d)) ''./data'' w = (0, w\<lparr>m_total_balance := 0, m_unlocked_balance := 0\<rparr>)" for w
    using rescan_eq [OF genesis_records [OF d(2)]] by simp
  have main: "\<exists>w. m_history w = [] \<and> wallet_main (disk (chain d)) rnds junk tx0 ls =
      cli_loop (disk (chain d)) rnds tx0 ls
        \<lparr>cli_wallet = w\<lparr>m_total_balance := 0, m_unlocked_balance := 0\<rparr>, cli_total = 0, cli_unlocked = 0, cli_done = False\<rparr>" for ls
  proof -
    obtain dis d1 d2 where r: "rnds (length ls) = (dis, d1, d2)" by (cases "rnds (length ls)")
    obtain w where "create_new dis d1 d2 ''default_wallet'' ''password123'' (new_wallet junk) = Inr (True, w)" "m_history w = []"
      using create_new_total [of dis d1 d2 _ _ "new_wallet junk"] by (auto simp: new_wallet_def)
    then show ?thesis by (auto simp: wallet_main_def r scan get_balance_def)
  qed
  obtain w0 where w0: "m_history w0 = []" "wallet_main (disk (chain d)) rnds junk tx0 [] =
      Inr \<lparr>cli_wallet = w0\<lparr>m_total_balance := 0, m_unlocked_balance := 0\<rparr>, cli_total = 0, cli_unlocked = 0, cli_done = False\<rparr>"
    using main [of "[]"] by auto
  obtain w where w: "m_history w = []" "wallet_main (disk (chain d)) rnds junk tx0 [''transfer a 0'', ''transfer b 18000000''] =
      cli_loop (disk (chain d)) rnds tx0 [''transfer a 0'', ''transfer b 18000000'']
        \<lparr>cli_wallet = w\<lparr>m_total_balance := 0, m_unlocked_balance := 0\<rparr>, cli_total = 0, cli_unlocked = 0, cli_done = False\<rparr>"
    using main by blast
  show ?thesis
    using d(1) w0 w by (simp add: get_balance_def cli_step_def typed_zero typed_18_million create_transfer_def
        build_transfer_def transfer_record_def Let_def)
qed
theorem empty_wallet_pays_witness:
  "\<exists>d p r' s. daemon_main demo_fs rx_initial (\<lambda>_. 0) [] = Inr (0, d, p, r')
     \<and> wallet_main (disk (chain d)) (\<lambda>_. (\<lambda>_. 0, \<lambda>_. 7, \<lambda>_. 9)) zeros32 blank_tx [''transfer a 0'', ''transfer b 18000000''] = Inr s
     \<and> m_unlocked_balance (cli_wallet s) = 446744071709551616"
proof -
  have "fresh_disk demo_fs ''./data''" by (simp add: fresh_disk_def demo_fs_def)
  from empty_wallet_pays [OF this, of rx_initial "\<lambda>_. 0" "[]" "\<lambda>_. (\<lambda>_. 0, \<lambda>_. 7, \<lambda>_. 9)" zeros32 blank_tx]
  show ?thesis by blast
qed

section \<open>A payment from the wallet to a block\<close>

text \<open>The hashes of the transactions that wait in a node's pool.\<close>

definition pooled :: "node \<Rightarrow> bytes set" where
  "pooled n = (\<lambda>e. tx_hash (pe_tx e)) ` set (m_mempool (m_tx_pool n))"

lemma payment_admission:
  assumes "lifetime dir n" "fee_sort srt" "vin tx0 = []"
    and "add_tx srt now (m_tx_pool n) (build_transfer tx0) reason = (ok, reason', p)"
  shows "if tx_hash tx0 \<in> pooled n \<or> (\<exists>e \<in> set (m_mempool (m_tx_pool n)). k_image transfer_input \<in> tx_images (pe_tx e))
    then \<not> ok \<and> p = m_tx_pool n
    else ok \<and> reason' = reason \<and> mset (m_mempool p) = add_mset (new_entry now (build_transfer tx0)) (mset (m_mempool (m_tx_pool n)))"
proof -
  have "tx_images (build_transfer tx0) = {k_image transfer_input}" by (simp add: tx_images_def built_transfer [OF assms(3)])
  then have "admission_error (m_tx_pool n) (build_transfer tx0) = None \<longleftrightarrow>
      \<not> (tx_hash tx0 \<in> pooled n \<or> (\<exists>e \<in> set (m_mempool (m_tx_pool n)). k_image transfer_input \<in> tx_images (pe_tx e)))"
    unfolding admission_None pooled_def by (force simp: built_transfer [OF assms(3)])
  then show ?thesis
    using assms(4) fee_sort.srt_mset [OF assms(2)] by (auto simp: add_tx_def split: option.splits)
qed

lemma whole_pool_template:
  assumes "pool_inv p" "1800 * pool_size p \<le> unat max_bytes" "unat max_bytes < 2 ^ 63"
  shows "get_block_template_txs p max_bytes = map pe_tx (m_mempool p)"
proof -
  have "length (m_mempool p) \<le> unat max_bytes div 1800"
    using assms(2) unfolding pool_size_def by (simp add: less_eq_div_iff_mult_less_eq mult.commute)
  then show ?thesis by (simp add: template_take [OF assms(1,3)])
qed

lemma block_clears_pool:
  "add_new_block now m b d0 = Inr (True, d, m') \<Longrightarrow> pooled m' = pooled m - set (tx_hashes b)"
  by (erule add_new_block_cases) (auto simp: pooled_def remove_txs_def)

text \<open>C9: A payment goes through end to end. A transfer of at most the unlocked balance, into a transaction with no
  inputs yet, succeeds. The transaction passes verify_transaction on every node at every time of its life.
  A node's pool, at any time of its life and whatever it holds, admits it, unless it holds the same hash or the key
  image that every transfer has, in which case the pool stays as it was; once admitted, it is in the block template, with the rest
  of the pool, for every size below 2^63 that holds the pool at 1800 bytes a transaction. It leaves the pool of a
  node, in any state, with an accepted block that carries its hash and with no other accepted block.\<close>

theorem transfer_reaches_block:
  assumes "vin tx0 = []" "amount \<le> m_unlocked_balance w" "fee_sort srt"
  shows "\<exists>tx w'. create_transfer dst amount tx0 err w = (True, tx, err, w') \<and> tx_hash tx = tx_hash tx0
     \<and> (\<forall>dir n h. lifetime dir n \<longrightarrow> verify_transaction n tx h)
     \<and> (\<forall>dir n now reason ok reason' p. lifetime dir n \<and> add_tx srt now (m_tx_pool n) tx reason = (ok, reason', p) \<longrightarrow>
          (if tx_hash tx \<in> pooled n \<or> (\<exists>e \<in> set (m_mempool (m_tx_pool n)). k_image transfer_input \<in> tx_images (pe_tx e))
           then \<not> ok \<and> p = m_tx_pool n
           else ok \<and> reason' = reason \<and> mset (m_mempool p) = add_mset (new_entry now tx) (mset (m_mempool (m_tx_pool n)))
             \<and> (\<forall>max_bytes. 1800 * pool_size p \<le> unat max_bytes \<and> unat max_bytes < 2 ^ 63 \<longrightarrow>
                  get_block_template_txs p max_bytes = map pe_tx (m_mempool p))))
     \<and> (\<forall>m later b d0 d m'. add_new_block later m b d0 = Inr (True, d, m') \<longrightarrow>
          (tx_hash tx \<in> pooled m' \<longleftrightarrow> tx_hash tx \<in> pooled m \<and> tx_hash tx \<notin> set (tx_hashes b)))"
proof -
  let ?tx = "build_transfer tx0"
  note tx = built_transfer [OF assms(1)]
  have verified: "verify_transaction n ?tx h" if "lifetime dir n" for dir n h
    using lifetime_inv [OF that] tx(4) verify_nothing_spent by (simp add: history_inv_def)
  have inv: "pool_inv p" if "lifetime dir n" "add_tx srt now (m_tx_pool n) ?tx reason = (ok, reason', p)"
    for dir n now reason ok reason' p
    using fee_sort.add_keeps_inv [OF assms(3) _ that(2)] lifetime_inv [OF that(1)] by (simp add: history_inv_def)
  have admitted: "if tx_hash ?tx \<in> pooled n \<or> (\<exists>e \<in> set (m_mempool (m_tx_pool n)). k_image transfer_input \<in> tx_images (pe_tx e))
           then \<not> ok \<and> p = m_tx_pool n
           else ok \<and> reason' = reason \<and> mset (m_mempool p) = add_mset (new_entry now ?tx) (mset (m_mempool (m_tx_pool n)))
             \<and> (\<forall>max_bytes. 1800 * pool_size p \<le> unat max_bytes \<and> unat max_bytes < 2 ^ 63 \<longrightarrow>
                  get_block_template_txs p max_bytes = map pe_tx (m_mempool p))"
    if "lifetime dir n" "add_tx srt now (m_tx_pool n) ?tx reason = (ok, reason', p)" for dir n now reason ok reason' p
    using payment_admission [OF that(1) assms(3,1) that(2)] whole_pool_template [OF inv [OF that]] by (simp add: tx(3))
  obtain w' where "create_transfer dst amount tx0 err w = (True, ?tx, err, w')"
    using assms(2) by (simp add: create_transfer_def Let_def not_less [symmetric])
  moreover have "tx_hash ?tx \<in> pooled m' \<longleftrightarrow> tx_hash ?tx \<in> pooled m \<and> tx_hash ?tx \<notin> set (tx_hashes b)"
    if "add_new_block later m b d0 = Inr (True, d, m')" for m later b d0 d m'
    using block_clears_pool [OF that] by simp
  ultimately show ?thesis
    by (intro exI [of _ ?tx] exI [of _ w'] conjI allI impI)
      (assumption | rule tx(3) | erule verified | erule conjE, rule admitted | blast)+
qed

theorem transfer_reaches_block_witness:
  "\<exists>tx w' p. create_transfer ''XRL4'' 5 blank_tx [] demo_wallet = (True, tx, [], w')
     \<and> verify_transaction demo_node tx 1 \<and> add_tx fee_insertion_sort 0 (m_tx_pool demo_node) tx [] = (True, [], p)
     \<and> get_block_template_txs p 300000 = [tx]"
proof -
  have e: "m_mempool (m_tx_pool demo_node) = []" by (simp add: demo_node_def boot_fresh empty_pool_def)
  have "vin blank_tx = []" "5 \<le> m_unlocked_balance demo_wallet" by (simp_all add: blank_tx_def demo_wallet_def)
  then obtain tx w' where tx: "create_transfer ''XRL4'' 5 blank_tx [] demo_wallet = (True, tx, [], w')"
    "verify_transaction demo_node tx 1"
    "\<And>ok reason p. add_tx fee_insertion_sort 0 (m_tx_pool demo_node) tx [] = (ok, reason, p) \<Longrightarrow>
       ok \<and> reason = [] \<and> mset (m_mempool p) = {#new_entry 0 tx#}
       \<and> (1800 * pool_size p \<le> 300000 \<longrightarrow> get_block_template_txs p 300000 = map pe_tx (m_mempool p))"
    using transfer_reaches_block [OF _ _ insertion.fee_sort_axioms, of blank_tx 5 demo_wallet "''XRL4''" "[]"] demo_alive e
    by (fastforce simp: pooled_def)
  obtain ok reason p where a: "add_tx fee_insertion_sort 0 (m_tx_pool demo_node) tx [] = (ok, reason, p)"
    by (cases "add_tx fee_insertion_sort 0 (m_tx_pool demo_node) tx []") auto
  with tx(3) have "m_mempool p = [new_entry 0 tx]" by (simp add: mset_single_iff)
  with tx(1,2) tx(3) [OF a] a show ?thesis by (auto simp: pool_size_def new_entry_def)
qed

section \<open>Two emissions\<close>

text \<open>The prototype and the vendored node disagree from the first block after the genesis: with the same supply and
  the same 150-second blocks the vendored rule shifts by 19 bits, the prototype's by 20, so the one
  pays twice what the other does.\<close>

lemma emissions_differ:
  "core_block_reward 300000 300000 0 16 = Inr (Some 35095214843750)" "get_block_reward 0 1 = 17547607421875"
  by (simp_all add: core_block_reward_def get_min_block_weight_def CORE_TARGET_def CORE_EMISSION_SPEED_FACTOR_def
      CORE_MONEY_SUPPLY_def CORE_FINAL_SUBSIDY_def get_block_reward_def Let_def BASE_SUPPLY_def COIN_UNITS_def
      TAIL_EMISSION_REWARD_def EMISSION_SPEED_FACTOR_PER_MINUTE_def)

end
